(* ===== verification/Chariot_Prelude.thy ===== *)
theory Chariot_Prelude
  imports Main "HOL-Library.Word" "HOL-Library.Multiset" "HOL-Library.Sublist"
begin

text \<open>
  Shared vocabulary of the development: the machine types of
  \<^verbatim>\<open>include/chariot/types.h\<close>, the error numbers of \<^verbatim>\<open>include/chariot/errno.h\<close> that
  the modelled code returns, the collections of rewrite rules the component theories
  fill, the interface locales that more than one component implements, and generic
  lemmas on lists.
\<close>

section \<open>Machine types and constants\<close>

type_synonym u64 = "64 word"
type_synonym ptr = nat
type_synonym byte = "8 word"

definition PGSIZE :: nat where "PGSIZE = 4096"

definition EINTR :: int where "EINTR = 4"
definition EAGAIN :: int where "EAGAIN = 11"
definition ESRCH :: int where "ESRCH = 3"
definition EINVAL :: int where "EINVAL = 22"
definition ECONNRESET :: int where "ECONNRESET = 104"
definition ETIMEDOUT :: int where "ETIMEDOUT = 110"

lemmas errno_defs = EINTR_def EAGAIN_def ESRCH_def EINVAL_def ECONNRESET_def ETIMEDOUT_def

section \<open>Collections of rules\<close>

named_theorems heap_simps \<open>what one store into a linked structure reads back as\<close>
named_theorems frame_rules \<open>a structure is unchanged by a store outside it\<close>

section \<open>Lists\<close>

lemma find_append: "find P (xs @ ys) = (case find P xs of None \<Rightarrow> find P ys | Some x \<Rightarrow> Some x)"
  by (induction xs) auto

lemma remove1_split: "x \<notin> set xs \<Longrightarrow> remove1 x (xs @ x # ys) = xs @ ys"
  by (induction xs) auto

lemma split_at_member:
  assumes "x \<in> set xs"
  obtains ys zs where "xs = ys @ x # zs" and "x \<notin> set ys"
  using split_list_first[OF assms] by blast

lemma suffix_append_right: "suffix xs ys \<Longrightarrow> suffix (xs @ zs) (ys @ zs)"
  by (auto simp: suffix_def)

section \<open>Arithmetic\<close>

lemma mod_twice: "(x::nat) < 2 * n \<Longrightarrow> x mod n = (if x < n then x else x - n)"
  by (simp add: le_mod_geq)

text \<open>Unsigned 64-bit addition and subtraction on natural numbers.\<close>

definition add64 :: "nat \<Rightarrow> nat \<Rightarrow> nat" where "add64 a b = (a + b) mod 2 ^ 64"
definition sub64 :: "nat \<Rightarrow> nat \<Rightarrow> nat" where "sub64 a b = nat ((int a - int b) mod 2 ^ 64)"

lemma add64_exact: "a + b < 2 ^ 64 \<Longrightarrow> add64 a b = a + b"
  by (simp add: add64_def)

lemma sub64_exact: "b \<le> a \<Longrightarrow> a < 2 ^ 64 \<Longrightarrow> sub64 a b = a - b"
  by (simp add: sub64_def of_nat_diff[symmetric] nat_mod_distrib del: of_nat_diff)

section \<open>Interfaces\<close>

text \<open>
  A queue of tasks that is threaded through the tasks themselves: what the wait queues
  and the scheduler rely on. \<open>repr s xs\<close> says that the store \<open>s\<close> holds the queue
  \<open>xs\<close>; \<open>ok n\<close> that \<open>n\<close> may be linked at all.
\<close>

locale task_queue =
  fixes repr :: "'s \<Rightarrow> 'p list \<Rightarrow> bool"
    and ok :: "'p \<Rightarrow> bool"
    and enqueue :: "'s \<Rightarrow> 'p \<Rightarrow> 's"
    and unlink :: "'s \<Rightarrow> 'p \<Rightarrow> 's"
  assumes repr_distinct: "repr s xs \<Longrightarrow> distinct xs"
    and repr_enqueue: "repr s xs \<Longrightarrow> ok n \<Longrightarrow> n \<notin> set xs \<Longrightarrow> repr (enqueue s n) (xs @ [n])"
    and repr_unlink: "repr s (xs @ n # ys) \<Longrightarrow> repr (unlink s n) (xs @ ys)"
    and repr_ok: "repr s xs \<Longrightarrow> n \<in> set xs \<Longrightarrow> ok n"
begin

lemma repr_unlink_member:
  assumes r: "repr s xs" and n: "n \<in> set xs"
  shows "repr (unlink s n) (remove1 n xs)"
proof -
  obtain ys zs where xs: "xs = ys @ n # zs" and ys: "n \<notin> set ys"
    by (rule split_at_member[OF n])
  from r xs have "repr (unlink s n) (ys @ zs)" by (simp add: repr_unlink)
  then show ?thesis by (simp add: xs remove1_split[OF ys])
qed

lemma repr_enqueue_all:
  assumes "repr s xs" and "\<forall>n \<in> set ns. ok n" and "distinct ns" and "set ns \<inter> set xs = {}"
  shows "repr (fold (\<lambda>n t. enqueue t n) ns s) (xs @ ns)"
  using assms
proof (induction ns arbitrary: s xs)
  case Nil
  then show ?case by simp
next
  case (Cons n ns)
  then have "repr (enqueue s n) (xs @ [n])" by (simp add: repr_enqueue)
  with Cons.prems have "repr (fold (\<lambda>n t. enqueue t n) ns (enqueue s n)) ((xs @ [n]) @ ns)"
    by (intro Cons.IH) auto
  then show ?case by simp
qed

text \<open>Unlinking a task and queueing it again moves it behind every other task.\<close>

lemma repr_requeue:
  assumes r: "repr s xs" and n: "n \<in> set xs"
  shows "repr (enqueue (unlink s n) n) (remove1 n xs @ [n])"
proof (rule repr_enqueue)
  show "repr (unlink s n) (remove1 n xs)" using r n by (rule repr_unlink_member)
  show "ok n" using r n by (rule repr_ok)
  show "n \<notin> set (remove1 n xs)" using repr_distinct[OF r] by simp
qed

lemma repr_unlink_all:
  assumes "repr s xs"
  shows "repr (fold (\<lambda>n t. unlink t n) xs s) []"
  using assms
proof (induction xs arbitrary: s)
  case Nil
  then show ?case by simp
next
  case (Cons n ns)
  from Cons.prems have "repr (unlink s n) ns" using repr_unlink[of s "[]" n ns] by simp
  then show ?case using Cons.IH by simp
qed

end

text \<open>A task queue that also accepts tasks at its front.\<close>

locale task_deque = task_queue +
  fixes push_front :: "'s \<Rightarrow> 'p \<Rightarrow> 's"
  assumes repr_push_front:
    "repr s xs \<Longrightarrow> ok n \<Longrightarrow> n \<notin> set xs \<Longrightarrow> repr (push_front s n) (n # xs)"
begin

lemma repr_push_all:
  assumes "repr s xs" and "\<forall>n \<in> set ns. ok n" and "distinct ns" and "set ns \<inter> set xs = {}"
  shows "repr (fold (\<lambda>n t. push_front t n) ns s) (rev ns @ xs)"
  using assms
proof (induction ns arbitrary: s xs)
  case Nil
  then show ?case by simp
next
  case (Cons n ns)
  then have "repr (push_front s n) (n # xs)" by (simp add: repr_push_front)
  with Cons.prems have "repr (fold (\<lambda>n t. push_front t n) ns (push_front s n)) (rev ns @ n # xs)"
    by (intro Cons.IH) auto
  then show ?case by simp
qed

lemma repr_move_front:
  assumes r: "repr s xs" and n: "n \<in> set xs"
  shows "repr (push_front (unlink s n) n) (n # remove1 n xs)"
proof (rule repr_push_front)
  show "repr (unlink s n) (remove1 n xs)" using r n by (rule repr_unlink_member)
  show "ok n" using r n by (rule repr_ok)
  show "n \<notin> set (remove1 n xs)" using repr_distinct[OF r] by simp
qed

end

text \<open>
  A bounded stream of items: \<open>put s bs\<close> stores as many items as there is room for and
  tells how many, \<open>get s n\<close> takes out at most \<open>n\<close>. What the typed channels rely on.
\<close>

locale bounded_stream =
  fixes inv :: "'s \<Rightarrow> bool"
    and content :: "'s \<Rightarrow> 'b list"
    and room :: "'s \<Rightarrow> nat"
    and put :: "'s \<Rightarrow> 'b list \<Rightarrow> 's \<times> nat"
    and get :: "'s \<Rightarrow> nat \<Rightarrow> 's \<times> 'b list"
  assumes put_count: "inv s \<Longrightarrow> snd (put s bs) = min (room s) (length bs)"
    and put_content: "inv s \<Longrightarrow> content (fst (put s bs)) = content s @ take (room s) bs"
    and put_room: "inv s \<Longrightarrow> room (fst (put s bs)) = room s - length bs"
    and put_inv: "inv s \<Longrightarrow> inv (fst (put s bs))"
    and get_items: "inv s \<Longrightarrow> snd (get s n) = take n (content s)"
    and get_content: "inv s \<Longrightarrow> content (fst (get s n)) = drop n (content s)"
    and get_room: "inv s \<Longrightarrow> room (fst (get s n)) = room s + min n (length (content s))"
    and get_inv: "inv s \<Longrightarrow> inv (fst (get s n))"
begin

lemmas stream_laws = put_count put_content put_room put_inv get_items get_content get_room get_inv

lemma put_get: "inv s \<Longrightarrow> content s = [] \<Longrightarrow> snd (get (fst (put s bs)) n) = take n (take (room s) bs)"
  by (simp add: stream_laws)

text \<open>Whole messages, sent one after the other while there is room for all of them.\<close>

lemma put_messages:
  assumes "inv s" and "sum_list (map length ms) \<le> room s"
  shows "content (fold (\<lambda>m t. fst (put t m)) ms s) = content s @ concat ms"
    and "inv (fold (\<lambda>m t. fst (put t m)) ms s)"
  using assms
proof (induction ms arbitrary: s)
  case Nil
  { case 1 then show ?case by simp next case 2 then show ?case by simp }
next
  case (Cons m ms)
  { case 1 then show ?case using Cons.IH(1)[of "fst (put s m)"] by (simp add: stream_laws)
  next case 2 then show ?case using Cons.IH(2)[of "fst (put s m)"] by (simp add: stream_laws) }
qed

text \<open>Reading a message of the width that was written gives it back and leaves the rest.\<close>

lemma get_message:
  assumes "inv s" and "content s = m @ rest" and "length m = w"
  shows "snd (get s w) = m" and "content (fst (get s w)) = rest"
  using assms by (auto simp: stream_laws)

end

end
