(* ===== verification/List_Head.thy ===== *)
theory List_Head
  imports Chariot_Prelude
begin

text \<open>
  The intrusive, circular, doubly linked list of \<^verbatim>\<open>include/chariot/list_head.h\<close>.
  A \<^verbatim>\<open>list_head\<close> lives inside another structure, so lists share one store:
  two maps from the address of a node to its \<^verbatim>\<open>next\<close> and \<^verbatim>\<open>prev\<close> fields. Each
  operation performs the stores of the code in the code's order.
\<close>

section \<open>Nodes and the elementary operations\<close>

record list_head =
  lh_prev :: "ptr \<Rightarrow> ptr"
  lh_next :: "ptr \<Rightarrow> ptr"

definition set_next :: "ptr \<Rightarrow> ptr \<Rightarrow> list_head \<Rightarrow> list_head" where
  "set_next p v h = h\<lparr>lh_next := (lh_next h)(p := v)\<rparr>"

definition set_prev :: "ptr \<Rightarrow> ptr \<Rightarrow> list_head \<Rightarrow> list_head" where
  "set_prev p v h = h\<lparr>lh_prev := (lh_prev h)(p := v)\<rparr>"

definition LIST_POISON1 :: ptr where "LIST_POISON1 = 0x00100100"
definition LIST_POISON2 :: ptr where "LIST_POISON2 = 0x00200200"

definition lh_init :: "list_head \<Rightarrow> ptr \<Rightarrow> list_head" where
  "lh_init h this = set_prev this this (set_next this this h)"

definition lh_add_between :: "list_head \<Rightarrow> ptr \<Rightarrow> ptr \<Rightarrow> ptr \<Rightarrow> list_head" where
  "lh_add_between h n prev nxt =
     set_next prev n (set_prev n prev (set_next n nxt (set_prev nxt n h)))"

definition lh_add :: "list_head \<Rightarrow> ptr \<Rightarrow> ptr \<Rightarrow> list_head" where
  "lh_add h this n = lh_add_between h n this (lh_next h this)"

definition lh_add_tail :: "list_head \<Rightarrow> ptr \<Rightarrow> ptr \<Rightarrow> list_head" where
  "lh_add_tail h this n = lh_add_between h n (lh_prev h this) this"

definition lh_del_between :: "list_head \<Rightarrow> ptr \<Rightarrow> ptr \<Rightarrow> list_head" where
  "lh_del_between h prev nxt = set_next prev nxt (set_prev nxt prev h)"

definition lh_del :: "list_head \<Rightarrow> ptr \<Rightarrow> list_head" where
  "lh_del h this =
     set_prev this LIST_POISON2
       (set_next this LIST_POISON1 (lh_del_between h (lh_prev h this) (lh_next h this)))"

definition lh_del_init :: "list_head \<Rightarrow> ptr \<Rightarrow> list_head" where
  "lh_del_init h this = lh_init (lh_del h this) this"

definition lh_replace :: "list_head \<Rightarrow> ptr \<Rightarrow> ptr \<Rightarrow> list_head" where
  "lh_replace h this other =
     (let h1 = set_next other (lh_next h this) h;
          h2 = set_prev (lh_next h1 other) other h1;
          h3 = set_prev other (lh_prev h2 this) h2
      in set_next (lh_prev h3 other) other h3)"

definition lh_replace_init :: "list_head \<Rightarrow> ptr \<Rightarrow> ptr \<Rightarrow> list_head" where
  "lh_replace_init h this other = lh_init (lh_replace h this other) this"

definition lh_move :: "list_head \<Rightarrow> ptr \<Rightarrow> ptr \<Rightarrow> list_head" where
  "lh_move h this head = lh_add (lh_del h this) head this"

definition lh_move_tail :: "list_head \<Rightarrow> ptr \<Rightarrow> ptr \<Rightarrow> list_head" where
  "lh_move_tail h this head = lh_add_tail (lh_del h this) head this"

definition lh_is_last :: "list_head \<Rightarrow> ptr \<Rightarrow> ptr \<Rightarrow> bool" where
  "lh_is_last h this entry \<longleftrightarrow> lh_next h entry = this"

definition lh_is_empty :: "list_head \<Rightarrow> ptr \<Rightarrow> bool" where
  "lh_is_empty h this \<longleftrightarrow> lh_prev h this = lh_next h this"

definition lh_is_empty_careful :: "list_head \<Rightarrow> ptr \<Rightarrow> bool" where
  "lh_is_empty_careful h this \<longleftrightarrow>
     (let onext = lh_next h this in onext = this \<and> onext = lh_prev h this)"

definition lh_splice_between :: "list_head \<Rightarrow> ptr \<Rightarrow> ptr \<Rightarrow> ptr \<Rightarrow> list_head" where
  "lh_splice_between h lst prev nxt =
     (let first = lh_next h lst; final = lh_prev h lst
      in set_prev nxt final (set_next final nxt (set_next prev first (set_prev first prev h))))"

definition lh_splice :: "list_head \<Rightarrow> ptr \<Rightarrow> ptr \<Rightarrow> list_head" where
  "lh_splice h this other =
     (if \<not> lh_is_empty h other then lh_splice_between h other this (lh_next h this) else h)"

definition lh_splice_tail :: "list_head \<Rightarrow> ptr \<Rightarrow> ptr \<Rightarrow> list_head" where
  "lh_splice_tail h this lst =
     (if \<not> lh_is_empty h lst then lh_splice_between h lst (lh_prev h this) this else h)"

definition lh_splice_init :: "list_head \<Rightarrow> ptr \<Rightarrow> ptr \<Rightarrow> list_head" where
  "lh_splice_init h this other =
     (if \<not> lh_is_empty h other
      then lh_init (lh_splice_between h other this (lh_next h this)) other else h)"

definition lh_splice_tail_init :: "list_head \<Rightarrow> ptr \<Rightarrow> ptr \<Rightarrow> list_head" where
  "lh_splice_tail_init h this other =
     (if \<not> lh_is_empty h other
      then lh_init (lh_splice_between h other (lh_prev h this) this) other else h)"

text \<open>
  \<^verbatim>\<open>begin()\<close>, \<^verbatim>\<open>end()\<close> and the iterator: start at the head's successor and follow
  \<^verbatim>\<open>next\<close> until the head comes up again. A broken ring makes the loop run forever,
  which is the value \<^term>\<open>None\<close>.
\<close>

partial_function (option) lh_walk :: "list_head \<Rightarrow> ptr \<Rightarrow> ptr \<Rightarrow> ptr list option" where
  "lh_walk h head item =
     (if item = head then Some []
      else Option.bind (lh_walk h head (lh_next h item)) (\<lambda>rest. Some (item # rest)))"

definition lh_for_each :: "list_head \<Rightarrow> ptr \<Rightarrow> ptr list option" where
  "lh_for_each h head = lh_walk h head (lh_next h head)"

section \<open>Segments and rings\<close>

text \<open>
  \<open>lseg h a xs b\<close>: following \<^verbatim>\<open>next\<close> from \<open>a\<close> visits \<open>xs\<close> and then \<open>b\<close>, and the
  \<^verbatim>\<open>prev\<close> fields mirror it. A list is a segment from its head back to its head.
\<close>

primrec lseg :: "list_head \<Rightarrow> ptr \<Rightarrow> ptr list \<Rightarrow> ptr \<Rightarrow> bool" where
  "lseg h a [] b \<longleftrightarrow> lh_next h a = b \<and> lh_prev h b = a"
| "lseg h a (x # xs) b \<longleftrightarrow> lh_next h a = x \<and> lh_prev h x = a \<and> lseg h x xs b"

definition lh_list :: "list_head \<Rightarrow> ptr \<Rightarrow> ptr list \<Rightarrow> bool" where
  "lh_list h head xs \<longleftrightarrow> distinct (head # xs) \<and> lseg h head xs head"

lemma set_next_sel [heap_simps, simp]:
  "lh_next (set_next p v h) = (lh_next h)(p := v)" "lh_prev (set_next p v h) = lh_prev h"
  by (simp_all add: set_next_def)

lemma set_prev_sel [heap_simps, simp]:
  "lh_prev (set_prev p v h) = (lh_prev h)(p := v)" "lh_next (set_prev p v h) = lh_next h"
  by (simp_all add: set_prev_def)

lemma lseg_append [simp]: "lseg h a (xs @ y # ys) b \<longleftrightarrow> lseg h a xs y \<and> lseg h y ys b"
  by (induction xs arbitrary: a) auto

lemma lseg_set_next [frame_rules, simp]:
  "p \<noteq> a \<Longrightarrow> p \<notin> set xs \<Longrightarrow> lseg (set_next p v h) a xs b \<longleftrightarrow> lseg h a xs b"
  by (induction xs arbitrary: a) auto

lemma lseg_set_prev [frame_rules, simp]:
  "p \<noteq> b \<Longrightarrow> p \<notin> set xs \<Longrightarrow> lseg (set_prev p v h) a xs b \<longleftrightarrow> lseg h a xs b"
  by (induction xs arbitrary: a) auto

lemma lseg_cong:
  "\<forall>p \<in> insert a (set xs). lh_next h' p = lh_next h p \<Longrightarrow>
   \<forall>p \<in> insert b (set xs). lh_prev h' p = lh_prev h p \<Longrightarrow> lseg h' a xs b \<longleftrightarrow> lseg h a xs b"
  by (induction xs arbitrary: a) auto

lemma lh_list_frame:
  assumes "\<forall>p \<in> insert head (set xs). lh_next h' p = lh_next h p \<and> lh_prev h' p = lh_prev h p"
  shows "lh_list h' head xs \<longleftrightarrow> lh_list h head xs"
  using assms by (simp add: lh_list_def lseg_cong[of head xs h' h head])

lemma lseg_last: "lseg h a xs b \<Longrightarrow> lh_prev h b = last (a # xs)"
  by (induction xs arbitrary: a) auto

lemma lseg_first: "lseg h a xs b \<Longrightarrow> lh_next h a = hd (xs @ [b])"
  by (cases xs) auto

section \<open>Each operation on a represented list\<close>

lemma lh_list_init: "lh_list (lh_init h head) head []"
  by (simp add: lh_list_def lh_init_def)

lemma lh_add_between_list:
  assumes l: "lh_list h head (xs @ ys)" and n: "n \<notin> set (head # xs @ ys)"
  shows "lh_list (lh_add_between h n (last (head # xs)) (hd (ys @ [head]))) head (xs @ n # ys)"
proof (cases xs rule: rev_cases)
  case Nil
  then show ?thesis using l n by (cases ys) (auto simp: lh_list_def lh_add_between_def)
next
  case (snoc xs' p)
  then show ?thesis using l n by (cases ys) (auto simp: lh_list_def lh_add_between_def)
qed

lemma lh_list_next: "lh_list h head xs \<Longrightarrow> lh_next h head = hd (xs @ [head])"
  by (auto simp: lh_list_def dest: lseg_first)

lemma lh_list_prev: "lh_list h head xs \<Longrightarrow> lh_prev h head = last (head # xs)"
  by (auto simp: lh_list_def dest: lseg_last)

lemma lh_add_list:
  "lh_list h head xs \<Longrightarrow> n \<notin> set (head # xs) \<Longrightarrow> lh_list (lh_add h head n) head (n # xs)"
  using lh_add_between_list[of h head "[]" xs n] by (simp add: lh_add_def lh_list_next)

lemma lh_add_tail_list:
  "lh_list h head xs \<Longrightarrow> n \<notin> set (head # xs) \<Longrightarrow> lh_list (lh_add_tail h head n) head (xs @ [n])"
  using lh_add_between_list[of h head xs "[]" n] by (simp add: lh_add_tail_def lh_list_prev)

lemma lh_del_between_list:
  assumes l: "lh_list h head (xs @ n # ys)"
  shows "lh_prev h n = last (head # xs)" "lh_next h n = hd (ys @ [head])"
    "lh_list (lh_del_between h (last (head # xs)) (hd (ys @ [head]))) head (xs @ ys)"
proof -
  from l show "lh_prev h n = last (head # xs)" by (auto simp: lh_list_def dest: lseg_last)
  from l show "lh_next h n = hd (ys @ [head])" by (auto simp: lh_list_def dest: lseg_first)
  show "lh_list (lh_del_between h (last (head # xs)) (hd (ys @ [head]))) head (xs @ ys)"
  proof (cases xs rule: rev_cases)
    case Nil
    then show ?thesis using l by (cases ys) (auto simp: lh_list_def lh_del_between_def)
  next
    case (snoc xs' p)
    then show ?thesis using l by (cases ys) (auto simp: lh_list_def lh_del_between_def)
  qed
qed

lemma lh_del_list:
  assumes l: "lh_list h head (xs @ n # ys)"
  shows "lh_list (lh_del h n) head (xs @ ys)"
proof -
  have "n \<noteq> head" "n \<notin> set (xs @ ys)" using l by (auto simp: lh_list_def)
  then show ?thesis
    using lh_del_between_list[OF l] lh_list_frame[of head "xs @ ys" "lh_del h n"]
    by (subst lh_list_frame[where h = "lh_del_between h (lh_prev h n) (lh_next h n)"])
      (auto simp: lh_del_def)
qed

lemma lh_del_init_list:
  assumes l: "lh_list h head (xs @ n # ys)"
  shows "lh_list (lh_del_init h n) head (xs @ ys)"
proof -
  have "n \<noteq> head" "n \<notin> set (xs @ ys)" using l by (auto simp: lh_list_def)
  then show ?thesis using lh_del_list[OF l]
    by (subst lh_list_frame[where h = "lh_del h n"]) (auto simp: lh_del_init_def lh_init_def)
qed

lemma lh_list_distinct: "lh_list h head xs \<Longrightarrow> distinct (head # xs)"
  by (simp add: lh_list_def)

interpretation lh: task_deque "\<lambda>h xs. lh_list h head xs" "\<lambda>n. n \<noteq> head"
  "\<lambda>h n. lh_add_tail h head n" lh_del_init "\<lambda>h n. lh_add h head n" for head
  by unfold_locales
    (auto simp: lh_add_tail_list lh_add_list lh_del_init_list dest: lh_list_distinct)

lemma lh_move_list:
  assumes l: "lh_list h head (xs @ n # ys)"
  shows "lh_list (lh_move h n head) head (n # xs @ ys)"
    and "lh_list (lh_move_tail h n head) head (xs @ ys @ [n])"
  using lh_add_list[OF lh_del_list[OF l], of n] lh_add_tail_list[OF lh_del_list[OF l], of n]
    lh_list_distinct[OF l] by (auto simp: lh_move_def lh_move_tail_def)

lemma lh_replace_list:
  assumes l: "lh_list h head (xs @ n # ys)" and m: "m \<notin> set (head # xs @ n # ys)"
  shows "lh_list (lh_replace h n m) head (xs @ m # ys)"
proof (cases xs rule: rev_cases)
  case Nil
  then show ?thesis using l m by (cases ys) (auto simp: lh_list_def lh_replace_def Let_def)
next
  case (snoc xs' p)
  then show ?thesis using l m by (cases ys) (auto simp: lh_list_def lh_replace_def Let_def)
qed

lemma lh_replace_init_list:
  assumes l: "lh_list h head (xs @ n # ys)" and m: "m \<notin> set (head # xs @ n # ys)"
  shows "lh_list (lh_replace_init h n m) head (xs @ m # ys)"
    and "lh_list (lh_replace_init h n m) n []"
proof -
  have "n \<noteq> head" "n \<notin> set (xs @ m # ys)" using l m by (auto simp: lh_list_def)
  then show "lh_list (lh_replace_init h n m) head (xs @ m # ys)" using lh_replace_list[OF l m]
    by (subst lh_list_frame[where h = "lh_replace h n m"]) (auto simp: lh_replace_init_def lh_init_def)
  show "lh_list (lh_replace_init h n m) n []"
    by (simp add: lh_replace_init_def lh_list_init)
qed

lemma lh_is_empty_list: "lh_list h head xs \<Longrightarrow> lh_is_empty h head \<longleftrightarrow> length xs \<le> 1"
  by (cases xs; cases "tl xs" rule: rev_cases)
    (auto simp: lh_list_def lh_is_empty_def dest: lseg_last)

lemma lh_is_empty_careful_list: "lh_list h head xs \<Longrightarrow> lh_is_empty_careful h head \<longleftrightarrow> xs = []"
  by (cases xs) (auto simp: lh_list_def lh_is_empty_careful_def Let_def)

lemma lh_walk_seg:
  "lseg h a xs head \<Longrightarrow> head \<notin> set xs \<Longrightarrow> lh_walk h head (lh_next h a) = Some xs"
proof (induction xs arbitrary: a)
  case Nil
  then show ?case by (simp add: lh_walk.simps)
next
  case (Cons x xs)
  then have "lh_walk h head (lh_next h x) = Some xs" by simp
  with Cons.prems show ?case by (simp add: lh_walk.simps[of h head x])
qed

lemma lh_for_each_list: "lh_list h head xs \<Longrightarrow> lh_for_each h head = Some xs"
  by (simp add: lh_for_each_def lh_list_def lh_walk_seg)

section \<open>Joining two lists\<close>

text \<open>The splice lemmas need the two lists to be disjoint, heads included.\<close>

lemma lh_splice_between_front:
  assumes h: "lh_list h head xs" and other: "lh_list h other ys" "ys \<noteq> []"
    and disj: "set (head # xs) \<inter> set (other # ys) = {}"
  shows "lh_list (lh_splice_between h other head (lh_next h head)) head (ys @ xs)"
proof -
  obtain y ys' where ys: "ys = y # ys'" using other(2) by (cases ys) auto
  show ?thesis
  proof (cases ys' rule: rev_cases)
    case Nil
    then show ?thesis using h other(1) disj ys
      by (cases xs) (auto simp: lh_list_def lh_splice_between_def Let_def)
  next
    case (snoc zs z)
    then show ?thesis using h other(1) disj ys
      by (cases xs) (auto simp: lh_list_def lh_splice_between_def Let_def)
  qed
qed

lemma lh_splice_between_tail:
  assumes h: "lh_list h head xs" and other: "lh_list h other ys" "ys \<noteq> []"
    and disj: "set (head # xs) \<inter> set (other # ys) = {}"
  shows "lh_list (lh_splice_between h other (lh_prev h head) head) head (xs @ ys)"
proof -
  obtain y ys' where ys: "ys = y # ys'" using other(2) by (cases ys) auto
  show ?thesis
  proof (cases ys' rule: rev_cases)
    case Nil
    then show ?thesis using h other(1) disj ys
      by (cases xs rule: rev_cases) (auto simp: lh_list_def lh_splice_between_def Let_def)
  next
    case (snoc zs z)
    then show ?thesis using h other(1) disj ys
      by (cases xs rule: rev_cases) (auto simp: lh_list_def lh_splice_between_def Let_def)
  qed
qed

lemma lh_list_init_other:
  "lh_list h head xs \<Longrightarrow> p \<notin> set (head # xs) \<Longrightarrow> lh_list (lh_init h p) head xs"
  by (subst lh_list_frame[where h = h]) (auto simp: lh_init_def)

lemma lh_splice_init_list:
  assumes h: "lh_list h head xs" and other: "lh_list h other ys" "length ys \<noteq> 1"
    and disj: "set (head # xs) \<inter> set (other # ys) = {}"
  shows "lh_list (lh_splice_init h head other) head (ys @ xs)"
    and "lh_list (lh_splice_tail_init h head other) head (xs @ ys)"
    and "lh_list (lh_splice_init h head other) other []"
    and "lh_list (lh_splice_tail_init h head other) other []"
proof -
  have e: "lh_is_empty h other \<longleftrightarrow> ys = []" using lh_is_empty_list[OF other(1)] other(2)
    by (cases ys) auto
  have out: "other \<notin> set (head # ys @ xs)" "other \<notin> set (head # xs @ ys)"
    using disj lh_list_distinct[OF other(1)] by auto
  note front = lh_splice_between_front[OF h other(1) _ disj]
    and tail = lh_splice_between_tail[OF h other(1) _ disj]
  show "lh_list (lh_splice_init h head other) head (ys @ xs)"
    using h e front lh_list_init_other[OF front out(1)] by (auto simp: lh_splice_init_def)
  show "lh_list (lh_splice_tail_init h head other) head (xs @ ys)"
    using h e tail lh_list_init_other[OF tail out(2)] by (auto simp: lh_splice_tail_init_def)
  show "lh_list (lh_splice_init h head other) other []"
    "lh_list (lh_splice_tail_init h head other) other []"
    using other(1) e by (auto simp: lh_splice_init_def lh_splice_tail_init_def lh_list_init)
qed

section \<open>Properties\<close>

definition lh_empty_heap :: list_head where
  "lh_empty_heap = \<lparr>lh_prev = (\<lambda>_. 0), lh_next = (\<lambda>_. 0)\<rparr>"

text \<open>
  The operations of \<^verbatim>\<open>struct list_head\<close> refine operations on sequences. On a heap
  that holds the ring \<open>xs @ n # ys\<close> below \<open>head\<close>, with \<open>m\<close> a node of no list:
  \<^verbatim>\<open>add\<close> puts \<open>m\<close> first, \<^verbatim>\<open>add_tail\<close> puts it last, \<^verbatim>\<open>del_init\<close> takes out exactly
  \<open>n\<close> and leaves it an empty ring of its own, \<^verbatim>\<open>move\<close> and \<^verbatim>\<open>list_move_tail\<close> bring
  \<open>n\<close> to the front and to the back, and \<^verbatim>\<open>replace_init\<close> puts \<open>m\<close> in the place of \<open>n\<close>.
\<close>

theorem lh_ops_refine:
  assumes l: "lh_list h head (xs @ n # ys)" and m: "m \<notin> set (head # xs @ n # ys)"
  shows "lh_list (lh_add h head m) head (m # xs @ n # ys) \<and>
    lh_list (lh_add_tail h head m) head (xs @ n # ys @ [m]) \<and>
    lh_list (lh_del_init h n) head (xs @ ys) \<and> lh_list (lh_del_init h n) n [] \<and>
    lh_list (lh_move h n head) head (n # xs @ ys) \<and>
    lh_list (lh_move_tail h n head) head (xs @ ys @ [n]) \<and>
    lh_list (lh_replace_init h n m) head (xs @ m # ys) \<and> lh_list (lh_replace_init h n m) n []"
  using lh_add_list[OF l m] lh_add_tail_list[OF l m] lh_del_init_list[OF l] lh_move_list[OF l]
    lh_replace_init_list[OF l m] by (simp add: lh_del_init_def lh_list_init)

theorem lh_ops_refine_witness:
  "lh_list (lh_del_init (lh_add_tail (lh_add_tail (lh_init lh_empty_heap 1) 1 2) 1 3) 2) 1 [3]"
proof -
  have l: "lh_list (lh_add_tail (lh_add_tail (lh_init lh_empty_heap 1) 1 2) 1 3) 1 ([] @ 2 # [3])"
    by (simp add: lh_list_def lh_add_tail_def lh_add_between_def lh_init_def lh_empty_heap_def)
  show ?thesis using lh_ops_refine[OF l, of 7] by simp
qed

text \<open>
  A list filled with \<^verbatim>\<open>add_tail\<close> is iterated in the order of insertion, and the
  iteration ends: \<^verbatim>\<open>for (auto *n : head)\<close> visits every node that was added, once.
\<close>

theorem lh_for_each_fifo:
  assumes "distinct (head # ns)"
  shows "lh_for_each (fold (\<lambda>n h. lh_add_tail h head n) ns (lh_init h head)) head = Some ns"
proof (rule lh_for_each_list)
  show "lh_list (fold (\<lambda>n h. lh_add_tail h head n) ns (lh_init h head)) head ns"
    using assms lh.repr_enqueue_all[OF lh_list_init, of ns head h] by fastforce
qed

theorem lh_for_each_fifo_witness:
  "lh_for_each (fold (\<lambda>n h. lh_add_tail h 1 n) [5, 2, 9] (lh_init lh_empty_heap 1)) 1 = Some [5, 2, 9]"
proof -
  have d: "distinct (1 # [5, 2, 9 :: nat])" by simp
  show ?thesis by (rule lh_for_each_fifo[OF d])
qed

text \<open>
  \<^verbatim>\<open>is_empty\<close> compares \<^verbatim>\<open>prev\<close> with \<^verbatim>\<open>next\<close>, so it also answers true for a list
  of exactly one node; only \<^verbatim>\<open>is_empty_careful\<close> decides emptiness.
\<close>

theorem lh_is_empty_one:
  assumes "lh_list h head xs"
  shows "(lh_is_empty h head \<longleftrightarrow> xs = [] \<or> (\<exists>n. xs = [n])) \<and>
    (lh_is_empty_careful h head \<longleftrightarrow> xs = [])"
  using lh_is_empty_list[OF assms] lh_is_empty_careful_list[OF assms]
  by (cases xs; cases "tl xs") auto

theorem lh_is_empty_one_witness:
  "lh_is_empty (lh_add (lh_init lh_empty_heap 1) 1 2) 1 \<and>
   \<not> lh_is_empty_careful (lh_add (lh_init lh_empty_heap 1) 1 2) 1"
proof -
  have l: "lh_list (lh_add (lh_init lh_empty_heap 1) 1 2) 1 [2]"
    by (simp add: lh_list_def lh_add_def lh_add_between_def lh_init_def lh_empty_heap_def)
  show ?thesis using lh_is_empty_one[OF l] by simp
qed

text \<open>
  \<^verbatim>\<open>splice_init\<close> and \<^verbatim>\<open>splice_tail_init\<close> move the whole list \<open>ys\<close> below \<open>other\<close> to
  the front and to the back of \<open>xs\<close> and leave \<open>other\<close> empty, unless \<open>ys\<close> has exactly one
  node: then both do nothing and the node stays where it was.
\<close>

theorem lh_splice_moves_all:
  assumes h: "lh_list h head xs" and other: "lh_list h other ys"
    and disj: "set (head # xs) \<inter> set (other # ys) = {}"
  shows "if length ys = 1
    then lh_splice_init h head other = h \<and> lh_splice_tail_init h head other = h
    else lh_list (lh_splice_init h head other) head (ys @ xs) \<and>
      lh_list (lh_splice_tail_init h head other) head (xs @ ys) \<and>
      lh_list (lh_splice_init h head other) other [] \<and>
      lh_list (lh_splice_tail_init h head other) other []"
  using lh_splice_init_list[OF h other _ disj] lh_is_empty_list[OF other]
  by (simp add: lh_splice_init_def lh_splice_tail_init_def)

theorem lh_splice_moves_all_witness:
  "let h = lh_add_tail (lh_add_tail (lh_init (lh_add (lh_init lh_empty_heap 1) 1 2) 3) 3 4) 3 5
   in lh_list (lh_splice_tail_init h 1 3) 1 [2, 4, 5]"
proof -
  let ?h = "lh_add_tail (lh_add_tail (lh_init (lh_add (lh_init lh_empty_heap 1) 1 2) 3) 3 4) 3 5"
  have "lh_list ?h 1 [2]" and "lh_list ?h 3 [4, 5]"
    by (simp_all add: lh_list_def lh_add_tail_def lh_add_def lh_add_between_def lh_init_def
        lh_empty_heap_def)
  from lh_splice_moves_all[OF this] show ?thesis by (simp add: Let_def)
qed

end
