(* ===== verification/Fifo_Buf.thy ===== *)
theory Fifo_Buf
  imports Chariot_Prelude
begin

text \<open>
  The byte ring of \<^verbatim>\<open>kernel/fs/fifo_buf.cpp\<close>, which sits under ptys, consoles, local
  sockets and the typed channels of \<^verbatim>\<open>include/chariot/chan.h\<close>. The section between
  \<^verbatim>\<open>lock_irqsave\<close> and \<^verbatim>\<open>unlock_irqrestore\<close> is one function on the state; a call that
  blocks takes the list of its wake-ups, each with what the other threads did to the
  ring meanwhile and with the result of \<^verbatim>\<open>wait_queue::wait\<close>.
\<close>

section \<open>The ring\<close>

record fifo_buf =
  m_closed :: bool
  fifo_mem :: "(nat \<Rightarrow> byte) option"
  write_ptr :: nat
  read_ptr :: nat
  m_size :: nat

definition available :: "fifo_buf \<Rightarrow> nat" where
  "available f =
     (if read_ptr f = write_ptr f then m_size f - 1
      else if read_ptr f > write_ptr f then read_ptr f - write_ptr f - 1
      else (m_size f - write_ptr f) + read_ptr f - 1)"

definition unread :: "fifo_buf \<Rightarrow> nat" where
  "unread f =
     (if read_ptr f = write_ptr f then 0
      else if read_ptr f > write_ptr f then (m_size f - read_ptr f) + write_ptr f
      else write_ptr f - read_ptr f)"

definition increment_read :: "fifo_buf \<Rightarrow> fifo_buf" where
  "increment_read f =
     (let r = read_ptr f + 1 in f\<lparr>read_ptr := (if r = m_size f then 0 else r)\<rparr>)"

definition increment_write :: "fifo_buf \<Rightarrow> fifo_buf" where
  "increment_write f =
     (let w = write_ptr f + 1 in f\<lparr>write_ptr := (if w = m_size f then 0 else w)\<rparr>)"

definition fifo_close :: "fifo_buf \<Rightarrow> fifo_buf" where
  "fifo_close f = f\<lparr>m_closed := True\<rparr>"

text \<open>\<open>fresh\<close> is what the block of memory returned by \<^verbatim>\<open>malloc\<close> holds.\<close>

definition init_if_needed :: "(nat \<Rightarrow> byte) \<Rightarrow> fifo_buf \<Rightarrow> fifo_buf" where
  "init_if_needed fresh f =
     (case fifo_mem f of
        None \<Rightarrow> f\<lparr>m_size := 4096 * 16, fifo_mem := Some fresh\<rparr>
      | Some _ \<Rightarrow> f)"

text \<open>Storing and fetching one byte at the pointers.\<close>

definition fifo_store :: "fifo_buf \<Rightarrow> byte \<Rightarrow> fifo_buf" where
  "fifo_store f c = f\<lparr>fifo_mem := map_option (\<lambda>b. b(write_ptr f := c)) (fifo_mem f)\<rparr>"

definition fifo_fetch :: "fifo_buf \<Rightarrow> byte" where
  "fifo_fetch f = (case fifo_mem f of Some b \<Rightarrow> b (read_ptr f) | None \<Rightarrow> 0)"

section \<open>The locked copy loops\<close>

function write_locked :: "fifo_buf \<Rightarrow> byte list \<Rightarrow> nat \<Rightarrow> fifo_buf \<times> nat" where
  "write_locked f ibuf written =
     (if available f > 0 \<and> written < length ibuf
      then write_locked (increment_write (fifo_store f (ibuf ! written))) ibuf (written + 1)
      else (f, written))"
  by pat_completeness auto
termination by (relation "measure (\<lambda>(f, ibuf, written). length ibuf - written)") auto

function read_locked :: "fifo_buf \<Rightarrow> nat \<Rightarrow> byte list \<Rightarrow> fifo_buf \<times> byte list" where
  "read_locked f sz obuf =
     (if unread f > 0 \<and> length obuf < sz
      then read_locked (increment_read f) sz (obuf @ [fifo_fetch f])
      else (f, obuf))"
  by pat_completeness auto
termination by (relation "measure (\<lambda>(f, sz, obuf). sz - length obuf)") auto

declare write_locked.simps [simp del] read_locked.simps [simp del]

section \<open>Reading and writing\<close>

datatype wait_outcome = Woken | Interrupted | TimedOut

type_synonym wakeup = "(fifo_buf \<Rightarrow> fifo_buf) \<times> wait_outcome"

datatype fifo_ret = Returns int | Blocked

fun write_loop :: "wakeup list \<Rightarrow> bool \<Rightarrow> fifo_buf \<Rightarrow> byte list \<Rightarrow> nat \<Rightarrow> fifo_buf \<times> nat \<times> fifo_ret" where
  "write_loop ws block f ibuf written =
     (if written < length ibuf then
        let (f1, w1) = write_locked f ibuf written in
        if \<not> block then (f1, w1, Returns (- EAGAIN))
        else if w1 < length ibuf then
          (case ws of
             [] \<Rightarrow> (f1, w1, Blocked)
           | (others, res) # ws' \<Rightarrow>
               let f2 = others f1 in
               if res = Interrupted then (f2, w1, Returns (if w1 > 0 then int w1 else - EINTR))
               else if m_closed f2 then (f2, w1, Returns (- ECONNRESET))
               else write_loop ws' block f2 ibuf w1)
        else (f1, w1, Returns (int w1))
      else (f, written, Returns (int written)))"

definition fifo_write ::
    "(nat \<Rightarrow> byte) \<Rightarrow> wakeup list \<Rightarrow> fifo_buf \<Rightarrow> byte list \<Rightarrow> bool \<Rightarrow> fifo_buf \<times> nat \<times> fifo_ret" where
  "fifo_write fresh ws f ibuf block = write_loop ws block (init_if_needed fresh f) ibuf 0"

fun read_loop ::
    "wakeup list \<Rightarrow> bool \<Rightarrow> bool \<Rightarrow> fifo_buf \<Rightarrow> nat \<Rightarrow> fifo_buf \<times> byte list \<times> fifo_ret" where
  "read_loop ws block timed f sz =
     (let (f1, obuf) = read_locked f sz [] in
      if \<not> block then (f1, obuf, Returns (int (length obuf)))
      else if obuf = [] then
        (case ws of
           [] \<Rightarrow> (f1, obuf, Blocked)
         | (others, res) # ws' \<Rightarrow>
             let f2 = others f1 in
             if res = Interrupted then (f2, obuf, Returns (- EINTR))
             else if timed \<and> res = TimedOut then (f2, obuf, Returns (- ETIMEDOUT))
             else read_loop ws' block timed f2 sz)
      else (f1, obuf, Returns (int (length obuf))))"

text \<open>\<open>timed\<close> is \<^verbatim>\<open>timeout_us != -1\<close>; the destination buffer is the middle component.\<close>

definition fifo_read ::
    "(nat \<Rightarrow> byte) \<Rightarrow> wakeup list \<Rightarrow> fifo_buf \<Rightarrow> nat \<Rightarrow> bool \<Rightarrow> bool \<Rightarrow> fifo_buf \<times> byte list \<times> fifo_ret" where
  "fifo_read fresh ws f sz block timed =
     (let f0 = init_if_needed fresh f in
      if \<not> block \<and> unread f0 = 0 then
        (f0, [], Returns (if m_closed f0 then 0 else - EAGAIN))
      else read_loop ws block timed f0 sz)"

definition fifo_stats :: "fifo_buf \<Rightarrow> nat \<times> nat" where
  "fifo_stats f = (available f, unread f)"

text \<open>
  \<^verbatim>\<open>poll\<close> registers the caller on the two wait queues of the ring and reports what is
  possible now; on a closed ring it reports a read event and registers nothing.
\<close>

datatype fifo_wq = WQ_READERS | WQ_WRITERS

definition AWAITFS_READ :: nat where "AWAITFS_READ = 1"
definition AWAITFS_WRITE :: nat where "AWAITFS_WRITE = 2"

definition fifo_poll :: "fifo_buf \<Rightarrow> (fifo_wq \<times> nat) list \<times> nat" where
  "fifo_poll f =
     (if m_closed f then ([], AWAITFS_READ)
      else ([(WQ_READERS, AWAITFS_READ), (WQ_WRITERS, AWAITFS_WRITE)],
        or (if unread f > 0 then AWAITFS_READ else 0) (if available f > 0 then AWAITFS_WRITE else 0)))"

section \<open>Typed channels\<close>

text \<open>
  \<^verbatim>\<open>chan<T>\<close> sends the \<open>w = sizeof(T)\<close> bytes of a value through a ring. \<^verbatim>\<open>recv\<close> panics
  when a read does not return exactly \<open>w\<close> bytes.
\<close>

datatype chan_result = Value "byte list" | Errno int | Panic int | Waiting

definition chan_send ::
    "(nat \<Rightarrow> byte) \<Rightarrow> wakeup list \<Rightarrow> fifo_buf \<Rightarrow> byte list \<Rightarrow> bool \<Rightarrow> fifo_buf" where
  "chan_send fresh ws f val wait = fst (fifo_write fresh ws f val wait)"

definition chan_recv ::
    "(nat \<Rightarrow> byte) \<Rightarrow> wakeup list \<Rightarrow> fifo_buf \<Rightarrow> nat \<Rightarrow> fifo_buf \<times> chan_result" where
  "chan_recv fresh ws f w =
     (case fifo_read fresh ws f w True False of
        (f', buf, Blocked) \<Rightarrow> (f', Waiting)
      | (f', buf, Returns n) \<Rightarrow> (f', if n \<noteq> int w then Panic n else Value buf))"

definition chan_recv_timeout ::
    "(nat \<Rightarrow> byte) \<Rightarrow> wakeup list \<Rightarrow> fifo_buf \<Rightarrow> nat \<Rightarrow> fifo_buf \<times> chan_result" where
  "chan_recv_timeout fresh ws f w =
     (case fifo_read fresh ws f w True True of
        (f', buf, Blocked) \<Rightarrow> (f', Waiting)
      | (f', buf, Returns n) \<Rightarrow>
          (f', if n = - ETIMEDOUT then Errno (- ETIMEDOUT)
               else if n \<noteq> int w then Panic n else Value buf))"

definition chan_avail :: "fifo_buf \<Rightarrow> nat \<Rightarrow> bool" where
  "chan_avail f w \<longleftrightarrow> unread f \<ge> w"

definition chan_poll :: "fifo_buf \<Rightarrow> nat \<Rightarrow> (fifo_wq \<times> nat) list \<times> nat" where
  "chan_poll f w =
     (let (regs, ev) = fifo_poll f
      in (regs, or (or ev (if chan_avail f w then AWAITFS_READ else 0)) AWAITFS_WRITE))"

primrec chan_recv_n ::
    "(nat \<Rightarrow> byte) \<Rightarrow> nat \<Rightarrow> nat \<Rightarrow> fifo_buf \<Rightarrow> fifo_buf \<times> chan_result list" where
  "chan_recv_n fresh w 0 f = (f, [])"
| "chan_recv_n fresh w (Suc k) f =
     (let (f1, r) = chan_recv fresh [] f w; (f2, rs) = chan_recv_n fresh w k f1 in (f2, r # rs))"

section \<open>One reader and one writer, interleaved\<close>

text \<open>
  \<^verbatim>\<open>read\<close> and \<^verbatim>\<open>write\<close> release the ring's lock before they put themselves on a wait
  queue. A thread is scanning (about to take the lock), in the gap between the unlock and
  the entry into the wait queue, asleep on the queue, or done. \<^verbatim>\<open>wake_up_all\<close> reaches
  only a thread that is already asleep.
\<close>

datatype rd_pc = R_scan | R_gap | R_sleep | R_done "byte list"
datatype wr_pc = W_scan nat | W_gap nat | W_sleep nat | W_done

fun wake_reader :: "rd_pc \<Rightarrow> rd_pc" where
  "wake_reader R_sleep = R_scan"
| "wake_reader pc = pc"

fun wake_writer :: "wr_pc \<Rightarrow> wr_pc" where
  "wake_writer (W_sleep w) = W_scan w"
| "wake_writer pc = pc"

record fifo_sys =
  ring :: fifo_buf
  rpc :: rd_pc
  wpc :: wr_pc

inductive fifo_step :: "nat \<Rightarrow> byte list \<Rightarrow> fifo_sys \<Rightarrow> fifo_sys \<Rightarrow> bool" for sz ibuf where
  reader_empty: "rpc s = R_scan \<Longrightarrow> read_locked (ring s) sz [] = (f, []) \<Longrightarrow>
    fifo_step sz ibuf s (s\<lparr>ring := f, rpc := R_gap, wpc := wake_writer (wpc s)\<rparr>)"
| reader_data: "rpc s = R_scan \<Longrightarrow> read_locked (ring s) sz [] = (f, b # bs) \<Longrightarrow>
    fifo_step sz ibuf s (s\<lparr>ring := f, rpc := R_done (b # bs), wpc := wake_writer (wpc s)\<rparr>)"
| reader_wait: "rpc s = R_gap \<Longrightarrow> fifo_step sz ibuf s (s\<lparr>rpc := R_sleep\<rparr>)"
| writer_copy: "wpc s = W_scan w \<Longrightarrow> w < length ibuf \<Longrightarrow> write_locked (ring s) ibuf w = (f, w') \<Longrightarrow>
    fifo_step sz ibuf s (s\<lparr>ring := f, rpc := wake_reader (rpc s),
      wpc := (if w' < length ibuf then W_gap w' else W_done)\<rparr>)"
| writer_wait: "wpc s = W_gap w \<Longrightarrow> fifo_step sz ibuf s (s\<lparr>wpc := W_sleep w\<rparr>)"

inductive_cases fifo_stepE: "fifo_step sz ibuf s t"

declare write_loop.simps [simp del] read_loop.simps [simp del]

section \<open>Abstraction: the sequence of unread bytes\<close>

definition fifo_inv :: "fifo_buf \<Rightarrow> bool" where
  "fifo_inv f \<longleftrightarrow> fifo_mem f \<noteq> None \<and> 0 < m_size f \<and> read_ptr f < m_size f \<and> write_ptr f < m_size f"

definition fifo_content :: "fifo_buf \<Rightarrow> byte list" where
  "fifo_content f =
     (case fifo_mem f of
        None \<Rightarrow> []
      | Some b \<Rightarrow> map (\<lambda>i. b ((read_ptr f + i) mod m_size f)) [0..<unread f])"

lemma length_fifo_content [simp]: "fifo_inv f \<Longrightarrow> length (fifo_content f) = unread f"
  by (auto simp: fifo_content_def fifo_inv_def)

lemma unread_pos: "fifo_inv f \<Longrightarrow> 0 < unread f \<longleftrightarrow> fifo_content f \<noteq> []"
  using length_fifo_content[of f] length_greater_0_conv[of "fifo_content f"] by simp

lemma unread_less: "fifo_inv f \<Longrightarrow> unread f < m_size f"
  by (auto simp: fifo_inv_def unread_def)

lemma available_unread: "fifo_inv f \<Longrightarrow> available f = m_size f - 1 - unread f"
  by (auto simp: fifo_inv_def unread_def available_def)

lemma write_ptr_eq: "fifo_inv f \<Longrightarrow> write_ptr f = (read_ptr f + unread f) mod m_size f"
  by (subst mod_twice) (auto simp: fifo_inv_def unread_def)

lemma ring_index_free:
  assumes "fifo_inv f" and "i < unread f"
  shows "(read_ptr f + i) mod m_size f \<noteq> write_ptr f"
  using assms by (subst mod_twice) (auto simp: fifo_inv_def unread_def split: if_splits)

text \<open>One byte in.\<close>

definition fifo_put :: "fifo_buf \<Rightarrow> byte \<Rightarrow> fifo_buf" where
  "fifo_put f c = increment_write (fifo_store f c)"

lemma fifo_put_sel [simp]:
  "read_ptr (fifo_put f c) = read_ptr f" "m_size (fifo_put f c) = m_size f"
  "m_closed (fifo_put f c) = m_closed f"
  "fifo_mem (fifo_put f c) = map_option (\<lambda>b. b(write_ptr f := c)) (fifo_mem f)"
  "write_ptr (fifo_put f c) = (if write_ptr f + 1 = m_size f then 0 else write_ptr f + 1)"
  by (simp_all add: fifo_put_def increment_write_def fifo_store_def Let_def)

lemma fifo_inv_put: "fifo_inv f \<Longrightarrow> fifo_inv (fifo_put f c)"
  by (auto simp: fifo_inv_def)

lemma unread_put: "fifo_inv f \<Longrightarrow> available f > 0 \<Longrightarrow> unread (fifo_put f c) = unread f + 1"
  by (auto simp: fifo_inv_def unread_def available_def split: if_splits)

lemma fifo_content_put:
  assumes inv: "fifo_inv f" and room: "available f > 0"
  shows "fifo_content (fifo_put f c) = fifo_content f @ [c]"
proof -
  obtain b where b: "fifo_mem f = Some b" using inv by (auto simp: fifo_inv_def)
  have "map (\<lambda>i. (b(write_ptr f := c)) ((read_ptr f + i) mod m_size f)) [0..<unread f] =
      map (\<lambda>i. b ((read_ptr f + i) mod m_size f)) [0..<unread f]"
    using ring_index_free[OF inv] by simp
  then show ?thesis
    using b unread_put[OF inv room] write_ptr_eq[OF inv] by (simp add: fifo_content_def)
qed

text \<open>One byte out.\<close>

lemma increment_read_sel [simp]:
  "write_ptr (increment_read f) = write_ptr f" "m_size (increment_read f) = m_size f"
  "m_closed (increment_read f) = m_closed f" "fifo_mem (increment_read f) = fifo_mem f"
  "read_ptr (increment_read f) = (if read_ptr f + 1 = m_size f then 0 else read_ptr f + 1)"
  by (simp_all add: increment_read_def Let_def)

lemma fifo_inv_get: "fifo_inv f \<Longrightarrow> fifo_inv (increment_read f)"
  by (auto simp: fifo_inv_def)

lemma unread_get: "fifo_inv f \<Longrightarrow> unread f > 0 \<Longrightarrow> unread (increment_read f) = unread f - 1"
  by (auto simp: fifo_inv_def unread_def split: if_splits)

lemma read_ptr_step:
  "(read_ptr (increment_read f) + i) mod m_size f = (read_ptr f + (i + 1)) mod m_size f"
proof (cases "read_ptr f + 1 = m_size f")
  case True
  then have "read_ptr f + (i + 1) = i + m_size f" by simp
  then have "(read_ptr f + (i + 1)) mod m_size f = i mod m_size f" by (simp only: mod_add_self2)
  with True show ?thesis by simp
qed simp

lemma fifo_content_get:
  assumes inv: "fifo_inv f" and some: "unread f > 0"
  shows "fifo_content f = fifo_fetch f # fifo_content (increment_read f)"
proof -
  obtain b where b: "fifo_mem f = Some b" using inv by (auto simp: fifo_inv_def)
  have r: "read_ptr f mod m_size f = read_ptr f" using inv by (simp add: fifo_inv_def)
  have "[0..<unread f] = 0 # map Suc [0..<unread f - 1]"
    using some by (simp add: map_Suc_upt upt_conv_Cons)
  then show ?thesis
    using b r unread_get[OF inv some] read_ptr_step[of f]
    by (simp add: fifo_content_def fifo_fetch_def o_def del: increment_read_sel(5))
qed

section \<open>The locked loops on the abstraction\<close>

lemma write_locked_put:
  "write_locked f ibuf written =
     (if available f > 0 \<and> written < length ibuf
      then write_locked (fifo_put f (ibuf ! written)) ibuf (written + 1) else (f, written))"
  by (subst write_locked.simps) (simp add: fifo_put_def)

lemma write_locked_correct:
  assumes "fifo_inv f" and "written \<le> length ibuf" and "write_locked f ibuf written = (f', w')"
  shows "fifo_inv f' \<and> m_size f' = m_size f \<and> m_closed f' = m_closed f \<and>
    w' = written + min (available f) (length ibuf - written) \<and>
    fifo_content f' = fifo_content f @ take (available f) (drop written ibuf)"
  using assms
proof (induction f ibuf written rule: write_locked.induct)
  case (1 f ibuf written)
  show ?case
  proof (cases "available f > 0 \<and> written < length ibuf")
    case True
    let ?g = "fifo_put f (ibuf ! written)"
    have g: "fifo_inv ?g" using 1(2) by (rule fifo_inv_put)
    have room: "available ?g = available f - 1"
      using True available_unread[OF 1(2)] available_unread[OF g] unread_put[OF 1(2)] by simp
    have "write_locked ?g ibuf (written + 1) = (f', w')"
      using True 1(4) by (simp add: write_locked_put[of f])
    then have IH: "fifo_inv f' \<and> m_size f' = m_size ?g \<and> m_closed f' = m_closed ?g \<and>
        w' = (written + 1) + min (available ?g) (length ibuf - (written + 1)) \<and>
        fifo_content f' = fifo_content ?g @ take (available ?g) (drop (written + 1) ibuf)"
      using 1(1)[OF True] g True by (simp add: fifo_put_def)
    have "take (available f) (drop written ibuf) =
        ibuf ! written # take (available ?g) (drop (written + 1) ibuf)"
      using True room by (simp add: Cons_nth_drop_Suc[symmetric] take_Cons')
    then show ?thesis using IH True room fifo_content_put[OF 1(2)] by auto
  next
    case False
    then show ?thesis using 1(2-4) by (subst (asm) write_locked_put) auto
  qed
qed

lemma read_locked_correct:
  assumes "fifo_inv f" and "length obuf \<le> sz" and "read_locked f sz obuf = (f', obuf')"
  shows "fifo_inv f' \<and> m_size f' = m_size f \<and> m_closed f' = m_closed f \<and>
    obuf' = obuf @ take (sz - length obuf) (fifo_content f) \<and>
    fifo_content f' = drop (sz - length obuf) (fifo_content f)"
  using assms
proof (induction f sz obuf rule: read_locked.induct)
  case (1 f sz obuf)
  show ?case
  proof (cases "unread f > 0 \<and> length obuf < sz")
    case True
    have "read_locked (increment_read f) sz (obuf @ [fifo_fetch f]) = (f', obuf')"
      using True 1(4) by (simp add: read_locked.simps[of f])
    then show ?thesis
      using 1(1)[OF True] fifo_inv_get[OF 1(2)] fifo_content_get[OF 1(2)] True
      by (auto simp: take_Cons' drop_Cons')
  next
    case False
    then have "fifo_content f = [] \<or> sz = length obuf" 
      using 1(2,3) length_fifo_content[OF 1(2)] by (auto simp flip: length_0_conv)
    then show ?thesis using False 1(2-4) by (subst (asm) read_locked.simps) auto
  qed
qed

text \<open>The two locked sections are a bounded stream whose room is \<^verbatim>\<open>available()\<close>.\<close>

interpretation fifo: bounded_stream fifo_inv fifo_content available
  "\<lambda>f bs. write_locked f bs 0" "\<lambda>f n. read_locked f n []"
proof
  fix s :: fifo_buf and bs :: "byte list" and n :: nat
  assume inv: "fifo_inv s"
  obtain f' w' where w: "write_locked s bs 0 = (f', w')" by (cases "write_locked s bs 0") auto
  note wl = write_locked_correct[OF inv _ w]
  obtain g' ob where r: "read_locked s n [] = (g', ob)" by (cases "read_locked s n []") auto
  note rl = read_locked_correct[OF inv _ r]
  show "snd (write_locked s bs 0) = min (available s) (length bs)"
    "fifo_content (fst (write_locked s bs 0)) = fifo_content s @ take (available s) bs"
    "fifo_inv (fst (write_locked s bs 0))"
    using w wl by auto
  show "available (fst (write_locked s bs 0)) = available s - length bs"
    using w wl available_unread[OF inv] available_unread[of f'] length_fifo_content[of f']
      length_fifo_content[OF inv] by auto
  show "snd (read_locked s n []) = take n (fifo_content s)"
    "fifo_content (fst (read_locked s n [])) = drop n (fifo_content s)"
    "fifo_inv (fst (read_locked s n []))"
    using r rl by auto
  show "available (fst (read_locked s n [])) = available s + min n (length (fifo_content s))"
    using r rl available_unread[OF inv] available_unread[of g'] length_fifo_content[of g']
      length_fifo_content[OF inv] unread_less[OF inv] by auto
qed

section \<open>Blocking calls\<close>

text \<open>What readers on other threads do to the ring while a writer sleeps.\<close>

definition drains :: "(fifo_buf \<Rightarrow> fifo_buf) \<Rightarrow> bool" where
  "drains g \<longleftrightarrow> (\<forall>f. fifo_inv f \<longrightarrow> (\<exists>n. g f = fst (read_locked f n [])))"

lemma drains_suffix:
  assumes "drains g" and "fifo_inv f"
  shows "fifo_inv (g f) \<and> suffix (fifo_content (g f)) (fifo_content f) \<and>
    m_closed (g f) = m_closed f \<and> m_size (g f) = m_size f"
proof -
  obtain n where n: "g f = fst (read_locked f n [])" using assms by (auto simp: drains_def)
  show ?thesis
    using read_locked_correct[OF assms(2), of "[]" n] n
    by (cases "read_locked f n []") (auto simp: suffix_drop)
qed

text \<open>One round of the write loop, and what it does to the ring.\<close>

lemma write_loop_round:
  assumes "written < length ibuf" and "write_locked f ibuf written = (f1, w1)"
  shows "write_loop ws True f ibuf written =
    (if w1 < length ibuf then
       (case ws of [] \<Rightarrow> (f1, w1, Blocked)
        | (others, res) # ws' \<Rightarrow>
            if res = Interrupted then (others f1, w1, Returns (if w1 > 0 then int w1 else - EINTR))
            else if m_closed (others f1) then (others f1, w1, Returns (- ECONNRESET))
            else write_loop ws' True (others f1) ibuf w1)
     else (f1, w1, Returns (int w1)))"
  using assms by (subst write_loop.simps) (simp add: Let_def split: list.split prod.split)

lemma write_loop_end [simp]:
  "length ibuf \<le> written \<Longrightarrow> write_loop ws block f ibuf written = (f, written, Returns (int written))"
  by (subst write_loop.simps) simp

lemma write_locked_stream:
  assumes "fifo_inv f" and "written \<le> length ibuf" and "write_locked f ibuf written = (f1, w1)"
  shows "fifo_inv f1 \<and> written \<le> w1 \<and> w1 \<le> length ibuf \<and>
    fifo_content f1 @ drop w1 ibuf = fifo_content f @ drop written ibuf"
proof -
  note c = write_locked_correct[OF assms]
  then have "drop (available f) (drop written ibuf) = drop w1 ibuf"
    by (auto simp: min_def add.commute)
  then have "take (available f) (drop written ibuf) @ drop w1 ibuf = drop written ibuf"
    by (metis append_take_drop_id)
  with c assms(2) show ?thesis by auto
qed

text \<open>
  The bytes still unread followed by the bytes still to be written are always a suffix of
  what they were: nothing is lost, repeated or reordered by the writer.
\<close>

lemma write_loop_stream:
  assumes "fifo_inv f" and "written \<le> length ibuf" and "\<forall>(g, res) \<in> set ws. drains g"
    and "write_loop ws True f ibuf written = (f', w, ret)"
  shows "fifo_inv f' \<and> written \<le> w \<and> w \<le> length ibuf \<and>
    suffix (fifo_content f' @ drop w ibuf) (fifo_content f @ drop written ibuf)"
  using assms
proof (induction ws arbitrary: f written)
  case Nil
  obtain f1 w1 where s: "write_locked f ibuf written = (f1, w1)"
    by (cases "write_locked f ibuf written")
  show ?case
    using Nil(1,2,4) write_loop_round[OF _ s, of "[]"] write_locked_stream[OF Nil(1,2) s]
    by (cases "written < length ibuf") (auto split: if_splits)
next
  case (Cons e ws)
  obtain f1 w1 where s: "write_locked f ibuf written = (f1, w1)"
    by (cases "write_locked f ibuf written")
  obtain g res where e: "e = (g, res)" by (cases e)
  note st = write_locked_stream[OF Cons.prems(1,2) s]
  have g: "fifo_inv (g f1)" "suffix (fifo_content (g f1) @ drop w1 ibuf) (fifo_content f @ drop written ibuf)"
    using drains_suffix[of g f1] Cons.prems(3) e st
      suffix_append_right[of "fifo_content (g f1)" "fifo_content f1" "drop w1 ibuf"] by auto
  show ?case
  proof (cases "written < length ibuf \<and> w1 < length ibuf \<and> res \<noteq> Interrupted \<and> \<not> m_closed (g f1)")
    case True
    then have "write_loop ws True (g f1) ibuf w1 = (f', w, ret)"
      using Cons.prems(4) write_loop_round[OF _ s] e by simp
    from Cons.IH[OF g(1) _ _ this] st Cons.prems(3) show ?thesis
      using g(2) suffix_order.trans by auto
  next
    case False
    then show ?thesis
      using Cons.prems(1,2,4) write_loop_round[OF _ s, of "e # ws"] st g e
      by (cases "written < length ibuf") (auto split: if_splits)
  qed
qed

lemma write_loop_ret:
  "write_loop ws True f ibuf written = (f', w, Returns r) \<Longrightarrow> 0 \<le> r \<Longrightarrow> r = int w"
proof (induction ws arbitrary: f written)
  case Nil
  then show ?case
    by (cases "written < length ibuf"; cases "write_locked f ibuf written")
      (auto simp: write_loop_round split: if_splits)
next
  case (Cons e ws)
  then show ?case
    by (cases "written < length ibuf"; cases "write_locked f ibuf written"; cases e)
      (auto simp: write_loop_round errno_defs split: if_splits)
qed

lemma init_if_needed_inv [simp]: "fifo_inv f \<Longrightarrow> init_if_needed fresh f = f"
  by (auto simp: init_if_needed_def fifo_inv_def split: option.splits)

text \<open>A reader that takes everything there is.\<close>

definition drain_all :: "fifo_buf \<Rightarrow> fifo_buf" where
  "drain_all f = fst (read_locked f (unread f) [])"

lemma drain_all_correct:
  assumes "fifo_inv f"
  shows "fifo_inv (drain_all f)" "available (drain_all f) = m_size f - 1"
    "m_size (drain_all f) = m_size f" "m_closed (drain_all f) = m_closed f"
    "fifo_content (drain_all f) = []"
proof -
  obtain f' ob where r: "read_locked f (unread f) [] = (f', ob)"
    by (cases "read_locked f (unread f) []")
  note c = read_locked_correct[OF assms _ r]
  show "fifo_inv (drain_all f)" "m_size (drain_all f) = m_size f"
    "m_closed (drain_all f) = m_closed f" "fifo_content (drain_all f) = []"
    using c r assms by (auto simp: drain_all_def)
  then show "available (drain_all f) = m_size f - 1"
    using available_unread length_fifo_content by fastforce
qed

lemma write_loop_completes:
  assumes "fifo_inv f" and "\<not> m_closed f" and "written \<le> length ibuf"
    and "length ibuf - written \<le> available f + k * (m_size f - 1)"
  shows "\<exists>f'. write_loop (replicate k (drain_all, Woken)) True f ibuf written =
    (f', length ibuf, Returns (int (length ibuf)))"
  using assms
proof (induction k arbitrary: f written)
  case 0
  obtain f1 w1 where s: "write_locked f ibuf written = (f1, w1)"
    by (cases "write_locked f ibuf written")
  show ?case using 0 write_locked_correct[OF 0(1,3) s] write_loop_round[OF _ s, of "[]"]
    by (cases "written < length ibuf") auto
next
  case (Suc k)
  obtain f1 w1 where s: "write_locked f ibuf written = (f1, w1)"
    by (cases "write_locked f ibuf written")
  note c = write_locked_correct[OF Suc.prems(1,3) s]
  note d = drain_all_correct[of f1]
  show ?case
  proof (cases "written < length ibuf \<and> w1 < length ibuf")
    case True
    then have "\<exists>f'. write_loop (replicate k (drain_all, Woken)) True (drain_all f1) ibuf w1 =
        (f', length ibuf, Returns (int (length ibuf)))"
      using Suc.prems c d by (intro Suc.IH) auto
    then show ?thesis using True write_loop_round[OF _ s] c d Suc.prems(2) by auto
  next
    case False
    then show ?thesis using Suc.prems(3) write_loop_round[OF _ s] c
      by (cases "written < length ibuf") auto
  qed
qed

lemma fifo_close_sel [simp]:
  "fifo_inv (fifo_close f) = fifo_inv f" "unread (fifo_close f) = unread f" "m_closed (fifo_close f)"
  by (simp_all add: fifo_close_def fifo_inv_def unread_def)

text \<open>A blocking reader on an empty ring that nobody fills goes back to sleep every time.\<close>

lemma read_locked_empty: "unread f = 0 \<Longrightarrow> read_locked f n [] = (f, [])"
  by (subst read_locked.simps) simp

lemma read_loop_starves:
  assumes "unread f = 0" and "\<forall>(g, res) \<in> set ws. res = Woken \<and> (\<forall>f. unread f = 0 \<longrightarrow> unread (g f) = 0)"
  shows "snd (snd (read_loop ws True timed f n)) = Blocked"
  using assms
proof (induction ws arbitrary: f)
  case Nil
  then show ?case by (subst read_loop.simps) (simp add: read_locked_empty)
next
  case (Cons e ws)
  then show ?case by (subst read_loop.simps) (auto simp: read_locked_empty Let_def)
qed

section \<open>Channels\<close>

lemma write_loop_nonblock:
  "ibuf \<noteq> [] \<Longrightarrow> write_loop ws False f ibuf 0 =
     (fst (write_locked f ibuf 0), snd (write_locked f ibuf 0), Returns (- EAGAIN))"
  by (subst write_loop.simps) (simp add: case_prod_beta)

lemma read_loop_data:
  assumes "read_locked f n [] = (f', ob)" and "ob \<noteq> []"
  shows "read_loop ws block timed f n = (f', ob, Returns (int (length ob)))"
  using assms by (subst read_loop.simps) simp

lemma chan_send_put:
  assumes "fifo_inv f"
  shows "chan_send fresh ws f m False = fst (write_locked f m 0)"
  using assms
  by (cases "m = []") (simp_all add: chan_send_def fifo_write_def write_loop_nonblock write_locked.simps[of f "[]"])

lemma chan_recv_get:
  assumes "fifo_inv f" and "fifo_content f \<noteq> []" and "0 < w"
  shows "chan_recv fresh ws f w =
    (fst (read_locked f w []), if w \<le> unread f then Value (take w (fifo_content f))
                               else Panic (int (unread f)))"
proof -
  obtain f' ob where r: "read_locked f w [] = (f', ob)" by (cases "read_locked f w []")
  have "ob = take w (fifo_content f)" using read_locked_correct[OF assms(1) _ r] by simp
  moreover have "ob \<noteq> []" using calculation assms by simp
  ultimately show ?thesis using assms(1) read_loop_data[OF r, of ws True False] r
    by (auto simp: chan_recv_def fifo_read_def)
qed

lemma chan_recv_n_messages:
  assumes "fifo_inv f" and "fifo_content f = concat ms @ rest" and "\<forall>m \<in> set ms. length m = w" and "0 < w"
  shows "\<exists>f'. fifo_inv f' \<and> fifo_content f' = rest \<and> m_size f' = m_size f \<and>
    chan_recv_n fresh w (length ms) f = (f', map Value ms)"
  using assms
proof (induction ms arbitrary: f)
  case Nil
  then show ?case by simp
next
  case (Cons m ms)
  let ?g = "fst (read_locked f w [])"
  obtain f' ob where r: "read_locked f w [] = (f', ob)" by (cases "read_locked f w []")
  have c: "fifo_content f = m @ (concat ms @ rest)" "length m = w" using Cons.prems(2,3) by auto
  have g: "fifo_inv ?g" "fifo_content ?g = concat ms @ rest" "m_size ?g = m_size f"
    using read_locked_correct[OF Cons.prems(1) _ r] c r by auto
  have ne: "fifo_content f \<noteq> []" using c Cons.prems(4) by auto
  have "w \<le> unread f" using length_fifo_content[OF Cons.prems(1)] c by simp
  then have "chan_recv fresh [] f w = (?g, Value m)"
    using chan_recv_get[OF Cons.prems(1) ne Cons.prems(4)] c by simp
  moreover obtain f' where "fifo_inv f' \<and> fifo_content f' = rest \<and> m_size f' = m_size ?g \<and>
      chan_recv_n fresh w (length ms) ?g = (f', map Value ms)"
    using Cons.IH[OF g(1,2)] Cons.prems(3,4) by auto
  ultimately show ?case using g(3) by simp
qed

lemma chan_send_all:
  assumes "fifo_inv f" and "sum_list (map length ms) \<le> available f"
  shows "fifo_inv (fold (\<lambda>m g. chan_send fresh [] g m False) ms f)"
    and "fifo_content (fold (\<lambda>m g. chan_send fresh [] g m False) ms f) = fifo_content f @ concat ms"
proof -
  have "fold (\<lambda>m g. chan_send fresh [] g m False) ms f = fold (\<lambda>m g. fst (write_locked g m 0)) ms f"
    using assms(1)
  proof (induction ms arbitrary: f)
    case (Cons m ms)
    then show ?case using fifo.put_inv[of f m] by (simp add: chan_send_put)
  qed simp
  then show "fifo_inv (fold (\<lambda>m g. chan_send fresh [] g m False) ms f)"
    and "fifo_content (fold (\<lambda>m g. chan_send fresh [] g m False) ms f) = fifo_content f @ concat ms"
    using fifo.put_messages[OF assms] by simp_all
qed

lemma sum_list_fixed_length: "\<forall>m \<in> set ms. length m = w \<Longrightarrow> sum_list (map length ms) = length ms * w"
  by (induction ms) auto

section \<open>Properties\<close>

definition demo_fifo :: fifo_buf where
  "demo_fifo = init_if_needed (\<lambda>_. 0)
     \<lparr>m_closed = False, fifo_mem = None, write_ptr = 0, read_ptr = 0, m_size = 0\<rparr>"

lemma demo_fifo [simp]:
  "fifo_inv demo_fifo" "fifo_content demo_fifo = []" "available demo_fifo = 65535"
  "unread demo_fifo = 0" "m_closed demo_fifo = False" "m_size demo_fifo = 65536"
  by (simp_all add: demo_fifo_def init_if_needed_def fifo_inv_def fifo_content_def unread_def available_def)

text \<open>A ring of four bytes, on which runs are easy to follow.\<close>

definition small_fifo :: fifo_buf where
  "small_fifo = \<lparr>m_closed = False, fifo_mem = Some (\<lambda>_. 0), write_ptr = 0, read_ptr = 0, m_size = 4\<rparr>"

lemma small_fifo [simp]:
  "fifo_inv small_fifo" "fifo_content small_fifo = []" "available small_fifo = 3"
  "unread small_fifo = 0" "m_closed small_fifo = False" "m_size small_fifo = 4"
  by (simp_all add: small_fifo_def fifo_inv_def fifo_content_def unread_def available_def)

text \<open>
  C28: the ring is a bounded queue of bytes. Under its lock, \<^verbatim>\<open>write\<close> appends as much of its
  input as there is room for and \<^verbatim>\<open>read\<close> removes from the front, both keep the pointers
  within the buffer, and \<^verbatim>\<open>available() + unread()\<close> is always one less than the size, so
  that a full ring never looks empty.
\<close>

theorem fifo_queue:
  assumes "fifo_inv f"
  shows "fifo_content (fst (write_locked f bs 0)) = fifo_content f @ take (available f) bs \<and>
    snd (write_locked f bs 0) = min (available f) (length bs) \<and>
    snd (read_locked f n []) = take n (fifo_content f) \<and>
    fifo_content (fst (read_locked f n [])) = drop n (fifo_content f) \<and>
    fifo_inv (fst (write_locked f bs 0)) \<and> fifo_inv (fst (read_locked f n [])) \<and>
    available f + unread f + 1 = m_size f"
  using fifo.stream_laws[OF assms] available_unread[OF assms] unread_less[OF assms] by auto

theorem fifo_queue_witness:
  "snd (read_locked (fst (write_locked demo_fifo [1, 2, 3] 0)) 2 []) = [1, 2]"
  using fifo_queue[of demo_fifo "[1, 2, 3]" 0]
    fifo_queue[of "fst (write_locked demo_fifo [1, 2, 3] 0)" "[]" 2] by simp



text \<open>
  C40: a blocking \<^verbatim>\<open>write\<close> to an open ring completes. If every wake-up finds the ring drained,
  \<open>k\<close> wake-ups with room for the input in \<open>k + 1\<close> rounds make it return the full length.
\<close>

theorem fifo_write_completes:
  assumes "fifo_inv f" and "\<not> m_closed f"
    and "length ibuf \<le> available f + k * (m_size f - 1)"
  shows "snd (snd (fifo_write fresh (replicate k (drain_all, Woken)) f ibuf True)) =
    Returns (int (length ibuf))"
  using write_loop_completes[of f 0 ibuf k] assms by (auto simp: fifo_write_def)

theorem fifo_write_completes_witness:
  "snd (snd (fifo_write (\<lambda>_. 0) (replicate 1 (drain_all, Woken)) small_fifo [1, 2, 3, 4, 5] True)) =
    Returns 5"
  using fifo_write_completes[of small_fifo "[1, 2, 3, 4, 5]" 1 "\<lambda>_. 0"] by simp

text \<open>
  A non-blocking \<^verbatim>\<open>write\<close> of at least one byte reports \<^verbatim>\<open>-EAGAIN\<close> whatever happened,
  even when every byte was stored in the ring.
\<close>

theorem fifo_write_nonblock:
  assumes "fifo_inv f" and "ibuf \<noteq> []" and "length ibuf \<le> available f"
  shows "fifo_write fresh ws f ibuf False =
    (fst (write_locked f ibuf 0), length ibuf, Returns (- EAGAIN)) \<and>
    fifo_content (fst (write_locked f ibuf 0)) = fifo_content f @ ibuf"
  using assms fifo.put_count[of f ibuf] fifo.put_content[of f ibuf]
  by (simp add: fifo_write_def write_loop_nonblock)

theorem fifo_write_nonblock_witness:
  "snd (snd (fifo_write (\<lambda>_. 0) [] demo_fifo [1, 2] False)) = Returns (- 11)"
  using fifo_write_nonblock[of demo_fifo "[1, 2]" "\<lambda>_. 0" "[]"] by (simp add: EAGAIN_def)

text \<open>
  Closing a ring does not end a blocking \<^verbatim>\<open>read\<close>. On an empty, closed ring a non-blocking
  read returns 0, end of file, but a blocking one goes back to sleep after every wake-up.
\<close>

theorem fifo_read_closed:
  assumes "fifo_inv f" and "m_closed f" and "unread f = 0"
    and "\<forall>(g, res) \<in> set ws. res = Woken \<and> (\<forall>f. unread f = 0 \<longrightarrow> unread (g f) = 0)"
  shows "fifo_read fresh ws f n False timed = (f, [], Returns 0) \<and>
    snd (snd (fifo_read fresh ws f n True timed)) = Blocked"
  using assms read_loop_starves[OF assms(3,4), of timed n] by (simp add: fifo_read_def)

theorem fifo_read_closed_witness:
  "snd (snd (fifo_read (\<lambda>_. 0) [(fifo_close, Woken), (id, Woken)] (fifo_close demo_fifo) 8 True False)) = Blocked"
proof -
  have inv: "fifo_inv (fifo_close demo_fifo)" "unread (fifo_close demo_fifo) = 0" by simp_all
  have "\<forall>(g, res) \<in> set [(fifo_close, Woken), (id, Woken)].
      res = Woken \<and> (\<forall>f. unread f = 0 \<longrightarrow> unread (g f) = 0)"
    by simp
  from fifo_read_closed[OF inv(1) _ inv(2) this] show ?thesis by simp
qed

text \<open>
  A typed channel delivers its messages in order: values sent without waiting into an
  empty channel with room for all of them are received one by one, each whole.
\<close>

theorem chan_in_order:
  assumes "fifo_inv f" and "fifo_content f = []" and "\<forall>m \<in> set ms. length m = w" and "0 < w"
    and "length ms * w \<le> available f"
  shows "snd (chan_recv_n fresh w (length ms) (fold (\<lambda>m g. chan_send fresh [] g m False) ms f)) =
    map Value ms"
proof -
  have "sum_list (map length ms) \<le> available f" 
    using sum_list_fixed_length[OF assms(3)] assms(5) by simp
  note sent = chan_send_all[OF assms(1) this, of fresh]
  show ?thesis using chan_recv_n_messages[OF sent(1) _ assms(3,4), of "[]" fresh] sent(2) assms(2)
    by auto
qed

theorem chan_in_order_witness:
  "snd (chan_recv_n (\<lambda>_. 0) 2 2 (fold (\<lambda>m g. chan_send (\<lambda>_. 0) [] g m False) [[1, 2], [3, 4]] demo_fifo)) =
    [Value [1, 2], Value [3, 4]]"
  using chan_in_order[of demo_fifo "[[1, 2], [3, 4]]" 2 "\<lambda>_. 0"] by (simp add: numeral_2_eq_2)

text \<open>
  A channel that is nearly full cuts a message. When some room is left but less than
  \<^verbatim>\<open>sizeof(T)\<close>, \<^verbatim>\<open>send\<close> stores the first bytes only; the receiver gets the complete
  messages and then panics on the fragment.
\<close>

theorem chan_truncates:
  assumes inv: "fifo_inv f" and c: "fifo_content f = concat ms" and ms: "\<forall>m \<in> set ms. length m = w"
    and room: "0 < available f" "available f < w" and m: "length m = w"
  shows "\<exists>f'. chan_recv_n fresh w (length ms) (chan_send fresh [] f m False) = (f', map Value ms) \<and>
    snd (chan_recv fresh [] f' w) = Panic (int (available f))"
proof -
  let ?g = "chan_send fresh [] f m False"
  have g: "fifo_inv ?g" "fifo_content ?g = concat ms @ take (available f) m"
    using fifo.put_inv[OF inv] fifo.put_content[OF inv] c by (simp_all add: chan_send_put[OF inv])
  obtain f' where f': "fifo_inv f'" "fifo_content f' = take (available f) m"
      "chan_recv_n fresh w (length ms) ?g = (f', map Value ms)"
    using chan_recv_n_messages[OF g ms, of fresh] room by auto
  have len: "unread f' = available f" using length_fifo_content[OF f'(1)] f'(2) room m by simp
  have "fifo_content f' \<noteq> []" using len room length_fifo_content[OF f'(1)] by auto
  with f' len room show ?thesis using chan_recv_get[of f' w fresh "[]"] by auto
qed

theorem chan_truncates_witness:
  "\<exists>f'. chan_recv_n (\<lambda>_. 0) 2 1 (chan_send (\<lambda>_. 0) [] (fst (write_locked small_fifo [1, 2] 0)) [3, 4] False) =
      (f', [Value [1, 2]]) \<and> snd (chan_recv (\<lambda>_. 0) [] f' 2) = Panic 1"
proof -
  let ?f = "fst (write_locked small_fifo [1, 2] 0)"
  have f: "fifo_inv ?f" "fifo_content ?f = concat [[1, 2]]" "available ?f = 1"
    using fifo.put_inv[of small_fifo "[1, 2]"] fifo.put_content[of small_fifo "[1, 2]"]
      fifo.put_room[of small_fifo "[1, 2]"] by simp_all
  show ?thesis using chan_truncates[OF f(1,2), of 2 "[3, 4]" "\<lambda>_. 0"] f(3) by simp
qed

text \<open>
  A reader can miss its wake-up. \<^verbatim>\<open>read\<close> finds the ring empty, gives up the lock, and
  only then joins the wait queue; a writer that runs in between stores its bytes and wakes
  nobody. The reader is then asleep on a ring with data and no step of the two threads is
  left.
\<close>

theorem fifo_lost_wakeup:
  assumes "fifo_inv f" and "fifo_content f = []" and "0 < sz" and "ibuf \<noteq> []" and "length ibuf \<le> available f"
  shows "\<exists>s. (fifo_step sz ibuf)\<^sup>*\<^sup>* \<lparr>ring = f, rpc = R_scan, wpc = W_scan 0\<rparr> s \<and>
    rpc s = R_sleep \<and> unread (ring s) > 0 \<and> (\<nexists>t. fifo_step sz ibuf s t)"
proof -
  let ?s0 = "\<lparr>ring = f, rpc = R_scan, wpc = W_scan 0\<rparr>"
  let ?s1 = "\<lparr>ring = f, rpc = R_gap, wpc = W_scan 0\<rparr>"
  obtain g w where w: "write_locked f ibuf 0 = (g, w)" by (cases "write_locked f ibuf 0")
  let ?s2 = "\<lparr>ring = g, rpc = R_gap, wpc = W_done\<rparr>"
  let ?s3 = "\<lparr>ring = g, rpc = R_sleep, wpc = W_done\<rparr>"
  have u: "unread f = 0" using length_fifo_content[OF assms(1)] assms(2) by simp
  have g: "fifo_inv g" "fifo_content g = ibuf" "w = length ibuf"
    using write_locked_correct[OF assms(1) _ w] assms(2,5) by auto
  have a: "fifo_step sz ibuf ?s0 ?s1"
    using fifo_step.reader_empty[of ?s0 sz f ibuf] read_locked_empty[OF u] by simp
  have b: "fifo_step sz ibuf ?s1 ?s2"
    using fifo_step.writer_copy[of ?s1 0 ibuf g w sz] w g(3) assms(4) by simp
  have c: "fifo_step sz ibuf ?s2 ?s3"
    using fifo_step.reader_wait[of ?s2 sz ibuf] by simp
  from a b c have "(fifo_step sz ibuf)\<^sup>*\<^sup>* ?s0 ?s3"
    by (blast intro: converse_rtranclp_into_rtranclp)
  moreover have "unread g > 0" using unread_pos[OF g(1)] g(2) assms(4) by simp
  moreover have "\<nexists>t. fifo_step sz ibuf ?s3 t" by (auto elim: fifo_stepE)
  ultimately show ?thesis by (intro exI[of _ ?s3]) simp
qed

theorem fifo_lost_wakeup_witness:
  "\<exists>s. (fifo_step 4 [9])\<^sup>*\<^sup>* \<lparr>ring = demo_fifo, rpc = R_scan, wpc = W_scan 0\<rparr> s \<and>
    rpc s = R_sleep \<and> unread (ring s) > 0 \<and> (\<nexists>t. fifo_step 4 [9] s t)"
  using fifo_lost_wakeup[of demo_fifo 4 "[9]"] by simp

end
