(* ===== verification/Phys.thy ===== *)
theory Phys
  imports Chariot_Prelude
begin

text \<open>
  The physical page allocator of \<^verbatim>\<open>kernel/phys.cpp\<close>. A free run of pages carries its
  own header, \<^verbatim>\<open>struct frame\<close>, in its first page, so the free list is threaded through
  the free memory. Every pointer is the physical address that the code stores (\<^verbatim>\<open>p2v\<close>
  and \<^verbatim>\<open>v2p\<close> add and remove the kernel's virtual base), memory is read as a frame header
  at every address, and a list walk that would never end is \<^term>\<open>None\<close>.
\<close>

section \<open>The allocator\<close>

record frame =
  frame_next :: nat
  page_len :: nat

record kmem =
  freelist :: nat
  nfree :: nat
  max_free :: nat
  fmem :: "nat \<Rightarrow> frame"

datatype phys_panic = OOM | Unaligned nat | Zero_free_range

definition set_frame_next :: "nat \<Rightarrow> nat \<Rightarrow> (nat \<Rightarrow> frame) \<Rightarrow> nat \<Rightarrow> frame" where
  "set_frame_next p v m = m(p := (m p)\<lparr>frame_next := v\<rparr>)"

definition set_page_len :: "nat \<Rightarrow> nat \<Rightarrow> (nat \<Rightarrow> frame) \<Rightarrow> nat \<Rightarrow> frame" where
  "set_page_len p v m = m(p := (m p)\<lparr>page_len := v\<rparr>)"

text \<open>\<^verbatim>\<open>memset(p2v(a), 0, npages * PGSIZE)\<close>\<close>

definition zero_pages :: "nat \<Rightarrow> nat \<Rightarrow> (nat \<Rightarrow> frame) \<Rightarrow> nat \<Rightarrow> frame" where
  "zero_pages a npages m =
     (\<lambda>x. if a \<le> x \<and> x < a + npages * PGSIZE then \<lparr>frame_next = 0, page_len = 0\<rparr> else m x)"

text \<open>The address just behind a run: pointer arithmetic wraps at 64 bits.\<close>

definition frame_end :: "nat \<Rightarrow> nat \<Rightarrow> nat" where
  "frame_end f len = (f + len * PGSIZE) mod 2 ^ 64"

text \<open>The first-fit walk: the previous frame and the frame that is large enough, or 0.\<close>

partial_function (option) find_fit ::
    "(nat \<Rightarrow> frame) \<Rightarrow> nat \<Rightarrow> nat \<Rightarrow> nat \<Rightarrow> (nat \<times> nat) option" where
  "find_fit m npages p c =
     (if c \<noteq> 0 \<and> \<not> page_len (m c) \<ge> npages then find_fit m npages c (frame_next (m c))
      else Some (p, c))"

definition late_phys_alloc :: "kmem \<Rightarrow> nat \<Rightarrow> (phys_panic + nat \<times> kmem) option" where
  "late_phys_alloc s npages =
     (if freelist s = 0 then Some (Inl OOM)
      else Option.bind (find_fit (fmem s) npages 0 (freelist s)) (\<lambda>(p, c).
        let m = fmem s;
            (fl, m1, a) =
              (if page_len (m c) = npages
               then (if p = 0 then (frame_next (m c), m, c)
                     else (freelist s, set_frame_next p (frame_next (m c)) m, c))
               else let m' = set_page_len c (sub64 (page_len (m c)) npages) m
                    in (freelist s, m', frame_end c (page_len (m' c))))
        in Some (Inr (a, s\<lparr>freelist := fl, fmem := zero_pages a npages m1,
                            nfree := sub64 (nfree s) npages\<rparr>))))"

text \<open>\<open>reclaim\<close> stands for \<^verbatim>\<open>block::reclaim_memory\<close>, which drops clean cached pages.\<close>

definition phys_alloc :: "(kmem \<Rightarrow> kmem) \<Rightarrow> kmem \<Rightarrow> nat \<Rightarrow> (phys_panic + nat \<times> kmem) option" where
  "phys_alloc reclaim s npages = late_phys_alloc (if nfree s < 32 then reclaim s else s) npages"

partial_function (option) find_slot :: "(nat \<Rightarrow> frame) \<Rightarrow> nat \<Rightarrow> nat \<Rightarrow> nat option" where
  "find_slot m r prev =
     (if frame_next (m prev) = 0 then Some prev
      else if frame_next (m prev) > r then Some prev
      else find_slot m r (frame_next (m prev)))"

partial_function (option) patch_up :: "(nat \<Rightarrow> frame) \<Rightarrow> nat \<Rightarrow> (nat \<Rightarrow> frame) option" where
  "patch_up m f =
     (if f = 0 \<or> frame_next (m f) = 0 then Some m
      else let succ = frame_next (m f);
               after = frame_end f (page_len (m f));
               m1 = (if frame_next (m f) = after
                     then set_frame_next f (frame_next (m succ))
                            (set_page_len f (add64 (page_len (m f)) (page_len (m succ))) m)
                     else m)
           in if frame_next (m1 f) = 0 then Some m1 else patch_up m1 (frame_next (m1 f)))"

definition count_free :: "kmem \<Rightarrow> nat \<Rightarrow> kmem" where
  "count_free s len =
     (let n = add64 (nfree s) len
      in s\<lparr>nfree := n, max_free := (if n > max_free s then n else max_free s)\<rparr>)"

definition phys_free :: "kmem \<Rightarrow> nat \<Rightarrow> nat \<Rightarrow> (phys_panic + kmem) option" where
  "phys_free s v len =
     (if v mod PGSIZE \<noteq> 0 then Some (Inl (Unaligned v))
      else
        let m = (fmem s)(v := \<lparr>frame_next = 0, page_len = len\<rparr>);
            prev = freelist s
        in Option.bind
             (if prev = 0 then Some (v, set_frame_next v (freelist s) m)
              else Option.bind (find_slot m v prev) (\<lambda>prev.
                Some (freelist s,
                  set_frame_next prev v (set_frame_next v (frame_next (m prev)) m))))
             (\<lambda>(fl, m1). Option.bind (patch_up m1 fl) (\<lambda>m2.
                Some (Inr (count_free (s\<lparr>freelist := fl, fmem := m2\<rparr>) len)))))"

definition PGROUNDUP :: "nat \<Rightarrow> nat" where
  "PGROUNDUP x = (add64 x 4095 div 4096) * 4096"

definition phys_free_range :: "kmem \<Rightarrow> nat \<Rightarrow> nat \<Rightarrow> phys_panic + kmem" where
  "phys_free_range s vstart vend =
     (let fr = PGROUNDUP vstart;
          start_pn = PGROUNDUP vstart div 4096;
          end_pn = PGROUNDUP vend div 4096;
          pl = sub64 end_pn start_pn
      in if pl = 0 then Inl Zero_free_range
         else let m = set_page_len fr pl (fmem s);
                  (fl, m1) =
                    (if freelist s = 0 then (fr, set_frame_next fr (freelist s) m)
                     else (freelist s, set_frame_next (freelist s) fr
                                         (set_frame_next fr (frame_next (m (freelist s))) m)))
              in Inr (count_free (s\<lparr>freelist := fl, fmem := m1\<rparr>) pl))"

definition phys_nfree :: "kmem \<Rightarrow> nat" where "phys_nfree s = nfree s"
definition phys_bytes_free :: "kmem \<Rightarrow> nat" where "phys_bytes_free s = (nfree s * 4096) mod 2 ^ 64"

text \<open>A client of the allocator: the allocator and the runs of pages handed out so far.\<close>

inductive phys_step :: "kmem \<times> (nat \<times> nat) list \<Rightarrow> kmem \<times> (nat \<times> nat) list \<Rightarrow> bool" where
  step_alloc: "0 < n \<Longrightarrow> find_fit (fmem s) n 0 (freelist s) = Some (p, c) \<Longrightarrow> c \<noteq> 0 \<Longrightarrow>
    late_phys_alloc s n = Some (Inr (a, s')) \<Longrightarrow> phys_step (s, held) (s', (a, n) # held)"
| step_free: "held = hs @ (a, n) # hs' \<Longrightarrow> phys_free s a n = Some (Inr s') \<Longrightarrow>
    phys_step (s, held) (s', hs @ hs')"

section \<open>The free list as a sequence of extents\<close>

type_synonym extent = "nat \<times> nat"

primrec chain :: "(nat \<Rightarrow> frame) \<Rightarrow> nat \<Rightarrow> extent list \<Rightarrow> bool" where
  "chain m a [] \<longleftrightarrow> a = 0"
| "chain m a (e # es) \<longleftrightarrow> a = fst e \<and> a \<noteq> 0 \<and> page_len (m a) = snd e \<and> chain m (frame_next (m a)) es"

definition ext_pages :: "extent \<Rightarrow> nat set" where
  "ext_pages e = {fst e div PGSIZE ..< fst e div PGSIZE + snd e}"

definition pages :: "extent list \<Rightarrow> nat set" where
  "pages es = (\<Union>e \<in> set es. ext_pages e)"

definition extent_ok :: "extent \<Rightarrow> bool" where
  "extent_ok e \<longleftrightarrow> PGSIZE dvd fst e \<and> fst e \<noteq> 0 \<and> 0 < snd e \<and> fst e div PGSIZE + snd e \<le> 2 ^ 31"

text \<open>Well-formed extents: aligned, non-empty, below the lowest bit of the x86 virtual base (so that \<^verbatim>\<open>p2v\<close> and
  \<^verbatim>\<open>v2p\<close> are inverse to each other), disjoint.\<close>

primrec extents_ok :: "extent list \<Rightarrow> bool" where
  "extents_ok [] \<longleftrightarrow> True"
| "extents_ok (e # es) \<longleftrightarrow> extent_ok e \<and> ext_pages e \<inter> pages es = {} \<and> extents_ok es"

text \<open>What the walks of the code compute, on sequences.\<close>

fun alloc_list :: "nat \<Rightarrow> extent list \<Rightarrow> (nat \<times> extent list) option" where
  "alloc_list n [] = None"
| "alloc_list n ((a, l) # es) =
     (if n \<le> l then Some (if l = n then (a, es) else (a + (l - n) * PGSIZE, (a, l - n) # es))
      else map_option (\<lambda>(r, es'). (r, (a, l) # es')) (alloc_list n es))"

fun insert_rest :: "extent \<Rightarrow> extent list \<Rightarrow> extent list" where
  "insert_rest e [] = [e]"
| "insert_rest e (x # es) = (if fst x > fst e then e # x # es else x # insert_rest e es)"

fun insert_list :: "extent \<Rightarrow> extent list \<Rightarrow> extent list" where
  "insert_list e [] = [e]"
| "insert_list e (x # es) = x # insert_rest e es"

fun coalesce :: "extent list \<Rightarrow> extent list" where
  "coalesce (x # y # es) =
     (if fst y = fst x + snd x * PGSIZE then (fst x, snd x + snd y) # coalesce es
      else x # coalesce (y # es))"
| "coalesce es = es"

definition total :: "extent list \<Rightarrow> nat" where
  "total es = sum_list (map snd es)"

lemma PGSIZE_pos [simp]: "0 < PGSIZE" "PGSIZE \<noteq> 0"
  by (simp_all add: PGSIZE_def)

lemma pages_simps [simp]: "pages [] = {}" "pages (e # es) = ext_pages e \<union> pages es"
  "pages (es @ fs) = pages es \<union> pages fs"
  by (auto simp: pages_def)

lemma total_simps [simp]: "total [] = 0" "total (e # es) = snd e + total es" "total (es @ fs) = total es + total fs"
  by (simp_all add: total_def)

lemma head_page: "extent_ok e \<Longrightarrow> fst e div PGSIZE \<in> ext_pages e"
  by (simp add: extent_ok_def ext_pages_def)

lemma extents_ok_mem: "extents_ok es \<Longrightarrow> e \<in> set es \<Longrightarrow> extent_ok e"
  by (induction es) auto

lemma frame_end_exact: "extent_ok (f, len) \<Longrightarrow> n \<le> len \<Longrightarrow> frame_end f n = f + n * PGSIZE"
  unfolding frame_end_def extent_ok_def PGSIZE_def by (intro mod_less) auto

lemma extents_ok_append:
  "extents_ok (xs @ ys) \<longleftrightarrow> extents_ok xs \<and> extents_ok ys \<and> pages xs \<inter> pages ys = {}"
  by (induction xs) auto

text \<open>An address whose page is not free is not the address of a frame of the list.\<close>

lemma not_in_list:
  assumes "extents_ok es" and "a div PGSIZE \<notin> pages es"
  shows "a \<notin> fst ` set es"
  using assms by (auto simp: pages_def dest!: extents_ok_mem head_page)

lemma extents_ok_distinct: "extents_ok es \<Longrightarrow> distinct (map fst es)"
proof (induction es)
  case (Cons e es)
  then have "fst e div PGSIZE \<notin> pages es" using head_page[of e] by auto
  with Cons show ?case using not_in_list[of es "fst e"] by auto
qed simp

lemma chain_cong:
  assumes "\<forall>e \<in> set es. m' (fst e) = m (fst e)"
  shows "chain m' a es \<longleftrightarrow> chain m a es"
  using assms by (induction es arbitrary: a) auto

lemma chain_upd [frame_rules]: "p \<notin> fst ` set es \<Longrightarrow> chain (m(p := f)) a es \<longleftrightarrow> chain m a es"
  by (rule chain_cong) auto

lemma set_frame_next_sel [heap_simps, simp]:
  "frame_next (set_frame_next p v m q) = (if q = p then v else frame_next (m q))"
  "page_len (set_frame_next p v m q) = page_len (m q)"
  by (simp_all add: set_frame_next_def)

lemma set_page_len_sel [heap_simps, simp]:
  "page_len (set_page_len p v m q) = (if q = p then v else page_len (m q))"
  "frame_next (set_page_len p v m q) = frame_next (m q)"
  by (simp_all add: set_page_len_def)

lemma chain_set_frame_next [frame_rules, simp]:
  "p \<notin> fst ` set es \<Longrightarrow> chain (set_frame_next p v m) a es \<longleftrightarrow> chain m a es"
  unfolding set_frame_next_def by (rule chain_upd)

lemma chain_set_page_len [frame_rules, simp]:
  "p \<notin> fst ` set es \<Longrightarrow> chain (set_page_len p v m) a es \<longleftrightarrow> chain m a es"
  unfolding set_page_len_def by (rule chain_upd)

lemma chain_zero_pages:
  assumes "extents_ok es" and "PGSIZE dvd a" and "ext_pages (a, n) \<inter> pages es = {}"
  shows "chain (zero_pages a n m) x es \<longleftrightarrow> chain m x es"
proof (rule chain_cong, rule ballI)
  fix e assume e: "e \<in> set es"
  have "fst e div PGSIZE \<notin> ext_pages (a, n)"
    using assms(3) head_page[OF extents_ok_mem[OF assms(1) e]] e by (auto simp: pages_def)
  moreover obtain k where "a = PGSIZE * k" using assms(2) by (elim dvdE)
  ultimately have "\<not> (a \<le> fst e \<and> fst e < a + n * PGSIZE)"
    by (auto simp: ext_pages_def PGSIZE_def)
  then show "zero_pages a n m (fst e) = m (fst e)" by (auto simp: zero_pages_def)
qed

lemma card_pages: "extents_ok es \<Longrightarrow> card (pages es) = total es"
proof (induction es)
  case (Cons e es)
  have "finite (pages es)" by (auto simp: pages_def ext_pages_def)
  with Cons show ?case by (simp add: card_Un_disjoint ext_pages_def)
qed simp

lemma total_bound: assumes "extents_ok es" shows "total es \<le> 2 ^ 31"
proof -
  have "pages es \<subseteq> {..< 2 ^ 31}"
    using extents_ok_mem[OF assms] by (fastforce simp: pages_def ext_pages_def extent_ok_def)
  then have "card (pages es) \<le> 2 ^ 31" using card_mono[of "{..< 2 ^ 31}"] by fastforce
  then show ?thesis using card_pages[OF assms] by simp
qed

section \<open>Allocation\<close>

lemma find_fit_stop: "c = 0 \<or> n \<le> page_len (m c) \<Longrightarrow> find_fit m n p c = Some (p, c)"
  by (subst find_fit.simps) auto

lemma find_fit_skip:
  assumes "chain m c (pre @ es)" and "\<forall>e \<in> set pre. snd e < n"
  shows "\<exists>c'. chain m c' es \<and> find_fit m n p c = find_fit m n (last (p # map fst pre)) c'"
  using assms
proof (induction pre arbitrary: p c)
  case Nil
  then show ?case by auto
next
  case (Cons e pre)
  then have "find_fit m n p c = find_fit m n c (frame_next (m c))"
    by (subst find_fit.simps) auto
  moreover have "\<exists>c'. chain m c' es \<and> find_fit m n c (frame_next (m c)) =
      find_fit m n (last (c # map fst pre)) c'"
    using Cons by (intro Cons.IH) auto
  ultimately show ?case using Cons.prems(1) by auto
qed

lemma find_fit_found:
  assumes "chain m c (pre @ (x, l) # post)" and "\<forall>e \<in> set pre. snd e < n" and "n \<le> l"
  shows "find_fit m n p c = Some (last (p # map fst pre), x)"
proof -
  obtain c' where "chain m c' ((x, l) # post)" "find_fit m n p c = find_fit m n (last (p # map fst pre)) c'"
    using find_fit_skip[OF assms(1,2)] by blast
  then show ?thesis using assms(3) by (auto simp: find_fit_stop)
qed

lemma find_fit_none:
  assumes "chain m c es" and "\<forall>e \<in> set es. snd e < n"
  shows "find_fit m n p c = Some (last (p # map fst es), 0)"
proof -
  obtain c' where "chain m c' []" "find_fit m n p c = find_fit m n (last (p # map fst es)) c'"
    using find_fit_skip[of m c es "[]" n p] assms by auto
  then show ?thesis by (simp add: find_fit_stop)
qed

lemma chain_reaches: "chain m a (pre @ e # post) \<Longrightarrow> fst e \<noteq> 0 \<and> page_len (m (fst e)) = snd e \<and>
    chain m (frame_next (m (fst e))) post"
  by (induction pre arbitrary: a) auto

lemma chain_remove_first: "chain m a (e # post) \<Longrightarrow> chain m (frame_next (m (fst e))) post"
  by auto

lemma chain_remove:
  assumes "chain m a (pre @ q # e # post)" and "distinct (map fst (pre @ q # e # post))"
  shows "chain (set_frame_next (fst q) (frame_next (m (fst e))) m) a (pre @ q # post)"
  using assms
proof (induction pre arbitrary: a)
  case Nil
  then show ?case by auto
next
  case (Cons x pre)
  then show ?case by auto
qed

lemma chain_set_len:
  assumes "chain m a (pre @ (x, l) # post)" and "distinct (map fst (pre @ (x, l) # post))"
  shows "chain (set_page_len x v m) a (pre @ (x, v) # post)"
  using assms
proof (induction pre arbitrary: a)
  case Nil
  then show ?case by auto
next
  case (Cons e pre)
  then show ?case by auto
qed

lemma alloc_list_split:
  assumes "alloc_list n es = Some (r, es')"
  obtains pre x l post where "es = pre @ (x, l) # post" and "\<forall>e \<in> set pre. snd e < n" and "n \<le> l"
    and "r = (if l = n then x else x + (l - n) * PGSIZE)"
    and "es' = pre @ (if l = n then post else (x, l - n) # post)"
  using assms
proof (induction es arbitrary: es' thesis)
  case Nil
  then show ?case by simp
next
  case (Cons e es)
  obtain a l where e: "e = (a, l)" by (cases e)
  show ?case
  proof (cases "n \<le> l")
    case True
    then show ?thesis using Cons.prems(1)[of "[]" a l es] Cons.prems(2) e by (auto split: if_splits)
  next
    case False
    then obtain es2 where es2: "alloc_list n es = Some (r, es2)" "es' = e # es2"
      using Cons.prems(2) e by auto
    show ?thesis
      by (rule Cons.IH[OF _ es2(1)])
        (use Cons.prems(1)[of "e # _"] es2(2) e False in \<open>auto split: if_splits\<close>)
  qed
qed

lemma ext_pages_split:
  assumes "n \<le> l"
  shows "ext_pages (x, l) = ext_pages (x, l - n) \<union> ext_pages (x + (l - n) * PGSIZE, n)"
    and "ext_pages (x, l - n) \<inter> ext_pages (x + (l - n) * PGSIZE, n) = {}"
  using assms by (auto simp: ext_pages_def)

lemma alloc_list_ok:
  assumes ok: "extents_ok es" and a: "alloc_list n es = Some (r, es')" and n: "0 < n"
  shows "extents_ok es' \<and> PGSIZE dvd r \<and> r \<noteq> 0 \<and> ext_pages (r, n) \<subseteq> pages es \<and>
    pages es' = pages es - ext_pages (r, n) \<and> total es = total es' + n"
proof -
  obtain pre x l post where es: "es = pre @ (x, l) # post" "n \<le> l"
    "r = (if l = n then x else x + (l - n) * PGSIZE)"
    "es' = pre @ (if l = n then post else (x, l - n) # post)"
    using alloc_list_split[OF a] by metis
  have x: "extent_ok (x, l)" "ext_pages (x, l) \<inter> pages post = {}"
    "ext_pages (x, l) \<inter> pages pre = {}" "extents_ok pre" "extents_ok post" "pages pre \<inter> pages post = {}"
    using ok es(1) by (auto simp: extents_ok_append)
  show ?thesis
  proof (cases "l = n")
    case True
    then show ?thesis using es x by (auto simp: extents_ok_append extent_ok_def)
  next
    case False
    then have "extent_ok (x, l - n)" using es(2) x(1) by (auto simp: extent_ok_def)
    moreover note ext_pages_split[OF es(2), of x]
    ultimately show ?thesis using False es x by (auto simp: extents_ok_append extent_ok_def)
  qed
qed

lemma late_phys_alloc_refines:
  assumes ch: "chain (fmem s) (freelist s) es" and ok: "extents_ok es" and n: "0 < n"
    and a: "alloc_list n es = Some (r, es')" and free: "nfree s = total es"
  shows "\<exists>s'. late_phys_alloc s n = Some (Inr (r, s')) \<and> chain (fmem s') (freelist s') es' \<and>
    nfree s' = total es' \<and> max_free s' = max_free s"
proof -
  obtain pre x l post where es: "es = pre @ (x, l) # post" "\<forall>e \<in> set pre. snd e < n" "n \<le> l"
    "r = (if l = n then x else x + (l - n) * PGSIZE)"
    "es' = pre @ (if l = n then post else (x, l - n) # post)"
    using alloc_list_split[OF a] by metis
  note fit = find_fit_found[OF ch[unfolded es(1)] es(2,3), of 0]
  have x: "x \<noteq> 0" "page_len (fmem s x) = l" "chain (fmem s) (frame_next (fmem s x)) post"
    using chain_reaches[OF ch[unfolded es(1)]] by auto
  have l: "l < 2 ^ 64" using ok es(1) by (auto simp: extents_ok_append extent_ok_def)
  have fl: "freelist s \<noteq> 0" using ch es(1) by (cases pre) auto
  have dist: "distinct (map fst es)" using ok by (rule extents_ok_distinct)
  note al = alloc_list_ok[OF ok a n]
  have zero: "chain (zero_pages r n m) y es' \<longleftrightarrow> chain m y es'" for m y
    using al by (intro chain_zero_pages) auto
  have nf: "sub64 (nfree s) n = total es'"
    using al free total_bound[OF ok] by (subst sub64_exact) auto
  show ?thesis
  proof (cases "l = n")
    case False
    then have c: "chain (set_page_len x (l - n) (fmem s)) (freelist s) es'"
      using chain_set_len[OF ch[unfolded es(1)]] dist es by simp
    from False es(3) l x have "sub64 (page_len (fmem s x)) n = l - n" by (simp add: sub64_exact)
    moreover have "frame_end x (l - n) = x + (l - n) * PGSIZE"
      using ok es(1) by (intro frame_end_exact[of _ l]) (auto simp: extents_ok_append)
    ultimately show ?thesis using fit fl x c nf zero False es(4)
      by (simp add: late_phys_alloc_def Let_def)
  next
    case True
    show ?thesis
    proof (cases pre rule: rev_cases)
      case Nil
      then show ?thesis using fit fl x nf zero True es by (simp add: late_phys_alloc_def Let_def)
    next
      case (snoc pre' q)
      then have c: "chain (set_frame_next (fst q) (frame_next (fmem s x)) (fmem s)) (freelist s) es'"
        using chain_remove[of "fmem s" "freelist s" pre' q "(x, l)" post] ch dist es True by simp
      have "fst q \<noteq> 0" using chain_reaches[of "fmem s" "freelist s" pre' q] ch es(1) snoc by simp
      then show ?thesis using fit fl x c nf zero True es(4) snoc
        by (simp add: late_phys_alloc_def Let_def)
    qed
  qed
qed

section \<open>Freeing\<close>

lemma find_slot_end:
  "frame_next (m prev) = 0 \<or> frame_next (m prev) > r \<Longrightarrow> find_slot m r prev = Some prev"
  by (subst find_slot.simps) auto

lemma find_slot_next:
  "frame_next (m prev) \<noteq> 0 \<Longrightarrow> \<not> frame_next (m prev) > r \<Longrightarrow>
   find_slot m r prev = find_slot m r (frame_next (m prev))"
  by (subst find_slot.simps) auto

lemma find_slot_refines:
  assumes "chain m a (x # es)" and "distinct (map fst (x # es))" and "v \<notin> fst ` set (x # es)"
    and "v \<noteq> 0" and "page_len (m v) = len"
  shows "\<exists>q. find_slot m v a = Some q \<and> q \<in> fst ` set (x # es) \<and>
    chain (set_frame_next q v (set_frame_next v (frame_next (m q)) m)) a (x # insert_rest (v, len) es)"
  using assms
proof (induction es arbitrary: a x)
  case Nil
  then show ?case by (auto simp: find_slot_end)
next
  case (Cons y es)
  have y: "frame_next (m a) = fst y" "fst y \<noteq> 0" "chain m (fst y) (y # es)" using Cons.prems(1) by auto
  show ?case
  proof (cases "fst y > v")
    case True
    then show ?thesis using Cons.prems y by (intro exI[of _ a]) (auto simp: find_slot_end)
  next
    case False
    obtain q where q: "find_slot m v (fst y) = Some q" "q \<in> fst ` set (y # es)"
      "chain (set_frame_next q v (set_frame_next v (frame_next (m q)) m)) (fst y)
         (y # insert_rest (v, len) es)"
      using Cons.IH[OF y(3)] Cons.prems by auto
    moreover have "find_slot m v a = find_slot m v (fst y)"
      using find_slot_next[of m a v] y False by simp
    moreover have "a \<noteq> q" "a \<noteq> v" using q(2) Cons.prems(1,2,3) by auto
    ultimately show ?thesis using False Cons.prems(1) y by (intro exI[of _ q]) auto
  qed
qed

lemma patch_up_end: "f = 0 \<or> frame_next (m f) = 0 \<Longrightarrow> patch_up m f = Some m"
  by (subst patch_up.simps) auto

lemma patch_up_merge:
  assumes "f \<noteq> 0" and "frame_next (m f) \<noteq> 0" and "frame_next (m f) = frame_end f (page_len (m f))"
    and "m1 = set_frame_next f (frame_next (m (frame_next (m f))))
      (set_page_len f (add64 (page_len (m f)) (page_len (m (frame_next (m f))))) m)"
  shows "patch_up m f = patch_up m1 (frame_next (m1 f))"
  using assms by (cases "frame_next (m1 f) = 0"; subst patch_up.simps) (auto simp: Let_def patch_up_end)

lemma patch_up_skip:
  assumes "f \<noteq> 0" and "frame_next (m f) \<noteq> 0" and "frame_next (m f) \<noteq> frame_end f (page_len (m f))"
  shows "patch_up m f = patch_up m (frame_next (m f))"
  using assms by (subst patch_up.simps) (auto simp: Let_def)

lemma patch_up_refines:
  assumes "chain m f es" and "distinct (map fst es)" and "total es < 2 ^ 64"
    and "\<forall>e \<in> set es. frame_end (fst e) (snd e) = fst e + snd e * PGSIZE"
  shows "\<exists>m'. patch_up m f = Some m' \<and> chain m' f (coalesce es) \<and>
    (\<forall>y. y \<notin> fst ` set es \<longrightarrow> m' y = m y)"
  using assms
proof (induction es arbitrary: m f rule: coalesce.induct)
  case (1 x y es)
  have f: "f = fst x" "f \<noteq> 0" "frame_next (m f) = fst y" "fst y \<noteq> 0" "page_len (m f) = snd x"
    "page_len (m (fst y)) = snd y" "chain m (fst y) (y # es)" using 1(3) by auto
  show ?case
  proof (cases "fst y = fst x + snd x * PGSIZE")
    case True
    let ?m1 = "set_frame_next f (frame_next (m (fst y))) (set_page_len f (snd x + snd y) m)"
    have ch: "chain ?m1 (frame_next (m (fst y))) es" using f 1(4) by auto
    have "add64 (snd x) (snd y) = snd x + snd y" using 1(5) by (intro add64_exact) simp
    then have step: "patch_up m f = patch_up ?m1 (frame_next (m (fst y)))"
      using patch_up_merge[of f m ?m1] f True 1(6) by simp
    obtain m' where m': "patch_up ?m1 (frame_next (m (fst y))) = Some m'"
      "chain m' (frame_next (m (fst y))) (coalesce es)" "\<forall>z. z \<notin> fst ` set es \<longrightarrow> m' z = ?m1 z"
      using 1(1)[OF True ch] 1(4,5,6) by auto
    then show ?thesis using True step f 1(4)
      by (intro exI[of _ m']) (auto simp: set_frame_next_def set_page_len_def)
  next
    case False
    obtain m' where m': "patch_up m (fst y) = Some m'" "chain m' (fst y) (coalesce (y # es))"
      "\<forall>z. z \<notin> fst ` set (y # es) \<longrightarrow> m' z = m z"
      using 1(2)[OF False f(7)] 1(4,5,6) by auto
    moreover have "patch_up m f = patch_up m (fst y)" using patch_up_skip[of f m] f False 1(6) by simp
    ultimately show ?thesis using False f 1(4) by (intro exI[of _ m']) auto
  qed
qed (auto simp: patch_up_end)

lemma ext_pages_join: "y = x + l * PGSIZE \<Longrightarrow> ext_pages (x, l + k) = ext_pages (x, l) \<union> ext_pages (y, k)"
  by (auto simp: ext_pages_def)

lemma coalesce_ok:
  "extents_ok es \<Longrightarrow> extents_ok (coalesce es) \<and> pages (coalesce es) = pages es \<and> total (coalesce es) = total es"
proof (induction es rule: coalesce.induct)
  case (1 x y es)
  show ?case
  proof (cases "fst y = fst x + snd x * PGSIZE")
    case True
    have "extent_ok (fst x, snd x + snd y)" using 1(3) True by (auto simp: extent_ok_def)
    moreover have "ext_pages (fst x, snd x + snd y) = ext_pages x \<union> ext_pages y"
      using ext_pages_join[OF True, of "snd y"] by simp
    ultimately show ?thesis using 1(1)[OF True] 1(3) True by auto
  next
    case False
    then show ?thesis using 1(2)[OF False] 1(3) by auto
  qed
qed auto

lemma insert_rest_props:
  "pages (insert_rest e es) = ext_pages e \<union> pages es" "total (insert_rest e es) = snd e + total es"
  "set (insert_rest e es) = insert e (set es)"
  by (induction es) auto

lemma insert_rest_ok:
  "extents_ok es \<Longrightarrow> extent_ok e \<Longrightarrow> ext_pages e \<inter> pages es = {} \<Longrightarrow> extents_ok (insert_rest e es)"
  by (induction es) (auto simp: insert_rest_props)

lemma insert_list_ok:
  assumes "extents_ok es" and "extent_ok e" and "ext_pages e \<inter> pages es = {}"
  shows "extents_ok (insert_list e es)" "pages (insert_list e es) = ext_pages e \<union> pages es"
    "total (insert_list e es) = snd e + total es"
proof -
  show "extents_ok (insert_list e es)"
  proof (cases es)
    case (Cons x es')
    then have "extents_ok (insert_rest e es')" using assms by (intro insert_rest_ok) auto
    then show ?thesis using assms Cons by (auto simp: insert_rest_props)
  qed (use assms(2) in simp)
  show "pages (insert_list e es) = ext_pages e \<union> pages es" "total (insert_list e es) = snd e + total es"
    by (cases es; auto simp: insert_rest_props)+
qed

lemma phys_free_refines:
  assumes ch: "chain (fmem s) (freelist s) es" and ok: "extents_ok es" and e: "extent_ok (v, len)"
    and disj: "ext_pages (v, len) \<inter> pages es = {}" and free: "nfree s = total es"
  shows "\<exists>s'. phys_free s v len = Some (Inr s') \<and>
    chain (fmem s') (freelist s') (coalesce (insert_list (v, len) es)) \<and>
    nfree s' = nfree s + len \<and> max_free s' = max (max_free s) (nfree s + len)"
proof -
  let ?m = "(fmem s)(v := \<lparr>frame_next = 0, page_len = len\<rparr>)"
  let ?es = "insert_list (v, len) es"
  have v: "v mod PGSIZE = 0" "v \<noteq> 0" using e by (auto simp: extent_ok_def)
  have nv: "v \<notin> fst ` set es" using not_in_list[OF ok] head_page[OF e] disj by auto
  have ch': "chain ?m (freelist s) es" using ch nv by (simp add: frame_rules)
  note ins = insert_list_ok[OF ok e disj]
  have "\<exists>fl m1. chain m1 fl ?es \<and>
      (if freelist s = 0 then Some (v, set_frame_next v (freelist s) ?m)
       else Option.bind (find_slot ?m v (freelist s)) (\<lambda>prev.
         Some (freelist s, set_frame_next prev v (set_frame_next v (frame_next (?m prev)) ?m)))) =
      Some (fl, m1)"
  proof (cases es)
    case Nil
    then show ?thesis using ch v by auto
  next
    case (Cons x es')
    have p: "chain ?m (freelist s) (x # es')" "distinct (map fst (x # es'))" "v \<notin> fst ` set (x # es')"
      using ch' nv extents_ok_distinct[OF ok] unfolding Cons by blast+
    have "page_len (?m v) = len" by simp
    note p = p this
    from find_slot_refines[OF p(1-3) v(2) p(4)] obtain q where "find_slot ?m v (freelist s) = Some q"
      "chain (set_frame_next q v (set_frame_next v (frame_next (?m q)) ?m)) (freelist s)
        (x # insert_rest (v, len) es')" by blast
    moreover have "freelist s \<noteq> 0" using ch Cons by auto
    ultimately show ?thesis using Cons by (simp only: insert_list.simps if_False bind.bind_lunit) blast
  qed
  then obtain fl m1 where m1: "chain m1 fl ?es"
    and slot: "(if freelist s = 0 then Some (v, set_frame_next v (freelist s) ?m)
       else Option.bind (find_slot ?m v (freelist s)) (\<lambda>prev.
         Some (freelist s, set_frame_next prev v (set_frame_next v (frame_next (?m prev)) ?m)))) =
      Some (fl, m1)" by blast
  have bound: "total ?es < 2 ^ 64" using total_bound[OF ins(1)] by simp
  have ends: "\<forall>e \<in> set ?es. frame_end (fst e) (snd e) = fst e + snd e * PGSIZE"
    using extents_ok_mem[OF ins(1)] frame_end_exact by fastforce
  obtain m2 where m2: "patch_up m1 fl = Some m2" "chain m2 fl (coalesce ?es)"
    using patch_up_refines[OF m1 extents_ok_distinct[OF ins(1)] bound ends] by auto
  have "add64 (nfree s) len = nfree s + len" using bound ins(3) free by (intro add64_exact) simp
  then show ?thesis using v slot m2
    by (simp add: phys_free_def Let_def count_free_def max_def)
qed

section \<open>The allocator as an abstract data type\<close>

definition phys_inv :: "kmem \<Rightarrow> extent list \<Rightarrow> bool" where
  "phys_inv s es \<longleftrightarrow> chain (fmem s) (freelist s) es \<and> extents_ok es \<and> nfree s = total es \<and> nfree s \<le> max_free s"

lemma chain_unique: "chain m a es \<Longrightarrow> chain m a es' \<Longrightarrow> es = es'"
proof (induction es arbitrary: a es')
  case Nil
  then show ?case by (cases es') auto
next
  case (Cons e es)
  then show ?case by (cases es') (auto intro: prod_eqI)
qed

lemma phys_inv_unique: "phys_inv s es \<Longrightarrow> phys_inv s es' \<Longrightarrow> es = es'"
  by (auto simp: phys_inv_def dest: chain_unique)

definition free_pages :: "kmem \<Rightarrow> nat set" where
  "free_pages s = {pg. \<exists>es. phys_inv s es \<and> pg \<in> pages es}"

lemma free_pages_eq: "phys_inv s es \<Longrightarrow> free_pages s = pages es"
  by (auto simp: free_pages_def dest: phys_inv_unique)

lemma alloc_list_fits: "e \<in> set es \<Longrightarrow> n \<le> snd e \<Longrightarrow> \<exists>r es'. alloc_list n es = Some (r, es')"
  by (induction es) auto

lemma late_phys_alloc_zeroes:
  assumes "late_phys_alloc s n = Some (Inr (a, s'))" and "a \<le> x" and "x < a + n * PGSIZE"
  shows "fmem s' x = \<lparr>frame_next = 0, page_len = 0\<rparr>"
  using assms
  by (auto simp: late_phys_alloc_def Let_def zero_pages_def split: if_splits Option.bind_splits)

lemma phys_inv_alloc:
  assumes inv: "phys_inv s es" and n: "0 < n" and fits: "\<exists>e \<in> set es. n \<le> snd e"
  shows "\<exists>a s' es'. late_phys_alloc s n = Some (Inr (a, s')) \<and> phys_inv s' es' \<and> extent_ok (a, n) \<and>
    ext_pages (a, n) \<subseteq> pages es \<and> pages es' = pages es - ext_pages (a, n) \<and> nfree s = nfree s' + n"
proof -
  obtain r es' where a: "alloc_list n es = Some (r, es')" using fits alloc_list_fits by blast
  have ok: "extents_ok es" and "nfree s = total es" and ch: "chain (fmem s) (freelist s) es"
    using inv by (auto simp: phys_inv_def)
  then obtain s' where s': "late_phys_alloc s n = Some (Inr (r, s'))" "chain (fmem s') (freelist s') es'"
    "nfree s' = total es'" "max_free s' = max_free s"
    using late_phys_alloc_refines[OF ch ok n a] by auto
  note al = alloc_list_ok[OF ok a n]
  have "r div PGSIZE + n \<le> 2 ^ 31"
  proof -
    have "r div PGSIZE + n - 1 \<in> pages es" using al n by (auto simp: ext_pages_def)
    then show ?thesis using extents_ok_mem[OF ok]
      by (fastforce simp: pages_def ext_pages_def extent_ok_def)
  qed
  then have "extent_ok (r, n)" using al n by (simp add: extent_ok_def)
  with s' al inv show ?thesis
    by (intro exI[of _ r] exI[of _ s'] exI[of _ es']) (auto simp: phys_inv_def)
qed

lemma phys_inv_free:
  assumes inv: "phys_inv s es" and e: "extent_ok (v, len)" and disj: "ext_pages (v, len) \<inter> pages es = {}"
  shows "\<exists>s' es'. phys_free s v len = Some (Inr s') \<and> phys_inv s' es' \<and>
    es' = coalesce (insert_list (v, len) es) \<and> pages es' = ext_pages (v, len) \<union> pages es \<and>
    nfree s' = nfree s + len \<and> max_free s \<le> max_free s'"
proof -
  have ok: "extents_ok es" and nf: "nfree s = total es" and ch: "chain (fmem s) (freelist s) es"
    using inv by (auto simp: phys_inv_def)
  obtain s' where s': "phys_free s v len = Some (Inr s')"
    "chain (fmem s') (freelist s') (coalesce (insert_list (v, len) es))"
    "nfree s' = nfree s + len" "max_free s' = max (max_free s) (nfree s + len)"
    using phys_free_refines[OF ch ok e disj nf] by auto
  note ins = insert_list_ok[OF ok e disj]
  show ?thesis using s' ins coalesce_ok[OF ins(1)] nf
    by (intro exI[of _ s'] exI[of _ "coalesce (insert_list (v, len) es)"]) (auto simp: phys_inv_def)
qed

text \<open>
  The contract of a page allocator and what its clients may conclude: the runs they hold
  are disjoint from each other and from the free pages, and no page is ever lost.
\<close>

locale page_allocator =
  fixes inv :: "'s \<Rightarrow> bool"
    and free :: "'s \<Rightarrow> nat set"
    and run_pages :: "'r \<Rightarrow> nat set"
    and run_ok :: "'r \<Rightarrow> bool"
    and can_alloc :: "'s \<Rightarrow> nat \<Rightarrow> bool"
    and alloc :: "'s \<Rightarrow> nat \<Rightarrow> ('r \<times> 's) option"
    and release :: "'s \<Rightarrow> 'r \<Rightarrow> 's option"
  assumes alloc_law: "inv s \<Longrightarrow> can_alloc s n \<Longrightarrow> alloc s n = Some (r, s') \<Longrightarrow>
      inv s' \<and> run_ok r \<and> run_pages r \<subseteq> free s \<and> free s' = free s - run_pages r"
    and release_law: "inv s \<Longrightarrow> run_ok r \<Longrightarrow> run_pages r \<inter> free s = {} \<Longrightarrow> release s r = Some s' \<Longrightarrow>
      inv s' \<and> free s' = free s \<union> run_pages r"
begin

primrec disjoint_runs :: "'r list \<Rightarrow> bool" where
  "disjoint_runs [] \<longleftrightarrow> True"
| "disjoint_runs (r # rs) \<longleftrightarrow> run_pages r \<inter> (\<Union>x \<in> set rs. run_pages x) = {} \<and> disjoint_runs rs"

definition consistent :: "nat set \<Rightarrow> 's \<Rightarrow> 'r list \<Rightarrow> bool" where
  "consistent U s held \<longleftrightarrow> inv s \<and> (\<forall>r \<in> set held. run_ok r) \<and> disjoint_runs held \<and>
     free s \<inter> (\<Union>r \<in> set held. run_pages r) = {} \<and> free s \<union> (\<Union>r \<in> set held. run_pages r) = U"

lemma disjoint_runs_append:
  "disjoint_runs (xs @ ys) \<longleftrightarrow> disjoint_runs xs \<and> disjoint_runs ys \<and>
     (\<Union>x \<in> set xs. run_pages x) \<inter> (\<Union>x \<in> set ys. run_pages x) = {}"
  by (induction xs) auto

lemma disjoint_runs_nth:
  "disjoint_runs rs \<Longrightarrow> i < j \<Longrightarrow> j < length rs \<Longrightarrow> run_pages (rs ! i) \<inter> run_pages (rs ! j) = {}"
proof (induction rs arbitrary: i j)
  case (Cons r rs)
  then show ?case by (cases i; cases j) (auto, (fastforce dest: nth_mem)+)
qed simp

lemma consistent_alloc:
  assumes "consistent U s held" and "can_alloc s n" and "alloc s n = Some (r, s')"
  shows "consistent U s' (r # held)"
  using assms alloc_law[of s n r s'] by (auto simp: consistent_def)

lemma consistent_release:
  assumes "consistent U s (hs @ r # hs')" and "release s r = Some s'"
  shows "consistent U s' (hs @ hs')"
proof -
  have "inv s" "run_ok r" "run_pages r \<inter> free s = {}" using assms(1) by (auto simp: consistent_def)
  from release_law[OF this assms(2)] have "inv s'" "free s' = free s \<union> run_pages r" by auto
  then show ?thesis using assms(1) by (auto simp: consistent_def disjoint_runs_append)
qed

end

definition can_alloc :: "kmem \<Rightarrow> nat \<Rightarrow> bool" where
  "can_alloc s n \<longleftrightarrow> 0 < n \<and> (\<exists>p c. find_fit (fmem s) n 0 (freelist s) = Some (p, c) \<and> c \<noteq> 0)"

definition alloc_run :: "kmem \<Rightarrow> nat \<Rightarrow> (extent \<times> kmem) option" where
  "alloc_run s n = (case late_phys_alloc s n of Some (Inr (a, s')) \<Rightarrow> Some ((a, n), s') | _ \<Rightarrow> None)"

definition free_run :: "kmem \<Rightarrow> extent \<Rightarrow> kmem option" where
  "free_run s r = (case phys_free s (fst r) (snd r) of Some (Inr s') \<Rightarrow> Some s' | _ \<Rightarrow> None)"

lemma can_alloc_fits: "phys_inv s es \<Longrightarrow> can_alloc s n \<Longrightarrow> \<exists>e \<in> set es. n \<le> snd e"
  using find_fit_none[of "fmem s" "freelist s" es n 0]
  by (auto simp: can_alloc_def phys_inv_def) (meson not_le)

interpretation phys: page_allocator "\<lambda>s. \<exists>es. phys_inv s es" free_pages ext_pages extent_ok
  can_alloc alloc_run free_run
proof
  fix s s' n r
  assume "\<exists>es. phys_inv s es" and c: "can_alloc s n" and a: "alloc_run s n = Some (r, s')"
  then obtain es where es: "phys_inv s es" by blast
  have "0 < n" using c by (simp add: can_alloc_def)
  from phys_inv_alloc[OF es this can_alloc_fits[OF es c]] a
  show "(\<exists>es. phys_inv s' es) \<and> extent_ok r \<and> ext_pages r \<subseteq> free_pages s \<and>
      free_pages s' = free_pages s - ext_pages r"
    by (auto simp: alloc_run_def free_pages_eq[OF es] free_pages_eq)
next
  fix s s' r
  assume "\<exists>es. phys_inv s es" and ok: "extent_ok r" and d: "ext_pages r \<inter> free_pages s = {}"
    and f: "free_run s r = Some s'"
  then obtain es where es: "phys_inv s es" by blast
  from phys_inv_free[OF es, of "fst r" "snd r"] ok d f
  show "(\<exists>es. phys_inv s' es) \<and> free_pages s' = free_pages s \<union> ext_pages r"
    by (auto simp: free_run_def free_pages_eq[OF es] free_pages_eq)
qed

section \<open>Properties\<close>

lemma phys_step_consistent:
  assumes "phys_step (s, held) (s', held')" and "phys.consistent U s held"
  shows "phys.consistent U s' held'"
  using assms(1)
proof cases
  case (step_alloc n p c a)
  then have "can_alloc s n" "alloc_run s n = Some ((a, n), s')"
    by (auto simp: can_alloc_def alloc_run_def)
  with step_alloc assms(2) show ?thesis using phys.consistent_alloc by blast
next
  case (step_free hs a n hs')
  then have "free_run s (a, n) = Some s'" by (simp add: free_run_def)
  with step_free assms(2) show ?thesis using phys.consistent_release by blast
qed

lemma phys_run_consistent:
  assumes "phys_step\<^sup>*\<^sup>* x y" and "phys.consistent U (fst x) (snd x)"
  shows "phys.consistent U (fst y) (snd y)"
  using assms
proof (induction rule: rtranclp_induct)
  case (step y z)
  then show ?case using phys_step_consistent[of "fst y" "snd y" "fst z" "snd z"] by simp
qed

lemma phys_free_range_inv:
  assumes inv: "phys_inv s es" and e: "extent_ok (fr, pl)" and disj: "ext_pages (fr, pl) \<inter> pages es = {}"
    and fr: "fr = PGROUNDUP vstart" and pl: "pl = sub64 (PGROUNDUP vend div 4096) (fr div 4096)"
  shows "\<exists>s' es'. phys_free_range s vstart vend = Inr s' \<and> phys_inv s' es' \<and>
    pages es' = ext_pages (fr, pl) \<union> pages es \<and> nfree s' = nfree s + pl"
proof -
  have ok: "extents_ok es" and ch: "chain (fmem s) (freelist s) es" and nf: "nfree s = total es"
    using inv by (auto simp: phys_inv_def)
  have p: "pl \<noteq> 0" "fr \<noteq> 0" using e by (auto simp: extent_ok_def)
  have nv: "fr \<notin> fst ` set es" using not_in_list[OF ok] head_page[OF e] disj by auto
  let ?es = "case es of [] \<Rightarrow> [(fr, pl)] | x # es' \<Rightarrow> x # (fr, pl) # es'"
  have es': "extents_ok ?es" "pages ?es = ext_pages (fr, pl) \<union> pages es" "total ?es = pl + total es"
    using ok e disj by (auto split: list.splits)
  have cnt: "add64 (nfree s) pl = nfree s + pl" using total_bound[OF es'(1)] es'(3) nf
    by (intro add64_exact) simp
  obtain fl m where r: "phys_free_range s vstart vend = Inr (count_free (s\<lparr>freelist := fl, fmem := m\<rparr>) pl)"
    "chain m fl ?es"
  proof (cases es)
    case Nil
    with p ch that[where fl = fr and m = "set_frame_next fr 0 (set_page_len fr pl (fmem s))"] show ?thesis
      by (simp add: phys_free_range_def fr[symmetric] pl[symmetric])
  next
    case (Cons x xs)
    have "fst x \<notin> fst ` set xs" using extents_ok_distinct[OF ok] Cons by simp
    with Cons p ch nv that[where fl = "fst x" and m = "set_frame_next (fst x) fr
        (set_frame_next fr (frame_next (fmem s (fst x))) (set_page_len fr pl (fmem s)))"] show ?thesis
      by (auto simp: phys_free_range_def fr[symmetric] pl[symmetric])
  qed
  let ?s = "count_free (s\<lparr>freelist := fl, fmem := m\<rparr>) pl"
  have n: "nfree ?s = nfree s + pl" "fmem ?s = m" "freelist ?s = fl" "nfree ?s \<le> max_free ?s"
    using cnt by (simp_all add: count_free_def Let_def)
  then have "phys_inv ?s ?es" unfolding phys_inv_def using n r(2) es' nf by simp
  with r(1) n es'(2) show ?thesis by blast
qed

text \<open>The allocator right after boot: one range of memory, from 1 MiB to 2 MiB.\<close>

definition boot_kmem :: kmem where
  "boot_kmem = \<lparr>freelist = 0, nfree = 0, max_free = 0, fmem = (\<lambda>_. \<lparr>frame_next = 0, page_len = 0\<rparr>)\<rparr>"

definition demo_kmem :: kmem where
  "demo_kmem = (case phys_free_range boot_kmem 0x100000 0x200000 of Inr s \<Rightarrow> s | Inl _ \<Rightarrow> boot_kmem)"

lemma demo_kmem_inv: "phys_inv demo_kmem [(0x100000, 256)]"
  by (simp add: demo_kmem_def boot_kmem_def phys_free_range_def PGROUNDUP_def add64_def sub64_def
      count_free_def phys_inv_def extent_ok_def PGSIZE_def)

text \<open>
  C2: \<^verbatim>\<open>late_phys_alloc\<close> is correct whenever some free run is large enough: it ends, returns a
  page-aligned address whose pages were all free, zeroes them, takes exactly them out of
  the free list, and keeps the list well formed and the page count exact.
\<close>

theorem phys_alloc_correct:
  assumes "phys_inv s es" and "0 < n" and "\<exists>e \<in> set es. n \<le> snd e"
  shows "\<exists>a s' es'. late_phys_alloc s n = Some (Inr (a, s')) \<and> phys_inv s' es' \<and> extent_ok (a, n) \<and>
    ext_pages (a, n) \<subseteq> pages es \<and> pages es' = pages es - ext_pages (a, n) \<and> nfree s = nfree s' + n \<and>
    (\<forall>x. a \<le> x \<and> x < a + n * PGSIZE \<longrightarrow> fmem s' x = \<lparr>frame_next = 0, page_len = 0\<rparr>)"
proof -
  obtain a s' es' where "late_phys_alloc s n = Some (Inr (a, s'))" "phys_inv s' es'" "extent_ok (a, n)"
    "ext_pages (a, n) \<subseteq> pages es" "pages es' = pages es - ext_pages (a, n)" "nfree s = nfree s' + n"
    using phys_inv_alloc[OF assms] by blast
  then show ?thesis using late_phys_alloc_zeroes by blast
qed

theorem phys_alloc_correct_witness:
  "\<exists>a s'. late_phys_alloc demo_kmem 4 = Some (Inr (a, s')) \<and> nfree s' = 252"
proof -
  have "\<exists>e \<in> set [(0x100000, 256 :: nat)]. 4 \<le> snd e" by simp
  from phys_alloc_correct[OF demo_kmem_inv _ this] demo_kmem_inv show ?thesis
    by (fastforce simp: phys_inv_def)
qed





text \<open>
  Memory exhaustion goes unnoticed unless the free list is empty. When no run is large
  enough the walk ends at address 0 and the allocator carves the request out of the "frame"
  it reads there, instead of panicking with OOM; the count of free pages drops by the
  size of the request, wrapping around when it is larger.
\<close>

theorem phys_alloc_exhausted:
  assumes "phys_inv s es" and "es \<noteq> []" and "\<forall>e \<in> set es. snd e < n"
  shows "\<exists>a s'. late_phys_alloc s n = Some (Inr (a, s')) \<and> nfree s' = sub64 (nfree s) n"
proof -
  have ch: "chain (fmem s) (freelist s) es" using assms(1) by (simp add: phys_inv_def)
  then have "freelist s \<noteq> 0" using assms(2) by (cases es) auto
  then show ?thesis using find_fit_none[OF ch assms(3), of 0]
    by (auto simp: late_phys_alloc_def Let_def)
qed

theorem phys_alloc_exhausted_witness: "\<exists>a s'. late_phys_alloc demo_kmem 300 = Some (Inr (a, s'))"
  using phys_alloc_exhausted[OF demo_kmem_inv, of 300] by auto

text \<open>
  \<^verbatim>\<open>phys::free\<close> never inserts in front of the first frame, so a run just below it stays
  apart although the two touch: the pages are free and contiguous, but no allocation of
  their joint size can use them.
\<close>

theorem phys_free_below_head:
  assumes "phys_inv s [(h, k)]" and "extent_ok (v, len)" and "v + len * PGSIZE = h"
  shows "\<exists>s'. phys_free s v len = Some (Inr s') \<and> phys_inv s' [(h, k), (v, len)] \<and> \<not> can_alloc s' (len + k)"
proof -
  have h: "extent_ok (h, k)" using assms(1) by (auto simp: phys_inv_def)
  have "ext_pages (v, len) \<inter> pages [(h, k)] = {}" using assms(3) by (auto simp: ext_pages_def)
  from phys_inv_free[OF assms(1,2) this] obtain s' where s': "phys_free s v len = Some (Inr s')"
    "phys_inv s' (coalesce [(h, k), (v, len)])" by auto
  have ne: "v \<noteq> h + k * PGSIZE" using assms(2,3) by (auto simp: extent_ok_def)
  then have inv: "phys_inv s' [(h, k), (v, len)]" using s'(2) by simp
  have "\<not> can_alloc s' (len + k)" using can_alloc_fits[OF inv, of "len + k"] h assms(2)
    by (auto simp: extent_ok_def)
  with s'(1) inv show ?thesis by blast
qed

theorem phys_free_below_head_witness:
  "\<exists>s'. phys_free demo_kmem 0xff000 1 = Some (Inr s') \<and> \<not> can_alloc s' 257"
proof -
  have "extent_ok (0xff000, 1)" "0xff000 + 1 * PGSIZE = 0x100000" by (simp_all add: extent_ok_def PGSIZE_def)
  from phys_free_below_head[OF demo_kmem_inv this] show ?thesis by auto
qed

end
