(* ===== verification/Rbtree.thy ===== *)
theory Rbtree
  imports Chariot_Prelude
begin

text \<open>
  The red-black trees of \<^verbatim>\<open>kernel/lib/rbtree.cpp\<close>, \<^verbatim>\<open>include/chariot/rbtree.h\<close> and
  \<^verbatim>\<open>include/chariot/rbtree_augmented.h\<close>, on an explicit memory of \<^verbatim>\<open>struct rb_node\<close>: pointers
  are addresses, 0 is \<^verbatim>\<open>NULL\<close>, and a node packs the address of its parent and its colour in
  one word, as the code does. Every \<^verbatim>\<open>while (true)\<close> loop is a partial function, so that
  termination is part of what is proved. The augmentation callbacks are the \<^verbatim>\<open>dummy_*\<close>
  functions of \<^verbatim>\<open>rb_insert_color\<close> and \<^verbatim>\<open>rb_erase\<close>; nothing in the kernel uses others.
\<close>

section \<open>Nodes, links and the macros\<close>

record rb_node =
  rb_parent_color :: nat
  rb_right :: nat
  rb_left :: nat

record rb_state =
  rb_mem :: "nat \<Rightarrow> rb_node"
  rb_root :: nat

definition RB_RED :: nat where "RB_RED = 0"
definition RB_BLACK :: nat where "RB_BLACK = 1"

definition pc_parent :: "nat \<Rightarrow> nat" where "pc_parent pc = 4 * (pc div 4)"
definition pc_color :: "nat \<Rightarrow> nat" where "pc_color pc = pc mod 2"

definition rb_parent :: "rb_state \<Rightarrow> nat \<Rightarrow> nat" where "rb_parent s p = pc_parent (rb_parent_color (rb_mem s p))"
definition rb_red_parent :: "rb_state \<Rightarrow> nat \<Rightarrow> nat" where "rb_red_parent s p = rb_parent_color (rb_mem s p)"
definition rb_color :: "rb_state \<Rightarrow> nat \<Rightarrow> nat" where "rb_color s p = pc_color (rb_parent_color (rb_mem s p))"
definition rb_is_black :: "rb_state \<Rightarrow> nat \<Rightarrow> bool" where "rb_is_black s p \<longleftrightarrow> rb_color s p \<noteq> 0"
definition rb_is_red :: "rb_state \<Rightarrow> nat \<Rightarrow> bool" where "rb_is_red s p \<longleftrightarrow> rb_color s p = 0"

definition upd_pc :: "nat \<Rightarrow> nat \<Rightarrow> rb_state \<Rightarrow> rb_state" where
  "upd_pc p v s = s\<lparr>rb_mem := (rb_mem s)(p := (rb_mem s p)\<lparr>rb_parent_color := v\<rparr>)\<rparr>"

definition upd_left :: "nat \<Rightarrow> nat \<Rightarrow> rb_state \<Rightarrow> rb_state" where
  "upd_left p v s = s\<lparr>rb_mem := (rb_mem s)(p := (rb_mem s p)\<lparr>rb_left := v\<rparr>)\<rparr>"

definition upd_right :: "nat \<Rightarrow> nat \<Rightarrow> rb_state \<Rightarrow> rb_state" where
  "upd_right p v s = s\<lparr>rb_mem := (rb_mem s)(p := (rb_mem s p)\<lparr>rb_right := v\<rparr>)\<rparr>"

definition rb_set_black :: "nat \<Rightarrow> rb_state \<Rightarrow> rb_state" where
  "rb_set_black p s = upd_pc p (or (rb_parent_color (rb_mem s p)) RB_BLACK) s"

definition rb_set_parent :: "nat \<Rightarrow> nat \<Rightarrow> rb_state \<Rightarrow> rb_state" where
  "rb_set_parent rb p s = upd_pc rb (or (rb_color s rb) p) s"

definition rb_set_parent_color :: "nat \<Rightarrow> nat \<Rightarrow> nat \<Rightarrow> rb_state \<Rightarrow> rb_state" where
  "rb_set_parent_color rb p color s = upd_pc rb (or p color) s"

definition rb_change_child :: "nat \<Rightarrow> nat \<Rightarrow> nat \<Rightarrow> rb_state \<Rightarrow> rb_state" where
  "rb_change_child old newnode parent s =
     (if parent \<noteq> 0
      then if rb_left (rb_mem s parent) = old then upd_left parent newnode s
           else upd_right parent newnode s
      else s\<lparr>rb_root := newnode\<rparr>)"

definition rb_rotate_set_parents :: "nat \<Rightarrow> nat \<Rightarrow> nat \<Rightarrow> rb_state \<Rightarrow> rb_state" where
  "rb_rotate_set_parents old newnode color s =
     (let parent = rb_parent s old;
          s = upd_pc newnode (rb_parent_color (rb_mem s old)) s;
          s = rb_set_parent_color old newnode color s
      in rb_change_child old newnode parent s)"

text \<open>\<^verbatim>\<open>if (tmp) rb_set_parent_color(tmp, p, color)\<close> and \<^verbatim>\<open>if (tmp) rb_set_parent(tmp, p)\<close>\<close>

definition set_pc_if :: "nat \<Rightarrow> nat \<Rightarrow> nat \<Rightarrow> rb_state \<Rightarrow> rb_state" where
  "set_pc_if tmp p color s = (if tmp \<noteq> 0 then rb_set_parent_color tmp p color s else s)"

definition set_parent_if :: "nat \<Rightarrow> nat \<Rightarrow> rb_state \<Rightarrow> rb_state" where
  "set_parent_if tmp p s = (if tmp \<noteq> 0 then rb_set_parent tmp p s else s)"

section \<open>Insertion\<close>

text \<open>The two halves of the loop body of \<^verbatim>\<open>__rb_insert\<close> below its colour flip (cases 2 and 3).\<close>

definition rb_insert_rot_left :: "nat \<Rightarrow> nat \<Rightarrow> nat \<Rightarrow> rb_state \<Rightarrow> rb_state" where
  "rb_insert_rot_left node parent gparent s =
     (let tmp = rb_right (rb_mem s parent);
          (s, parent, tmp) =
            (if node = tmp
             then let tmp = rb_left (rb_mem s node);
                      s = upd_right parent tmp s;
                      s = upd_left node parent s;
                      s = set_pc_if tmp parent RB_BLACK s;
                      s = rb_set_parent_color parent node RB_RED s
                  in (s, node, rb_right (rb_mem s node))
             else (s, parent, tmp));
          s = upd_left gparent tmp s;
          s = upd_right parent gparent s;
          s = set_pc_if tmp gparent RB_BLACK s
      in rb_rotate_set_parents gparent parent RB_RED s)"

definition rb_insert_rot_right :: "nat \<Rightarrow> nat \<Rightarrow> nat \<Rightarrow> rb_state \<Rightarrow> rb_state" where
  "rb_insert_rot_right node parent gparent s =
     (let tmp = rb_left (rb_mem s parent);
          (s, parent, tmp) =
            (if node = tmp
             then let tmp = rb_right (rb_mem s node);
                      s = upd_left parent tmp s;
                      s = upd_right node parent s;
                      s = set_pc_if tmp parent RB_BLACK s;
                      s = rb_set_parent_color parent node RB_RED s
                  in (s, node, rb_left (rb_mem s node))
             else (s, parent, tmp));
          s = upd_right gparent tmp s;
          s = upd_left parent gparent s;
          s = set_pc_if tmp gparent RB_BLACK s
      in rb_rotate_set_parents gparent parent RB_RED s)"

text \<open>Case 1: the uncle \<open>tmp\<close> is red; the loop goes on at the grandparent.\<close>

definition rb_insert_flip :: "nat \<Rightarrow> nat \<Rightarrow> nat \<Rightarrow> rb_state \<Rightarrow> nat \<times> rb_state" where
  "rb_insert_flip tmp parent gparent s =
     (let s = rb_set_parent_color tmp gparent RB_BLACK s;
          s = rb_set_parent_color parent gparent RB_BLACK s;
          parent = rb_parent s gparent
      in (parent, rb_set_parent_color gparent parent RB_RED s))"

partial_function (option) rb_insert_loop :: "nat \<Rightarrow> nat \<Rightarrow> rb_state \<Rightarrow> rb_state option" where
  "rb_insert_loop node parent s =
     (if parent = 0 then Some (rb_set_parent_color node 0 RB_BLACK s)
      else if rb_is_black s parent then Some s
      else let gparent = rb_red_parent s parent;
               tmp = rb_right (rb_mem s gparent)
           in if parent \<noteq> tmp
              then if tmp \<noteq> 0 \<and> rb_is_red s tmp
                   then let (parent, s) = rb_insert_flip tmp parent gparent s
                        in rb_insert_loop gparent parent s
                   else Some (rb_insert_rot_left node parent gparent s)
              else let tmp = rb_left (rb_mem s gparent)
                   in if tmp \<noteq> 0 \<and> rb_is_red s tmp
                      then let (parent, s) = rb_insert_flip tmp parent gparent s
                           in rb_insert_loop gparent parent s
                      else Some (rb_insert_rot_right node parent gparent s))"

definition rb_insert_color :: "nat \<Rightarrow> rb_state \<Rightarrow> rb_state option" where
  "rb_insert_color node s = rb_insert_loop node (rb_red_parent s node) s"

text \<open>A \<^verbatim>\<open>struct rb_node **\<close>: the root, or one of the child fields of a node.\<close>

datatype rb_link = Link_root | Link_left nat | Link_right nat

fun link_get :: "rb_state \<Rightarrow> rb_link \<Rightarrow> nat" where
  "link_get s Link_root = rb_root s"
| "link_get s (Link_left p) = rb_left (rb_mem s p)"
| "link_get s (Link_right p) = rb_right (rb_mem s p)"

fun link_set :: "rb_link \<Rightarrow> nat \<Rightarrow> rb_state \<Rightarrow> rb_state" where
  "link_set Link_root v s = s\<lparr>rb_root := v\<rparr>"
| "link_set (Link_left p) v s = upd_left p v s"
| "link_set (Link_right p) v s = upd_right p v s"

definition rb_link_node :: "nat \<Rightarrow> nat \<Rightarrow> rb_link \<Rightarrow> rb_state \<Rightarrow> rb_state" where
  "rb_link_node node parent l s =
     link_set l node (upd_left node 0 (upd_right node 0 (upd_pc node parent s)))"

text \<open>
  The descent of \<^verbatim>\<open>rb_insert\<close>. The callback's result selects a branch; a result that is none
  of the three constants leaves \<^verbatim>\<open>n\<close> where it is, and the loop does not end.
\<close>

partial_function (option) rb_insert_walk ::
    "(nat \<Rightarrow> int) \<Rightarrow> rb_state \<Rightarrow> rb_link \<Rightarrow> nat \<Rightarrow> (rb_link \<times> nat) option option" where
  "rb_insert_walk callback s n parent =
     (if link_get s n \<noteq> 0
      then let result = callback (link_get s n);
               parent = link_get s n
           in if result = -1 then rb_insert_walk callback s (Link_left (link_get s n)) parent
              else if result = 1 then rb_insert_walk callback s (Link_right (link_get s n)) parent
              else if result = 0 then Some None
              else rb_insert_walk callback s n parent
      else Some (Some (n, parent)))"

definition rb_insert :: "nat \<Rightarrow> (nat \<Rightarrow> int) \<Rightarrow> rb_state \<Rightarrow> (bool \<times> rb_state) option" where
  "rb_insert node callback s =
     Option.bind (rb_insert_walk callback s Link_root 0) (\<lambda>r.
       case r of None \<Rightarrow> Some (False, s)
       | Some (n, parent) \<Rightarrow>
           Option.bind (rb_insert_color node (rb_link_node node parent n s)) (\<lambda>s. Some (True, s)))"

section \<open>Erasure\<close>

text \<open>Case 1 of \<^verbatim>\<open>____rb_erase_color\<close>, a red sibling: the rotation; the new sibling is \<open>tmp1\<close>.\<close>

definition rb_erase_case1_left :: "nat \<Rightarrow> nat \<Rightarrow> rb_state \<Rightarrow> nat \<times> rb_state" where
  "rb_erase_case1_left parent sibling s =
     (if rb_is_red s sibling
      then let tmp1 = rb_left (rb_mem s sibling);
               s = upd_right parent tmp1 s;
               s = upd_left sibling parent s;
               s = rb_set_parent_color tmp1 parent RB_BLACK s
           in (tmp1, rb_rotate_set_parents parent sibling RB_RED s)
      else (sibling, s))"

definition rb_erase_case1_right :: "nat \<Rightarrow> nat \<Rightarrow> rb_state \<Rightarrow> nat \<times> rb_state" where
  "rb_erase_case1_right parent sibling s =
     (if rb_is_red s sibling
      then let tmp1 = rb_right (rb_mem s sibling);
               s = upd_left parent tmp1 s;
               s = upd_right sibling parent s;
               s = rb_set_parent_color tmp1 parent RB_BLACK s
           in (tmp1, rb_rotate_set_parents parent sibling RB_RED s)
      else (sibling, s))"

text \<open>Case 3: rotate at the sibling; gives the new \<open>tmp1\<close> and sibling.\<close>

definition rb_erase_case3_left :: "nat \<Rightarrow> nat \<Rightarrow> nat \<Rightarrow> rb_state \<Rightarrow> rb_state" where
  "rb_erase_case3_left parent sibling tmp2 s =
     (let tmp1 = rb_right (rb_mem s tmp2);
          s = upd_left sibling tmp1 s;
          s = upd_right tmp2 sibling s;
          s = upd_right parent tmp2 s
      in set_pc_if tmp1 sibling RB_BLACK s)"

definition rb_erase_case3_right :: "nat \<Rightarrow> nat \<Rightarrow> nat \<Rightarrow> rb_state \<Rightarrow> rb_state" where
  "rb_erase_case3_right parent sibling tmp2 s =
     (let tmp1 = rb_left (rb_mem s tmp2);
          s = upd_right sibling tmp1 s;
          s = upd_left tmp2 sibling s;
          s = upd_left parent tmp2 s
      in set_pc_if tmp1 sibling RB_BLACK s)"

text \<open>Case 4: rotate at the parent and flip colours; ends the loop.\<close>

definition rb_erase_case4_left :: "nat \<Rightarrow> nat \<Rightarrow> nat \<Rightarrow> rb_state \<Rightarrow> rb_state" where
  "rb_erase_case4_left parent sibling tmp1 s =
     (let tmp2 = rb_left (rb_mem s sibling);
          s = upd_right parent tmp2 s;
          s = upd_left sibling parent s;
          s = rb_set_parent_color tmp1 sibling RB_BLACK s;
          s = set_parent_if tmp2 parent s
      in rb_rotate_set_parents parent sibling RB_BLACK s)"

definition rb_erase_case4_right :: "nat \<Rightarrow> nat \<Rightarrow> nat \<Rightarrow> rb_state \<Rightarrow> rb_state" where
  "rb_erase_case4_right parent sibling tmp1 s =
     (let tmp2 = rb_right (rb_mem s sibling);
          s = upd_left parent tmp2 s;
          s = upd_right sibling parent s;
          s = rb_set_parent_color tmp1 sibling RB_BLACK s;
          s = set_parent_if tmp2 parent s
      in rb_rotate_set_parents parent sibling RB_BLACK s)"

text \<open>
  One round of the loop after case 1. Case 2 recolours the sibling and blackens a red parent,
  which ends the loop; with a black parent the loop goes on there, which the flag says.
\<close>

definition rb_erase_round_left :: "nat \<Rightarrow> nat \<Rightarrow> rb_state \<Rightarrow> bool \<times> rb_state" where
  "rb_erase_round_left parent sibling s =
     (let tmp1 = rb_right (rb_mem s sibling)
      in if tmp1 = 0 \<or> rb_is_black s tmp1
         then let tmp2 = rb_left (rb_mem s sibling)
              in if tmp2 = 0 \<or> rb_is_black s tmp2
                 then let s = rb_set_parent_color sibling parent RB_RED s
                      in if rb_is_red s parent then (False, rb_set_black parent s) else (True, s)
                 else (False, rb_erase_case4_left parent tmp2 sibling
                                (rb_erase_case3_left parent sibling tmp2 s))
         else (False, rb_erase_case4_left parent sibling tmp1 s))"

definition rb_erase_round_right :: "nat \<Rightarrow> nat \<Rightarrow> rb_state \<Rightarrow> bool \<times> rb_state" where
  "rb_erase_round_right parent sibling s =
     (let tmp1 = rb_left (rb_mem s sibling)
      in if tmp1 = 0 \<or> rb_is_black s tmp1
         then let tmp2 = rb_right (rb_mem s sibling)
              in if tmp2 = 0 \<or> rb_is_black s tmp2
                 then let s = rb_set_parent_color sibling parent RB_RED s
                      in if rb_is_red s parent then (False, rb_set_black parent s) else (True, s)
                 else (False, rb_erase_case4_right parent tmp2 sibling
                                (rb_erase_case3_right parent sibling tmp2 s))
         else (False, rb_erase_case4_right parent sibling tmp1 s))"

partial_function (option) rb_erase_color :: "nat \<Rightarrow> nat \<Rightarrow> rb_state \<Rightarrow> rb_state option" where
  "rb_erase_color node parent s =
     (let sibling = rb_right (rb_mem s parent);
          (again, s) =
            (if node \<noteq> sibling
             then let (sibling, s) = rb_erase_case1_left parent sibling s
                  in rb_erase_round_left parent sibling s
             else let sibling = rb_left (rb_mem s parent);
                      (sibling, s) = rb_erase_case1_right parent sibling s
                  in rb_erase_round_right parent sibling s)
      in if again
         then let node = parent; parent = rb_parent s node
              in if parent \<noteq> 0 then rb_erase_color node parent s else Some s
         else Some s)"

text \<open>The \<^verbatim>\<open>do ... while (tmp)\<close> search for the successor: its parent and itself.\<close>

partial_function (option) erase_successor :: "rb_state \<Rightarrow> nat \<Rightarrow> nat \<Rightarrow> (nat \<times> nat) option" where
  "erase_successor s successor tmp =
     (let parent = successor; successor = tmp; tmp = rb_left (rb_mem s tmp)
      in if tmp \<noteq> 0 then erase_successor s successor tmp else Some (parent, successor))"

text \<open>
  The last steps of \<^verbatim>\<open>__rb_erase_augmented\<close> when the node has two children: the successor
  takes over the left subtree, the place and the packed word of the node.
\<close>

definition erase_tail :: "nat \<Rightarrow> nat \<Rightarrow> nat \<Rightarrow> nat \<Rightarrow> rb_state \<Rightarrow> nat \<times> rb_state" where
  "erase_tail node parent successor child2 s =
     (let tmp = rb_left (rb_mem s node);
          s = upd_left successor tmp s;
          s = rb_set_parent tmp successor s;
          pc = rb_parent_color (rb_mem s node);
          tmp = pc_parent pc;
          s = rb_change_child node successor tmp s;
          (rebalance, s) =
            (if child2 \<noteq> 0 then (0, rb_set_parent_color child2 parent RB_BLACK s)
             else (if rb_is_black s successor then parent else 0, s))
      in (rebalance, upd_pc successor pc s))"

text \<open>\<^verbatim>\<open>__rb_erase_augmented\<close>: unlinks the node and gives the node to rebalance at, or 0.\<close>

definition rb_erase_augmented :: "nat \<Rightarrow> rb_state \<Rightarrow> (nat \<times> rb_state) option" where
  "rb_erase_augmented node s =
     (let child = rb_right (rb_mem s node);
          tmp = rb_left (rb_mem s node);
          pc = rb_parent_color (rb_mem s node)
      in if tmp = 0
         then let parent = pc_parent pc;
                  s = rb_change_child node child parent s
              in if child \<noteq> 0 then Some (0, upd_pc child pc s)
                 else Some (if pc_color pc \<noteq> 0 then parent else 0, s)
         else if child = 0
         then let s = upd_pc tmp pc s;
                  parent = pc_parent pc
              in Some (0, rb_change_child node tmp parent s)
         else Option.bind
           (if rb_left (rb_mem s child) = 0
            then Some (child, child, rb_right (rb_mem s child), s)
            else Option.bind (erase_successor s child (rb_left (rb_mem s child))) (\<lambda>(parent, successor).
              let child2 = rb_right (rb_mem s successor);
                  s = upd_left parent child2 s;
                  s = upd_right successor child s
              in Some (parent, successor, child2, rb_set_parent child successor s)))
           (\<lambda>(parent, successor, child2, s). Some (erase_tail node parent successor child2 s)))"

definition rb_erase :: "nat \<Rightarrow> rb_state \<Rightarrow> rb_state option" where
  "rb_erase node s =
     Option.bind (rb_erase_augmented node s) (\<lambda>(rebalance, s).
       if rebalance \<noteq> 0 then rb_erase_color 0 rebalance s else Some s)"

section \<open>Traversal and replacement\<close>

partial_function (option) go_left :: "rb_state \<Rightarrow> nat \<Rightarrow> nat option" where
  "go_left s n = (if rb_left (rb_mem s n) \<noteq> 0 then go_left s (rb_left (rb_mem s n)) else Some n)"

partial_function (option) go_right :: "rb_state \<Rightarrow> nat \<Rightarrow> nat option" where
  "go_right s n = (if rb_right (rb_mem s n) \<noteq> 0 then go_right s (rb_right (rb_mem s n)) else Some n)"

definition rb_first :: "rb_state \<Rightarrow> nat option" where
  "rb_first s = (if rb_root s = 0 then Some 0 else go_left s (rb_root s))"

definition rb_last :: "rb_state \<Rightarrow> nat option" where
  "rb_last s = (if rb_root s = 0 then Some 0 else go_right s (rb_root s))"

definition RB_EMPTY_NODE :: "rb_state \<Rightarrow> nat \<Rightarrow> bool" where
  "RB_EMPTY_NODE s node \<longleftrightarrow> rb_parent_color (rb_mem s node) = node"

definition RB_CLEAR_NODE :: "nat \<Rightarrow> rb_state \<Rightarrow> rb_state" where
  "RB_CLEAR_NODE node s = upd_pc node node s"

definition RB_EMPTY_ROOT :: "rb_state \<Rightarrow> bool" where
  "RB_EMPTY_ROOT s \<longleftrightarrow> rb_root s = 0"

partial_function (option) climb_right :: "rb_state \<Rightarrow> nat \<Rightarrow> nat option" where
  "climb_right s node =
     (let parent = rb_parent s node
      in if parent \<noteq> 0 \<and> node = rb_right (rb_mem s parent) then climb_right s parent else Some parent)"

partial_function (option) climb_left :: "rb_state \<Rightarrow> nat \<Rightarrow> nat option" where
  "climb_left s node =
     (let parent = rb_parent s node
      in if parent \<noteq> 0 \<and> node = rb_left (rb_mem s parent) then climb_left s parent else Some parent)"

definition rb_next :: "rb_state \<Rightarrow> nat \<Rightarrow> nat option" where
  "rb_next s node =
     (if RB_EMPTY_NODE s node then Some 0
      else if rb_right (rb_mem s node) \<noteq> 0 then go_left s (rb_right (rb_mem s node))
      else climb_right s node)"

definition rb_prev :: "rb_state \<Rightarrow> nat \<Rightarrow> nat option" where
  "rb_prev s node =
     (if RB_EMPTY_NODE s node then Some 0
      else if rb_left (rb_mem s node) \<noteq> 0 then go_right s (rb_left (rb_mem s node))
      else climb_left s node)"

definition rb_replace_node :: "nat \<Rightarrow> nat \<Rightarrow> rb_state \<Rightarrow> rb_state" where
  "rb_replace_node victim newnode s =
     (let parent = rb_parent s victim;
          s = s\<lparr>rb_mem := (rb_mem s)(newnode := rb_mem s victim)\<rparr>;
          s = set_parent_if (rb_left (rb_mem s victim)) newnode s;
          s = set_parent_if (rb_right (rb_mem s victim)) newnode s
      in rb_change_child victim newnode parent s)"

partial_function (option) rb_left_deepest_node :: "rb_state \<Rightarrow> nat \<Rightarrow> nat option" where
  "rb_left_deepest_node s node =
     (if rb_left (rb_mem s node) \<noteq> 0 then rb_left_deepest_node s (rb_left (rb_mem s node))
      else if rb_right (rb_mem s node) \<noteq> 0 then rb_left_deepest_node s (rb_right (rb_mem s node))
      else Some node)"

definition rb_next_postorder :: "rb_state \<Rightarrow> nat \<Rightarrow> nat option" where
  "rb_next_postorder s node =
     (if node = 0 then Some 0
      else let parent = rb_parent s node
           in if parent \<noteq> 0 \<and> node = rb_left (rb_mem s parent) \<and> rb_right (rb_mem s parent) \<noteq> 0
              then rb_left_deepest_node s (rb_right (rb_mem s parent))
              else Some parent)"

definition rb_first_postorder :: "rb_state \<Rightarrow> nat option" where
  "rb_first_postorder s = (if rb_root s = 0 then Some 0 else rb_left_deepest_node s (rb_root s))"

text \<open>
  The loops \<^verbatim>\<open>for (node = rb_first(root); node; node = rb_next(node))\<close>, the same with \<^verbatim>\<open>rb_last\<close>
  and \<^verbatim>\<open>rb_prev\<close>, and \<^verbatim>\<open>rbtree_postorder_for_each_entry_safe\<close>: the nodes they visit.
\<close>

partial_function (option) rb_for_each :: "(nat \<Rightarrow> nat option) \<Rightarrow> nat \<Rightarrow> nat list option" where
  "rb_for_each step node =
     (if node = 0 then Some []
      else Option.bind (step node) (\<lambda>n. Option.bind (rb_for_each step n) (\<lambda>ns. Some (node # ns))))"

definition rb_forward :: "rb_state \<Rightarrow> nat list option" where
  "rb_forward s = Option.bind (rb_first s) (rb_for_each (rb_next s))"

definition rb_backward :: "rb_state \<Rightarrow> nat list option" where
  "rb_backward s = Option.bind (rb_last s) (rb_for_each (rb_prev s))"

definition rb_postorder :: "rb_state \<Rightarrow> nat list option" where
  "rb_postorder s = Option.bind (rb_first_postorder s) (rb_for_each (rb_next_postorder s))"

text \<open>Trees that cache their first node.\<close>

record rb_root_cached =
  rbc_tree :: rb_state
  rb_leftmost :: nat

definition rb_insert_color_cached :: "nat \<Rightarrow> bool \<Rightarrow> rb_root_cached \<Rightarrow> rb_root_cached option" where
  "rb_insert_color_cached node leftmost r =
     (let r = (if leftmost then r\<lparr>rb_leftmost := node\<rparr> else r)
      in Option.bind (rb_insert_color node (rbc_tree r)) (\<lambda>s. Some (r\<lparr>rbc_tree := s\<rparr>)))"

definition rb_erase_cached :: "nat \<Rightarrow> rb_root_cached \<Rightarrow> rb_root_cached option" where
  "rb_erase_cached node r =
     Option.bind (if rb_leftmost r = node
                  then Option.bind (rb_next (rbc_tree r) node) (\<lambda>n. Some (r\<lparr>rb_leftmost := n\<rparr>)) else Some r)
       (\<lambda>r. Option.bind (rb_erase node (rbc_tree r)) (\<lambda>s. Some (r\<lparr>rbc_tree := s\<rparr>)))"

definition rb_replace_node_cached :: "nat \<Rightarrow> nat \<Rightarrow> rb_root_cached \<Rightarrow> rb_root_cached" where
  "rb_replace_node_cached victim newnode r =
     (let r = (if rb_leftmost r = victim then r\<lparr>rb_leftmost := newnode\<rparr> else r)
      in r\<lparr>rbc_tree := rb_replace_node victim newnode (rbc_tree r)\<rparr>)"

end
