(* ===== verification/Rbtree_Insert.thy ===== *)
theory Rbtree_Insert
  imports Rbtree
begin

text \<open>
  Insertion into the red-black trees of \<^verbatim>\<open>kernel/lib/rbtree.cpp\<close>. A tree in memory is related to a
  tree of addresses and colours; the position of a node is a path to the root, which is what
  the parent pointers encode. The loop of \<^verbatim>\<open>__rb_insert\<close> is shown to end and to compute a
  function on such paths, which keeps the order of the nodes and restores the colour rules.
\<close>

section \<open>Trees, contexts and their image in memory\<close>

text \<open>A tree of node addresses with their colours, and the path from a subtree to the root.\<close>

datatype color = Red | Black

datatype rtree = Tip | Nd rtree nat color rtree

datatype crumb = CL nat color rtree | CR rtree nat color

text \<open>The packed word of a node: its parent, with the colour in bit 0.\<close>

definition pack :: "nat \<Rightarrow> color \<Rightarrow> nat" where
  "pack p c = (case c of Red \<Rightarrow> p | Black \<Rightarrow> p + 1)"

fun tptr :: "rtree \<Rightarrow> nat" where
  "tptr Tip = 0"
| "tptr (Nd l p c r) = p"

fun nodes :: "rtree \<Rightarrow> nat list" where
  "nodes Tip = []"
| "nodes (Nd l p c r) = nodes l @ p # nodes r"

fun cptr :: "crumb list \<Rightarrow> nat" where
  "cptr [] = 0"
| "cptr (CL p c r # C) = p"
| "cptr (CR l p c # C) = p"

fun cnodes :: "crumb list \<Rightarrow> nat list" where
  "cnodes [] = []"
| "cnodes (CL p c r # C) = p # nodes r @ cnodes C"
| "cnodes (CR l p c # C) = p # nodes l @ cnodes C"

fun plug :: "crumb list \<Rightarrow> rtree \<Rightarrow> rtree" where
  "plug [] t = t"
| "plug (CL p c r # C) t = plug C (Nd t p c r)"
| "plug (CR l p c # C) t = plug C (Nd l p c t)"

fun croot :: "crumb list \<Rightarrow> nat \<Rightarrow> nat" where
  "croot [] h = h"
| "croot (CL p c r # C) h = croot C p"
| "croot (CR l p c # C) h = croot C p"

fun tree_at :: "(nat \<Rightarrow> rb_node) \<Rightarrow> nat \<Rightarrow> rtree \<Rightarrow> bool" where
  "tree_at m par Tip \<longleftrightarrow> True"
| "tree_at m par (Nd l p c r) \<longleftrightarrow> p \<noteq> 0 \<and> 4 dvd p \<and>
     m p = \<lparr>rb_parent_color = pack par c, rb_right = tptr r, rb_left = tptr l\<rparr> \<and> tree_at m p l \<and> tree_at m p r"

fun ctx_at :: "(nat \<Rightarrow> rb_node) \<Rightarrow> crumb list \<Rightarrow> nat \<Rightarrow> bool" where
  "ctx_at m [] h \<longleftrightarrow> True"
| "ctx_at m (CL p c r # C) h \<longleftrightarrow> p \<noteq> 0 \<and> 4 dvd p \<and>
     m p = \<lparr>rb_parent_color = pack (cptr C) c, rb_right = tptr r, rb_left = h\<rparr> \<and> tree_at m p r \<and> ctx_at m C p"
| "ctx_at m (CR l p c # C) h \<longleftrightarrow> p \<noteq> 0 \<and> 4 dvd p \<and>
     m p = \<lparr>rb_parent_color = pack (cptr C) c, rb_right = h, rb_left = tptr l\<rparr> \<and> tree_at m p l \<and> ctx_at m C p"

definition zip_at :: "rb_state \<Rightarrow> crumb list \<Rightarrow> rtree \<Rightarrow> bool" where
  "zip_at s C t \<longleftrightarrow> ctx_at (rb_mem s) C (tptr t) \<and> tree_at (rb_mem s) (cptr C) t \<and>
     rb_root s = croot C (tptr t) \<and> distinct (nodes t @ cnodes C)"

definition rb_at :: "rb_state \<Rightarrow> rtree \<Rightarrow> bool" where
  "rb_at s t \<longleftrightarrow> zip_at s [] t"

lemma not_color [simp]: "c \<noteq> Black \<longleftrightarrow> c = Red" "c \<noteq> Red \<longleftrightarrow> c = Black"
  by (cases c; simp)+

lemma zip_at_CL: "zip_at s (CL p c r # C) t \<longleftrightarrow> zip_at s C (Nd t p c r)"
  by (auto simp: zip_at_def)

lemma zip_at_CR: "zip_at s (CR l p c # C) t \<longleftrightarrow> zip_at s C (Nd l p c t)"
  by (auto simp: zip_at_def)

lemma zip_at_plug: "zip_at s C t \<longleftrightarrow> rb_at s (plug C t)"
  by (induction C t rule: plug.induct) (auto simp: rb_at_def zip_at_CL zip_at_CR)

lemma set_nodes_plug: "set (nodes (plug C t)) = set (nodes t) \<union> set (cnodes C)"
  by (induction C t rule: plug.induct) auto

lemma tptr_in: "t \<noteq> Tip \<Longrightarrow> tptr t \<in> set (nodes t)"
  by (cases t) auto

lemma tptr_not_in [simp]: "p \<notin> set (nodes t) \<Longrightarrow> p \<noteq> 0 \<Longrightarrow> p = tptr t \<longleftrightarrow> False"
    "p \<notin> set (nodes t) \<Longrightarrow> p \<noteq> 0 \<Longrightarrow> tptr t = p \<longleftrightarrow> False"
  by (cases t; auto)+

lemma cptr_in: "C \<noteq> [] \<Longrightarrow> cptr C \<in> set (cnodes C)"
  by (cases C rule: cptr.cases) auto

lemma tree_at_cong:
  assumes "\<And>x. x \<in> set (nodes t) \<Longrightarrow> m' x = m x"
  shows "tree_at m' par t \<longleftrightarrow> tree_at m par t"
  using assms by (induction t arbitrary: par) auto

lemma ctx_at_cong:
  assumes "\<And>x. x \<in> set (cnodes C) \<Longrightarrow> m' x = m x"
  shows "ctx_at m' C h \<longleftrightarrow> ctx_at m C h"
  using assms
proof (induction C arbitrary: h)
  case (Cons x C)
  then show ?case using tree_at_cong[of _ m' m] by (cases x) simp_all
qed simp

lemma tree_at_upd [simp]: "q \<notin> set (nodes t) \<Longrightarrow> tree_at (m(q := v)) par t \<longleftrightarrow> tree_at m par t"
  by (rule tree_at_cong) auto

lemma ctx_at_upd [simp]: "q \<notin> set (cnodes C) \<Longrightarrow> ctx_at (m(q := v)) C h \<longleftrightarrow> ctx_at m C h"
  by (rule ctx_at_cong) auto

lemma cptr_aligned: "ctx_at m C h \<Longrightarrow> 4 dvd cptr C"
  by (cases C rule: cptr.cases) auto

lemma cptr_eq_0: "ctx_at m C h \<Longrightarrow> cptr C = 0 \<longleftrightarrow> C = []"
  by (cases C rule: cptr.cases) auto

lemma nodes_not_0: "tree_at m par t \<Longrightarrow> 0 \<notin> set (nodes t)"
  by (induction t arbitrary: par) auto

lemma cnodes_not_0: "ctx_at m C h \<Longrightarrow> 0 \<notin> set (cnodes C)"
  by (induction C h rule: ctx_at.induct) (auto simp: nodes_not_0)

lemma pc_pack [simp]:
  assumes "4 dvd p"
  shows "pc_parent (pack p c) = p" "pc_color (pack p c) = (case c of Red \<Rightarrow> 0 | Black \<Rightarrow> 1)"
proof -
  obtain k where "p = 4 * k" using assms by (elim dvdE)
  then show "pc_parent (pack p c) = p" "pc_color (pack p c) = (case c of Red \<Rightarrow> 0 | Black \<Rightarrow> 1)"
    by (auto simp: pack_def pc_parent_def pc_color_def mod_Suc mod_mult_left_eq split: color.splits)
qed

lemma pack_Red [simp]: "pack p Red = p"
  by (simp add: pack_def)

lemma pc_aligned [simp]: "4 dvd p \<Longrightarrow> pc_parent p = p" "4 dvd p \<Longrightarrow> pc_color p = 0"
  using pc_pack[of p Red] by simp_all

lemma or_pack [simp]:
  assumes "4 dvd p"
  shows "or p RB_RED = p" "or p RB_BLACK = pack p Black" "or 0 p = p" "or (Suc 0) p = pack p Black"
    "or (pack p c) RB_BLACK = pack p Black"
proof -
  obtain k where "p = 4 * k" using assms by (elim dvdE)
  then have "even p" by simp
  then have b: "or p 1 = p + 1" by (auto simp: or_Suc_0_eq)
  have "or 1 p = or p 1" by (rule or.commute)
  with b show "or p RB_BLACK = pack p Black" "or (Suc 0) p = pack p Black"
    by (auto simp: pack_def RB_BLACK_def)
  show "or (pack p c) RB_BLACK = pack p Black" using b \<open>even p\<close>
    by (cases c) (auto simp: pack_def RB_BLACK_def or_Suc_0_eq)
qed (auto simp: RB_RED_def)

lemma rb_mem_upd [simp]:
  "rb_mem (upd_pc p v s) = (rb_mem s)(p := (rb_mem s p)\<lparr>rb_parent_color := v\<rparr>)"
  "rb_mem (upd_left p v s) = (rb_mem s)(p := (rb_mem s p)\<lparr>rb_left := v\<rparr>)"
  "rb_mem (upd_right p v s) = (rb_mem s)(p := (rb_mem s p)\<lparr>rb_right := v\<rparr>)"
  "rb_root (upd_pc p v s) = rb_root s" "rb_root (upd_left p v s) = rb_root s"
  "rb_root (upd_right p v s) = rb_root s"
  by (simp_all add: upd_pc_def upd_left_def upd_right_def)

section \<open>Local changes of the heap\<close>

lemma change_child:
  assumes "ctx_at (rb_mem s) C old" and "rb_root s = croot C old" and "distinct (cnodes C)"
    and "old \<noteq> 0" and "old \<notin> set (cnodes C)"
  shows "ctx_at (rb_mem (rb_change_child old new (cptr C) s)) C new"
    and "rb_root (rb_change_child old new (cptr C) s) = croot C new"
    and "x \<notin> set (cnodes C) \<Longrightarrow> rb_mem (rb_change_child old new (cptr C) s) x = rb_mem s x"
proof -
  have ne: "tptr l \<noteq> old" if "old \<notin> set (nodes l)" for l
    using that assms(4) tptr_in[of l] by (cases l) auto
  show "ctx_at (rb_mem (rb_change_child old new (cptr C) s)) C new"
    using assms ne by (cases C rule: cptr.cases) (auto simp: rb_change_child_def)
  show "rb_root (rb_change_child old new (cptr C) s) = croot C new"
    using assms by (cases C rule: cptr.cases) (auto simp: rb_change_child_def)
  show "x \<notin> set (cnodes C) \<Longrightarrow> rb_mem (rb_change_child old new (cptr C) s) x = rb_mem s x"
    using assms by (cases C rule: cptr.cases) (auto simp: rb_change_child_def)
qed

lemma rotate_zip:
  assumes ctx: "ctx_at (rb_mem s) C old" and root: "rb_root s = croot C old"
    and dist: "distinct (nodes t @ cnodes C)" and old: "old \<noteq> 0" "old \<in> set (nodes t)"
    and new: "tptr t = new" "new \<noteq> old" "t \<noteq> Tip" and pc: "rb_parent_color (rb_mem s old) = pack (cptr C) c"
    and t: "tree_at ((rb_mem s)(new := (rb_mem s new)\<lparr>rb_parent_color := pack (cptr C) c\<rparr>,
      old := (rb_mem s old)\<lparr>rb_parent_color := or new col\<rparr>)) (cptr C) t"
  shows "zip_at (rb_rotate_set_parents old new col s) C t"
    and "\<forall>x. x \<notin> set (nodes t) \<union> set (cnodes C) \<longrightarrow> rb_mem (rb_rotate_set_parents old new col s) x = rb_mem s x"
proof -
  let ?m = "(rb_mem s)(new := (rb_mem s new)\<lparr>rb_parent_color := pack (cptr C) c\<rparr>,
      old := (rb_mem s old)\<lparr>rb_parent_color := or new col\<rparr>)"
  let ?s = "s\<lparr>rb_mem := ?m\<rparr>"
  have nt: "new \<in> set (nodes t)" using new tptr_in by blast
  have n: "new \<notin> set (cnodes C)" "old \<notin> set (cnodes C)" using old(2) nt dist by auto
  have eq: "rb_rotate_set_parents old new col s = rb_change_child old new (cptr C) ?s"
    using cptr_aligned[OF ctx] pc new(2)
    by (simp add: rb_rotate_set_parents_def rb_parent_def rb_set_parent_color_def upd_pc_def Let_def)
  have ctx': "ctx_at (rb_mem ?s) C old" "rb_root ?s = croot C old" "distinct (cnodes C)"
    using ctx root n dist by simp_all
  note cc = change_child[OF ctx' old(1) n(2), where new = new]
  have "tree_at (rb_mem (rb_change_child old new (cptr C) ?s)) (cptr C) t \<longleftrightarrow> tree_at ?m (cptr C) t"
  proof (rule tree_at_cong)
    fix x assume "x \<in> set (nodes t)"
    then have "x \<notin> set (cnodes C)" using dist by auto
    then show "rb_mem (rb_change_child old new (cptr C) ?s) x = ?m x" using cc(3) by simp
  qed
  then show "zip_at (rb_rotate_set_parents old new col s) C t"
    unfolding eq zip_at_def using cc(1,2) t dist new(1) by simp
  show "\<forall>x. x \<notin> set (nodes t) \<union> set (cnodes C) \<longrightarrow> rb_mem (rb_rotate_set_parents old new col s) x = rb_mem s x"
    unfolding eq using cc(3) nt old(2) by auto
qed

fun is_black :: "rtree \<Rightarrow> bool" where
  "is_black Tip \<longleftrightarrow> True"
| "is_black (Nd l p c r) \<longleftrightarrow> c = Black"

definition unchanged :: "nat set \<Rightarrow> rb_state \<Rightarrow> rb_state \<Rightarrow> bool" where
  "unchanged S s s' \<longleftrightarrow> (\<forall>x. x \<notin> S \<longrightarrow> rb_mem s' x = rb_mem s x)"

lemma unchanged_trans: "unchanged S s s' \<Longrightarrow> unchanged S s' s'' \<Longrightarrow> unchanged S s s''"
  by (simp add: unchanged_def)

lemma tptr_neq:
  assumes "tree_at m x a" and "tree_at m' y b" and "a \<noteq> Tip" and "set (nodes a) \<inter> set (nodes b) = {}"
  shows "tptr a \<noteq> tptr b" "tptr b \<noteq> tptr a"
  using assms by (cases a; cases b; auto)+

text \<open>Re-hanging a subtree below another parent.\<close>

definition tree_any :: "(nat \<Rightarrow> rb_node) \<Rightarrow> rtree \<Rightarrow> bool" where
  "tree_any m t \<longleftrightarrow> (\<exists>par. 4 dvd par \<and> tree_at m par t)"

lemma tree_any_upd [simp]: "q \<notin> set (nodes t) \<Longrightarrow> tree_any (m(q := v)) t \<longleftrightarrow> tree_any m t"
  by (simp add: tree_any_def)

lemma tree_anyI: "tree_at m par t \<Longrightarrow> 4 dvd par \<Longrightarrow> tree_any m t"
  by (auto simp: tree_any_def)

lemma set_pc_if_frame [simp]:
  "x \<notin> set (nodes t) \<Longrightarrow> rb_mem (set_pc_if (tptr t) g c s) x = rb_mem s x"
  "rb_root (set_pc_if p g c s) = rb_root s"
  by (cases t) (auto simp: set_pc_if_def rb_set_parent_color_def)

lemma set_pc_if_trees [simp]:
  "set (nodes t) \<inter> set (nodes t') = {} \<Longrightarrow>
    tree_at (rb_mem (set_pc_if (tptr t) g c s)) par t' \<longleftrightarrow> tree_at (rb_mem s) par t'"
  "set (nodes t') \<inter> set (nodes t) = {} \<Longrightarrow>
    tree_at (rb_mem (set_pc_if (tptr t) g c s)) par t' \<longleftrightarrow> tree_at (rb_mem s) par t'"
  "set (nodes t) \<inter> set (nodes t') = {} \<Longrightarrow>
    tree_any (rb_mem (set_pc_if (tptr t) g c s)) t' \<longleftrightarrow> tree_any (rb_mem s) t'"
  "set (nodes t') \<inter> set (nodes t) = {} \<Longrightarrow>
    tree_any (rb_mem (set_pc_if (tptr t) g c s)) t' \<longleftrightarrow> tree_any (rb_mem s) t'"
  "set (nodes t) \<inter> set (cnodes C) = {} \<Longrightarrow>
    ctx_at (rb_mem (set_pc_if (tptr t) g c s)) C h \<longleftrightarrow> ctx_at (rb_mem s) C h"
  by (cases t; auto simp: set_pc_if_def rb_set_parent_color_def)+

lemma set_pc_if_tree [simp]:
  assumes "4 dvd g" and "is_black t" and "distinct (nodes t)" and "tree_any (rb_mem s) t"
  shows "tree_at (rb_mem (set_pc_if (tptr t) g RB_BLACK s)) g t"
proof (cases t)
  case (Nd l p c r)
  with assms show ?thesis by (auto simp: tree_any_def set_pc_if_def rb_set_parent_color_def)
qed auto

lemma disj_Un [simp]:
  "A \<inter> (B \<union> C) = {} \<longleftrightarrow> A \<inter> B = {} \<and> A \<inter> C = {}" "(B \<union> C) \<inter> A = {} \<longleftrightarrow> B \<inter> A = {} \<and> C \<inter> A = {}"
  by auto

lemma rot_left_outer:
  assumes z: "zip_at s C (Nd (Nd a p Red b) g gc u)" and a: "a \<noteq> Tip" and b: "is_black b"
  shows "zip_at (rb_insert_rot_left (tptr a) p g s) C (Nd a p gc (Nd b g Red u)) \<and>
    unchanged (set (nodes (Nd a p gc (Nd b g Red u))) \<union> set (cnodes C)) s (rb_insert_rot_left (tptr a) p g s)"
proof -
  let ?t = "Nd a p gc (Nd b g Red u)"
  have ne: "tptr a \<noteq> tptr b" using z a by (intro tptr_neq) (auto simp: zip_at_def)
  let ?s = "set_pc_if (tptr b) g RB_BLACK (upd_right p g (upd_left g (tptr b) s))"
  have eq: "rb_insert_rot_left (tptr a) p g s = rb_rotate_set_parents g p RB_RED ?s"
    using z ne by (simp add: rb_insert_rot_left_def zip_at_def Let_def)
  have any: "tree_any (rb_mem s) b" using z by (auto simp: zip_at_def intro: tree_anyI)
  have 1: "ctx_at (rb_mem ?s) C g" "rb_root ?s = croot C g" "distinct (nodes ?t @ cnodes C)" "g \<noteq> 0"
    "g \<in> set (nodes ?t)" "tptr ?t = p" "p \<noteq> g" "?t \<noteq> Tip" "rb_parent_color (rb_mem ?s g) = pack (cptr C) gc"
    using z by (auto simp: zip_at_def)
  have "tree_at ((rb_mem ?s)(p := (rb_mem ?s p)\<lparr>rb_parent_color := pack (cptr C) gc\<rparr>,
      g := (rb_mem ?s g)\<lparr>rb_parent_color := or p RB_RED\<rparr>)) (cptr C) ?t"
    using z b any by (auto simp: zip_at_def)
  note r = rotate_zip[OF 1 this]
  have "unchanged (set (nodes ?t) \<union> set (cnodes C)) s ?s"
    by (auto simp: unchanged_def)
  with r show ?thesis unfolding eq unchanged_def by auto
qed

lemma rot_left_inner:
  assumes z: "zip_at s C (Nd (Nd a p Red (Nd b n Red d)) g gc u)" and b: "is_black b" "is_black d"
  shows "zip_at (rb_insert_rot_left n p g s) C (Nd (Nd a p Red b) n gc (Nd d g Red u)) \<and>
    unchanged (set (nodes (Nd (Nd a p Red b) n gc (Nd d g Red u))) \<union> set (cnodes C)) s (rb_insert_rot_left n p g s)"
proof -
  let ?t = "Nd (Nd a p Red b) n gc (Nd d g Red u)"
  let ?s1 = "rb_set_parent_color p n RB_RED (set_pc_if (tptr b) p RB_BLACK (upd_left n p (upd_right p (tptr b) s)))"
  let ?s = "set_pc_if (tptr d) g RB_BLACK (upd_right n g (upd_left g (tptr d) ?s1))"
  have "rb_right (rb_mem ?s1 n) = tptr d" using z by (auto simp: rb_set_parent_color_def zip_at_def)
  then have eq: "rb_insert_rot_left n p g s = rb_rotate_set_parents g n RB_RED ?s"
    using z by (simp add: rb_insert_rot_left_def zip_at_def Let_def)
  have any: "tree_any (rb_mem s) b" "tree_any (rb_mem s) d" using z by (auto simp: zip_at_def intro: tree_anyI)
  have 1: "ctx_at (rb_mem ?s) C g" "rb_root ?s = croot C g" "distinct (nodes ?t @ cnodes C)" "g \<noteq> 0"
    "g \<in> set (nodes ?t)" "tptr ?t = n" "n \<noteq> g" "?t \<noteq> Tip" "rb_parent_color (rb_mem ?s g) = pack (cptr C) gc"
    using z by (auto simp: rb_set_parent_color_def zip_at_def)
  have "tree_at ((rb_mem ?s)(n := (rb_mem ?s n)\<lparr>rb_parent_color := pack (cptr C) gc\<rparr>,
      g := (rb_mem ?s g)\<lparr>rb_parent_color := or n RB_RED\<rparr>)) (cptr C) ?t"
    using z b any by (auto simp: rb_set_parent_color_def zip_at_def)
  note r = rotate_zip[OF 1 this]
  have "unchanged (set (nodes ?t) \<union> set (cnodes C)) s ?s"
    by (auto simp: unchanged_def rb_set_parent_color_def)
  with r show ?thesis unfolding eq unchanged_def by auto
qed

lemma rot_right_outer:
  assumes z: "zip_at s C (Nd u g gc (Nd b p Red a))" and a: "a \<noteq> Tip" and b: "is_black b"
  shows "zip_at (rb_insert_rot_right (tptr a) p g s) C (Nd (Nd u g Red b) p gc a) \<and>
    unchanged (set (nodes (Nd (Nd u g Red b) p gc a)) \<union> set (cnodes C)) s (rb_insert_rot_right (tptr a) p g s)"
proof -
  let ?t = "Nd (Nd u g Red b) p gc a"
  have ne: "tptr a \<noteq> tptr b" using z a by (intro tptr_neq) (auto simp: zip_at_def)
  let ?s = "set_pc_if (tptr b) g RB_BLACK (upd_left p g (upd_right g (tptr b) s))"
  have eq: "rb_insert_rot_right (tptr a) p g s = rb_rotate_set_parents g p RB_RED ?s"
    using z ne by (simp add: rb_insert_rot_right_def zip_at_def Let_def)
  have any: "tree_any (rb_mem s) b" using z by (auto simp: zip_at_def intro: tree_anyI)
  have 1: "ctx_at (rb_mem ?s) C g" "rb_root ?s = croot C g" "distinct (nodes ?t @ cnodes C)" "g \<noteq> 0"
    "g \<in> set (nodes ?t)" "tptr ?t = p" "p \<noteq> g" "?t \<noteq> Tip" "rb_parent_color (rb_mem ?s g) = pack (cptr C) gc"
    using z by (auto simp: zip_at_def)
  have "tree_at ((rb_mem ?s)(p := (rb_mem ?s p)\<lparr>rb_parent_color := pack (cptr C) gc\<rparr>,
      g := (rb_mem ?s g)\<lparr>rb_parent_color := or p RB_RED\<rparr>)) (cptr C) ?t"
    using z b any by (auto simp: zip_at_def)
  note r = rotate_zip[OF 1 this]
  have "unchanged (set (nodes ?t) \<union> set (cnodes C)) s ?s"
    by (auto simp: unchanged_def)
  with r show ?thesis unfolding eq unchanged_def by auto
qed

lemma rot_right_inner:
  assumes z: "zip_at s C (Nd u g gc (Nd (Nd d n Red b) p Red a))" and b: "is_black b" "is_black d"
  shows "zip_at (rb_insert_rot_right n p g s) C (Nd (Nd u g Red d) n gc (Nd b p Red a)) \<and>
    unchanged (set (nodes (Nd (Nd u g Red d) n gc (Nd b p Red a))) \<union> set (cnodes C)) s (rb_insert_rot_right n p g s)"
proof -
  let ?t = "Nd (Nd u g Red d) n gc (Nd b p Red a)"
  let ?s1 = "rb_set_parent_color p n RB_RED (set_pc_if (tptr b) p RB_BLACK (upd_right n p (upd_left p (tptr b) s)))"
  let ?s = "set_pc_if (tptr d) g RB_BLACK (upd_left n g (upd_right g (tptr d) ?s1))"
  have "rb_left (rb_mem ?s1 n) = tptr d" using z by (auto simp: rb_set_parent_color_def zip_at_def)
  then have eq: "rb_insert_rot_right n p g s = rb_rotate_set_parents g n RB_RED ?s"
    using z by (simp add: rb_insert_rot_right_def zip_at_def Let_def)
  have any: "tree_any (rb_mem s) b" "tree_any (rb_mem s) d" using z by (auto simp: zip_at_def intro: tree_anyI)
  have 1: "ctx_at (rb_mem ?s) C g" "rb_root ?s = croot C g" "distinct (nodes ?t @ cnodes C)" "g \<noteq> 0"
    "g \<in> set (nodes ?t)" "tptr ?t = n" "n \<noteq> g" "?t \<noteq> Tip" "rb_parent_color (rb_mem ?s g) = pack (cptr C) gc"
    using z by (auto simp: rb_set_parent_color_def zip_at_def)
  have "tree_at ((rb_mem ?s)(n := (rb_mem ?s n)\<lparr>rb_parent_color := pack (cptr C) gc\<rparr>,
      g := (rb_mem ?s g)\<lparr>rb_parent_color := or n RB_RED\<rparr>)) (cptr C) ?t"
    using z b any by (auto simp: rb_set_parent_color_def zip_at_def)
  note r = rotate_zip[OF 1 this]
  have "unchanged (set (nodes ?t) \<union> set (cnodes C)) s ?s"
    by (auto simp: unchanged_def rb_set_parent_color_def)
  with r show ?thesis unfolding eq unchanged_def by auto
qed

lemma flip_left:
  assumes z: "zip_at s C (Nd (Nd a p Red b) g gc (Nd ul u Red ur))"
  shows "\<exists>s'. rb_insert_flip u p g s = (cptr C, s') \<and>
    zip_at s' C (Nd (Nd a p Black b) g Red (Nd ul u Black ur)) \<and>
    unchanged (set (nodes (Nd (Nd a p Black b) g Red (Nd ul u Black ur))) \<union> set (cnodes C)) s s'"
  using z cptr_aligned[of "rb_mem s" C g]
  by (auto simp: rb_insert_flip_def rb_parent_def rb_set_parent_color_def zip_at_def unchanged_def Let_def)

lemma flip_right:
  assumes z: "zip_at s C (Nd (Nd ul u Red ur) g gc (Nd a p Red b))"
  shows "\<exists>s'. rb_insert_flip u p g s = (cptr C, s') \<and>
    zip_at s' C (Nd (Nd ul u Black ur) g Red (Nd a p Black b)) \<and>
    unchanged (set (nodes (Nd (Nd ul u Black ur) g Red (Nd a p Black b))) \<union> set (cnodes C)) s s'"
  using z cptr_aligned[of "rb_mem s" C g]
  by (auto simp: rb_insert_flip_def rb_parent_def rb_set_parent_color_def zip_at_def unchanged_def Let_def)

section \<open>Insertion on trees\<close>

fun paint :: "color \<Rightarrow> rtree \<Rightarrow> rtree" where
  "paint c Tip = Tip"
| "paint c (Nd l p _ r) = Nd l p c r"

text \<open>
  The repair after an insertion, on the path to the root: \<open>ins_fix C t\<close> is the tree that
  \<^verbatim>\<open>__rb_insert\<close> makes of the red tree \<open>t\<close> in the context \<open>C\<close>.
\<close>

fun crumb_black :: "crumb \<Rightarrow> bool" where
  "crumb_black (CL p c r) \<longleftrightarrow> c = Black"
| "crumb_black (CR l p c) \<longleftrightarrow> c = Black"

fun sibling :: "crumb \<Rightarrow> rtree" where
  "sibling (CL p c r) = r"
| "sibling (CR l p c) = l"

fun ins_rot :: "crumb \<Rightarrow> crumb \<Rightarrow> rtree \<Rightarrow> rtree" where
  "ins_rot (CL p _ b) (CL g gc u) t = Nd t p gc (Nd b g Red u)"
| "ins_rot (CR b p _) (CR u g gc) t = Nd (Nd u g Red b) p gc t"
| "ins_rot (CR a p _) (CL g gc u) (Nd b n c d) = Nd (Nd a p Red b) n gc (Nd d g Red u)"
| "ins_rot (CL p _ a) (CR u g gc) (Nd d n c b) = Nd (Nd u g Red d) n gc (Nd b p Red a)"
| "ins_rot _ _ Tip = Tip"

fun ins_flip :: "crumb \<Rightarrow> crumb \<Rightarrow> rtree \<Rightarrow> rtree" where
  "ins_flip (CL p _ b) (CL g _ u) t = Nd (Nd t p Black b) g Red (paint Black u)"
| "ins_flip (CR b p _) (CL g _ u) t = Nd (Nd b p Black t) g Red (paint Black u)"
| "ins_flip (CL p _ b) (CR u g _) t = Nd (paint Black u) g Red (Nd t p Black b)"
| "ins_flip (CR b p _) (CR u g _) t = Nd (paint Black u) g Red (Nd b p Black t)"

fun ins_fix :: "crumb list \<Rightarrow> rtree \<Rightarrow> rtree" where
  "ins_fix [] t = paint Black t"
| "ins_fix [x] t = plug [x] t"
| "ins_fix (x # y # C) t =
     (if crumb_black x then plug (x # y # C) t
      else if is_black (sibling y) then plug C (ins_rot x y t)
      else ins_fix C (ins_flip x y t))"

text \<open>
  Well-formed trees: no red node has a red child and every path has \<open>n\<close> black nodes;
  and contexts in which such a tree of black height \<open>n\<close> can stand.
\<close>

fun rbt_ok :: "nat \<Rightarrow> rtree \<Rightarrow> bool" where
  "rbt_ok n Tip \<longleftrightarrow> n = 0"
| "rbt_ok n (Nd l p Red r) \<longleftrightarrow> rbt_ok n l \<and> rbt_ok n r \<and> is_black l \<and> is_black r"
| "rbt_ok n (Nd l p Black r) \<longleftrightarrow> (\<exists>k. n = Suc k \<and> rbt_ok k l \<and> rbt_ok k r)"

definition ctx_black :: "crumb list \<Rightarrow> bool" where
  "ctx_black C \<longleftrightarrow> (case C of [] \<Rightarrow> False | x # _ \<Rightarrow> crumb_black x)"

fun ctx_ok :: "nat \<Rightarrow> crumb list \<Rightarrow> bool" where
  "ctx_ok n [] \<longleftrightarrow> True"
| "ctx_ok n (x # C) \<longleftrightarrow> rbt_ok n (sibling x) \<and>
     (if crumb_black x then ctx_ok (Suc n) C else is_black (sibling x) \<and> ctx_black C \<and> ctx_ok n C)"

definition rbt :: "rtree \<Rightarrow> bool" where
  "rbt t \<longleftrightarrow> is_black t \<and> (\<exists>n. rbt_ok n t)"

lemma ctx_black_simps [simp]: "\<not> ctx_black []" "ctx_black (x # C) \<longleftrightarrow> crumb_black x"
  by (simp_all add: ctx_black_def)

lemma rbt_ok_Nd: "rbt_ok n (Nd l p c r) \<longleftrightarrow> (if c = Black then n \<noteq> 0 \<and> rbt_ok (n - 1) l \<and> rbt_ok (n - 1) r
    else rbt_ok n l \<and> rbt_ok n r \<and> is_black l \<and> is_black r)"
  by (cases c; cases n) auto

lemma plug_Cons: "plug (x # C) t = plug C (plug [x] t)"
  by (cases x) simp_all

lemma rbt_plug:
  assumes "ctx_ok n C" and "rbt_ok n t" and "is_black t \<or> ctx_black C"
  shows "rbt (plug C t)"
  using assms
proof (induction C arbitrary: n t)
  case (Cons x C)
  show ?case
  proof (cases "crumb_black x")
    case True
    then have "rbt_ok (Suc n) (plug [x] t)" "is_black (plug [x] t)" using Cons.prems by (cases x; auto)+
    then show ?thesis using Cons True by (subst plug_Cons) auto
  next
    case False
    then have "rbt_ok n (plug [x] t)" using Cons.prems by (cases x; simp add: rbt_ok_Nd)
    then show ?thesis using Cons False by (subst plug_Cons) auto
  qed
qed (auto simp: rbt_def)

lemma rbt_ok_paint: "rbt_ok n t \<Longrightarrow> \<not> is_black t \<Longrightarrow> rbt_ok (Suc n) (paint Black t)"
  by (cases "(n, t)" rule: rbt_ok.cases) auto

lemma is_black_paint [simp]: "is_black (paint Black t)"
  by (cases t) auto

lemma nodes_paint [simp]: "nodes (paint c t) = nodes t"
  by (cases t) auto

lemma nodes_plug: "nodes t = nodes t' \<Longrightarrow> nodes (plug C t) = nodes (plug C t')"
  by (induction C t arbitrary: t' rule: plug.induct) auto

lemma ins_step_nodes:
  "t \<noteq> Tip \<Longrightarrow> nodes (ins_rot x y t) = nodes (plug [x, y] t)" "nodes (ins_flip x y t) = nodes (plug [x, y] t)"
  by (cases x; cases y; cases t; simp)+

lemma ins_flip_not_Tip [simp]: "ins_flip x y t \<noteq> Tip"
  by (cases x; cases y; simp)

lemma plug_Cons2: "plug (x # y # C) t = plug C (plug [x, y] t)"
  by (cases x; cases y) auto

lemma ins_fix_nodes: "t \<noteq> Tip \<Longrightarrow> nodes (ins_fix C t) = nodes (plug C t)"
proof (induction C t rule: ins_fix.induct)
  case (3 x y C t)
  note plug_Cons2[of x y C t]
  with 3 show ?case using nodes_plug[OF ins_step_nodes(1)[OF 3(2)], of C x y]
      nodes_plug[OF ins_step_nodes(2), of C x y t] by auto
qed auto

lemma ins_step_ok:
  assumes "ctx_ok n (x # y # C)" and "rbt_ok n t" and "\<not> is_black t" and "\<not> crumb_black x"
  shows "is_black (sibling y) \<Longrightarrow> rbt_ok (Suc n) (ins_rot x y t) \<and> is_black (ins_rot x y t) \<and> ctx_ok (Suc n) C"
    and "\<not> is_black (sibling y) \<Longrightarrow> rbt_ok (Suc n) (ins_flip x y t) \<and> \<not> is_black (ins_flip x y t) \<and> ctx_ok (Suc n) C"
  using assms
  by (cases x; cases y; cases t; auto simp: rbt_ok_Nd rbt_ok_paint split: if_splits)+

lemma ins_fix_rbt:
  assumes "ctx_ok n C" and "rbt_ok n t" and "\<not> is_black t"
  shows "rbt (ins_fix C t)"
  using assms
proof (induction C t arbitrary: n rule: ins_fix.induct)
  case (1 t)
  then show ?case using rbt_ok_paint by (auto simp: rbt_def)
next
  case (2 x t)
  then show ?case using rbt_plug[of n "[x]" t] by (auto split: if_splits)
next
  case (3 x y C t)
  show ?case
  proof (cases "crumb_black x")
    case True
    then show ?thesis using 3 rbt_plug[of n "x # y # C" t] by auto
  next
    case False
    then show ?thesis using 3(1)[of "Suc n"] ins_step_ok[OF 3(2,3,4) False] rbt_plug[of "Suc n" C] by auto
  qed
qed

section \<open>The insertion loop\<close>

lemmas rb_read = rb_is_black_def rb_is_red_def rb_color_def rb_red_parent_def rb_parent_def

lemma tptr_red_at: "tree_at m par t \<Longrightarrow> 4 dvd par \<Longrightarrow>
    (tptr t \<noteq> 0 \<and> pc_color (rb_parent_color (m (tptr t))) = 0) \<longleftrightarrow> \<not> is_black t"
  by (cases t) (auto split: color.splits)

lemma insert_step_rot:
  assumes "zip_at s (x # y # C) t" and "\<not> crumb_black x" and "rbt_ok n t" and "\<not> is_black t"
    and "is_black (sibling x)" and "is_black (sibling y)"
  shows "\<exists>s'. rb_insert_loop (tptr t) (cptr (x # y # C)) s = Some s' \<and> zip_at s' C (ins_rot x y t) \<and>
    unchanged (set (nodes (plug [x, y] t)) \<union> set (cnodes C)) s s'"
proof -
  obtain a n b where t: "t = Nd a n Red b" "is_black a" "is_black b"
    using assms(3,4) by (cases t) (auto simp: rbt_ok_Nd split: if_splits color.splits)
  show ?thesis
  proof (cases x)
    case x: (CL p c r)
    show ?thesis
    proof (cases y)
      case y: (CL g gc u)
      have z: "zip_at s C (Nd (Nd t p Red r) g gc u)"
        using assms(1,2) x y by (cases c) (auto simp: zip_at_CL)
      have "rb_insert_loop (tptr t) p s = Some (rb_insert_rot_left (tptr t) p g s)"
        using z assms(6) y tptr_red_at[of "rb_mem s" g u]
        by (subst rb_insert_loop.simps) (auto simp: zip_at_def rb_read Let_def)
      then show ?thesis using rot_left_outer[OF z] assms(5) x y t by auto
    next
      case y: (CR u g gc)
      have z: "zip_at s C (Nd u g gc (Nd t p Red r))"
        using assms(1,2) x y by (cases c) (auto simp: zip_at_CL zip_at_CR)
      have "rb_insert_loop (tptr t) p s = Some (rb_insert_rot_right (tptr t) p g s)"
        using z assms(6) y tptr_red_at[of "rb_mem s" g u]
        by (subst rb_insert_loop.simps) (auto simp: zip_at_def rb_read Let_def)
      then show ?thesis using rot_right_inner[OF z[unfolded t]] x y t by auto
    qed
  next
    case x: (CR r p c)
    show ?thesis
    proof (cases y)
      case y: (CL g gc u)
      have z: "zip_at s C (Nd (Nd r p Red t) g gc u)"
        using assms(1,2) x y by (cases c) (auto simp: zip_at_CL zip_at_CR)
      have "rb_insert_loop (tptr t) p s = Some (rb_insert_rot_left (tptr t) p g s)"
        using z assms(6) y tptr_red_at[of "rb_mem s" g u]
        by (subst rb_insert_loop.simps) (auto simp: zip_at_def rb_read Let_def)
      then show ?thesis using rot_left_inner[OF z[unfolded t]] x y t by auto
    next
      case y: (CR u g gc)
      have z: "zip_at s C (Nd u g gc (Nd r p Red t))"
        using assms(1,2) x y by (cases c) (auto simp: zip_at_CL zip_at_CR)
      have "rb_insert_loop (tptr t) p s = Some (rb_insert_rot_right (tptr t) p g s)"
        using z assms(6) y tptr_red_at[of "rb_mem s" g u]
        by (subst rb_insert_loop.simps) (auto simp: zip_at_def rb_read Let_def)
      then show ?thesis using rot_right_outer[OF z] assms(5) x y t by auto
    qed
  qed
qed

lemma insert_step_flip:
  assumes "zip_at s (x # y # C) t" and "\<not> crumb_black x" and "\<not> is_black t" and "\<not> is_black (sibling y)"
  shows "\<exists>s'. rb_insert_loop (tptr t) (cptr (x # y # C)) s = rb_insert_loop (tptr (ins_flip x y t)) (cptr C) s' \<and>
    zip_at s' C (ins_flip x y t) \<and> unchanged (set (nodes (plug [x, y] t)) \<union> set (cnodes C)) s s'"
proof -
  obtain ul u ur where u: "sibling y = Nd ul u Red ur" using assms(4) by (cases "sibling y") auto
  show ?thesis
  proof (cases y)
    case y: (CL g gc v)
    obtain a p b where z: "zip_at s C (Nd (Nd a p Red b) g gc (Nd ul u Red ur))" "cptr (x # y # C) = p"
      "ins_flip x y t = Nd (Nd a p Black b) g Red (Nd ul u Black ur)"
      "nodes (plug [x, y] t) = nodes (Nd (Nd a p Black b) g Red (Nd ul u Black ur))"
      using assms(1,2) y u by (cases x) (auto simp: zip_at_CL zip_at_CR)
    obtain s' where s': "rb_insert_flip u p g s = (cptr C, s')"
      "zip_at s' C (Nd (Nd a p Black b) g Red (Nd ul u Black ur))"
      "unchanged (set (nodes (Nd (Nd a p Black b) g Red (Nd ul u Black ur))) \<union> set (cnodes C)) s s'"
      using flip_left[OF z(1)] by blast
    have "rb_insert_loop (tptr t) p s = rb_insert_loop g (cptr C) s'"
      using z(1) s'(1) by (subst rb_insert_loop.simps) (auto simp: zip_at_def rb_read Let_def)
    then show ?thesis using s' z(2-4) by auto
  next
    case y: (CR v g gc)
    obtain a p b where z: "zip_at s C (Nd (Nd ul u Red ur) g gc (Nd a p Red b))" "cptr (x # y # C) = p"
      "ins_flip x y t = Nd (Nd ul u Black ur) g Red (Nd a p Black b)"
      "nodes (plug [x, y] t) = nodes (Nd (Nd ul u Black ur) g Red (Nd a p Black b))"
      using assms(1,2) y u by (cases x) (auto simp: zip_at_CL zip_at_CR)
    obtain s' where s': "rb_insert_flip u p g s = (cptr C, s')"
      "zip_at s' C (Nd (Nd ul u Black ur) g Red (Nd a p Black b))"
      "unchanged (set (nodes (Nd (Nd ul u Black ur) g Red (Nd a p Black b))) \<union> set (cnodes C)) s s'"
      using flip_right[OF z(1)] by blast
    have "rb_insert_loop (tptr t) p s = rb_insert_loop g (cptr C) s'"
      using z(1) s'(1) by (subst rb_insert_loop.simps) (auto simp: zip_at_def rb_read Let_def)
    then show ?thesis using s' z(2-4) by auto
  qed
qed

lemma set_nodes_plug2: "set (nodes (plug (x # y # C) t)) = set (nodes (plug [x, y] t)) \<union> set (cnodes C)"
  by (cases x; cases y) (auto simp: set_nodes_plug)

lemma insert_loop_black:
  assumes "zip_at s (x # C) t" and "crumb_black x"
  shows "rb_insert_loop (tptr t) (cptr (x # C)) s = Some s"
  using assms cptr_aligned[of "rb_mem s" C] by (subst rb_insert_loop.simps) (cases x; auto simp: zip_at_def rb_read)

lemma insert_loop_refines:
  assumes "zip_at s C t" and "ctx_ok n C" and "rbt_ok n t" and "\<not> is_black t"
  shows "\<exists>s'. rb_insert_loop (tptr t) (cptr C) s = Some s' \<and> rb_at s' (ins_fix C t) \<and>
    unchanged (set (nodes (plug C t))) s s'"
  using assms
proof (induction C t arbitrary: n s rule: ins_fix.induct)
  case (1 t)
  then show ?case by (subst rb_insert_loop.simps; cases t)
      (auto simp: zip_at_def rb_at_def rb_set_parent_color_def unchanged_def pack_def RB_BLACK_def)
next
  case (2 x t)
  then have "crumb_black x" "rb_at s (plug [x] t)" by (auto simp: zip_at_plug split: if_splits)
  then show ?case using insert_loop_black[OF 2(1)] by (simp add: unchanged_def)
next
  case (3 x y C t)
  note zz = 3(2) 3(3) 3(4) 3(5)
  show ?case
  proof (cases "crumb_black x")
    case True
    have "rb_at s (plug (x # y # C) t)" using zz(1) by (simp only: zip_at_plug)
    then show ?thesis using insert_loop_black[OF zz(1) True] True by (simp add: unchanged_def)
  next
    case x: False
    show ?thesis
    proof (cases "is_black (sibling y)")
      case True
      obtain s' where s': "rb_insert_loop (tptr t) (cptr (x # y # C)) s = Some s'" "zip_at s' C (ins_rot x y t)"
        "unchanged (set (nodes (plug [x, y] t)) \<union> set (cnodes C)) s s'"
        using insert_step_rot[OF zz(1) x zz(3,4) _ True] zz(2) x by auto
      then show ?thesis using x True
        by (intro exI[of _ s']) (simp add: zip_at_plug set_nodes_plug2[of x y C t])
    next
      case False
      obtain s1 where s1: "rb_insert_loop (tptr t) (cptr (x # y # C)) s =
          rb_insert_loop (tptr (ins_flip x y t)) (cptr C) s1" "zip_at s1 C (ins_flip x y t)"
        "unchanged (set (nodes (plug [x, y] t)) \<union> set (cnodes C)) s s1"
        using insert_step_flip[OF zz(1) x zz(4) False] by blast
      note ok = ins_step_ok(2)[OF zz(2,3,4) x False]
      obtain s' where s': "rb_insert_loop (tptr (ins_flip x y t)) (cptr C) s1 = Some s'"
        "rb_at s' (ins_fix C (ins_flip x y t))" "unchanged (set (nodes (plug C (ins_flip x y t)))) s1 s'"
        using 3(1)[OF x False s1(2), of "Suc n"] ok by blast
      have "set (nodes (plug C (ins_flip x y t))) = set (nodes (plug (x # y # C) t))"
        using nodes_plug[OF ins_step_nodes(2), of C x y t] plug_Cons2[of x y C t] by simp
      then show ?thesis using s' s1 x False unchanged_trans[of _ s s1 s']
        by (intro exI[of _ s']) (simp add: set_nodes_plug2[of x y C t])
    qed
  qed
qed

section \<open>Insertion with a comparison callback\<close>

fun clink :: "crumb list \<Rightarrow> rb_link" where
  "clink [] = Link_root"
| "clink (CL p c r # C) = Link_left p"
| "clink (CR l p c # C) = Link_right p"

fun cleft :: "crumb list \<Rightarrow> nat list" where
  "cleft [] = []"
| "cleft (CL p c r # C) = cleft C"
| "cleft (CR l p c # C) = cleft C @ nodes l @ [p]"

fun cright :: "crumb list \<Rightarrow> nat list" where
  "cright [] = []"
| "cright (CL p c r # C) = p # nodes r @ cright C"
| "cright (CR l p c # C) = cright C"

lemma nodes_plug_eq: "nodes (plug C t) = cleft C @ nodes t @ cright C"
  by (induction C t rule: plug.induct) auto

fun ins_path :: "(nat \<Rightarrow> int) \<Rightarrow> rtree \<Rightarrow> crumb list \<Rightarrow> crumb list option" where
  "ins_path cb Tip C = Some C"
| "ins_path cb (Nd l p c r) C =
     (if cb p = -1 then ins_path cb l (CL p c r # C)
      else if cb p = 1 then ins_path cb r (CR l p c # C) else None)"

lemma link_get_zip: "zip_at s C t \<Longrightarrow> link_get s (clink C) = tptr t"
  by (cases C rule: clink.cases) (auto simp: zip_at_def)

lemma rb_insert_walk_refines:
  assumes "zip_at s C t" and "\<forall>p \<in> set (nodes t). cb p \<in> {-1, 0, 1}"
  shows "rb_insert_walk cb s (clink C) (cptr C) = Some (map_option (\<lambda>C'. (clink C', cptr C')) (ins_path cb t C))"
  using assms
proof (induction cb t C rule: ins_path.induct)
  case (1 cb C)
  then show ?case using link_get_zip[OF 1(1)] by (subst rb_insert_walk.simps) simp
next
  case (2 cb l p c r C)
  then have "p \<noteq> 0" by (auto simp: zip_at_def)
  with 2 show ?case using link_get_zip[OF 2(3)]
    by (subst rb_insert_walk.simps) (auto simp: Let_def zip_at_CL zip_at_CR)
qed

lemma ins_path_zip: "ins_path cb t C = Some C' \<Longrightarrow> zip_at s C t \<Longrightarrow> zip_at s C' Tip"
  by (induction cb t C rule: ins_path.induct) (auto simp: zip_at_CL zip_at_CR split: if_splits)

lemma ins_path_plug: "ins_path cb t C = Some C' \<Longrightarrow> plug C' Tip = plug C t"
  by (induction cb t C rule: ins_path.induct) (auto split: if_splits)

lemma ins_path_ok:
  assumes "ins_path cb t C = Some C'" and "rbt_ok n t" and "ctx_ok n C" and "is_black t \<or> ctx_black C"
  shows "ctx_ok 0 C'"
  using assms by (induction cb t C arbitrary: n rule: ins_path.induct) (auto simp: rbt_ok_Nd split: if_splits)

text \<open>A callback is monotone on a tree when it answers 1, then 0, then -1 from left to right.\<close>

definition cb_mono :: "(nat \<Rightarrow> int) \<Rightarrow> nat list \<Rightarrow> bool" where
  "cb_mono cb ps \<longleftrightarrow> (\<forall>p \<in> set ps. cb p \<in> {-1, 0, 1}) \<and> sorted_wrt (\<lambda>p q. cb q \<le> cb p) ps"

lemma cb_mono_NdD:
  assumes "cb_mono cb (nodes (Nd l p c r))"
  shows "cb_mono cb (nodes l)" "cb_mono cb (nodes r)" "cb p \<in> {-1, 0, 1}"
    "\<forall>q \<in> set (nodes l). cb p \<le> cb q \<and> cb q \<in> {-1, 0, 1}" "\<forall>q \<in> set (nodes r). cb q \<le> cb p \<and> cb q \<in> {-1, 0, 1}"
  using assms by (simp_all add: cb_mono_def sorted_wrt_append)

lemma ins_path_None:
  assumes "cb_mono cb (nodes t)"
  shows "ins_path cb t C = None \<longleftrightarrow> (\<exists>p \<in> set (nodes t). cb p = 0)"
  using assms
proof (induction cb t C rule: ins_path.induct)
  case (2 cb l p c r C)
  note m = cb_mono_NdD[OF 2(3)]
  show ?case using 2(1)[OF _ m(1)] 2(2)[OF _ _ m(2)] m(3-5) by fastforce
qed simp

lemma ins_path_Some:
  assumes "cb_mono cb (nodes t)" and "ins_path cb t C = Some C'"
  shows "cleft C' = cleft C @ filter (\<lambda>p. cb p = 1) (nodes t) \<and>
    cright C' = filter (\<lambda>p. cb p = -1) (nodes t) @ cright C"
  using assms
proof (induction cb t C rule: ins_path.induct)
  case (2 cb l p c r C)
  note m = cb_mono_NdD[OF 2(3)]
  have f: "filter (\<lambda>p. cb p = 1) (nodes l) = nodes l" "filter (\<lambda>p. cb p = -1) (nodes l) = []" if "cb p = 1"
    using m(4) that by (auto simp: filter_empty_conv intro!: filter_True)
  have g: "filter (\<lambda>p. cb p = -1) (nodes r) = nodes r" "filter (\<lambda>p. cb p = 1) (nodes r) = []" if "cb p = -1"
    using m(5) that by (auto simp: filter_empty_conv intro!: filter_True)
  from 2(1)[OF _ m(1)] 2(2)[OF _ _ m(2)] 2(4) f g show ?case by (auto split: if_splits)
qed simp

lemma rb_link_node_zip:
  assumes "zip_at s C Tip" and "node \<notin> set (cnodes C)" and "node \<noteq> 0" and "4 dvd node"
  shows "zip_at (rb_link_node node (cptr C) (clink C) s) C (Nd Tip node Red Tip)"
    and "unchanged (set (cnodes C) \<union> {node}) s (rb_link_node node (cptr C) (clink C) s)"
  using assms by (cases C rule: clink.cases; auto simp: zip_at_def rb_link_node_def unchanged_def)+

lemma rb_insert_refines:
  assumes t: "rb_at s t" "rbt t" and node: "node \<notin> set (nodes t)" "node \<noteq> 0" "4 dvd node"
    and cb: "cb_mono cb (nodes t)"
  shows "(\<exists>p \<in> set (nodes t). cb p = 0) \<Longrightarrow> rb_insert node cb s = Some (False, s)"
    and "\<not> (\<exists>p \<in> set (nodes t). cb p = 0) \<Longrightarrow> \<exists>s' t'. rb_insert node cb s = Some (True, s') \<and> rb_at s' t' \<and> rbt t' \<and>
      nodes t' = filter (\<lambda>p. cb p = 1) (nodes t) @ node # filter (\<lambda>p. cb p = -1) (nodes t) \<and>
      unchanged (set (nodes t')) s s'"
proof -
  have z: "zip_at s [] t" using t(1) by (simp add: rb_at_def)
  have "\<forall>p \<in> set (nodes t). cb p \<in> {-1, 0, 1}" using cb by (simp add: cb_mono_def)
  note w = rb_insert_walk_refines[OF z this]
  show "(\<exists>p \<in> set (nodes t). cb p = 0) \<Longrightarrow> rb_insert node cb s = Some (False, s)"
    using w ins_path_None[OF cb, of "[]"] by (simp add: rb_insert_def)
  assume "\<not> (\<exists>p \<in> set (nodes t). cb p = 0)"
  then obtain C where C: "ins_path cb t [] = Some C" using ins_path_None[OF cb, of "[]"] by blast
  let ?n = "Nd Tip node Red Tip" and ?s = "rb_link_node node (cptr C) (clink C) s"
  have zc: "zip_at s C Tip" using ins_path_zip[OF C z] .
  have ns: "nodes (plug C ?n) = filter (\<lambda>p. cb p = 1) (nodes t) @ node # filter (\<lambda>p. cb p = -1) (nodes t)"
    using ins_path_Some[OF cb C] by (simp add: nodes_plug_eq)
  have "set (nodes (plug C ?n)) = set (cnodes C) \<union> {node}" by (auto simp: set_nodes_plug)
  moreover have "nodes (plug C Tip) = nodes t" using ins_path_plug[OF C] by simp
  ultimately have nc: "node \<notin> set (cnodes C)" "set (nodes (plug C ?n)) = set (cnodes C) \<union> {node}"
    using node(1) set_nodes_plug[of C Tip] by auto
  have ok: "ctx_ok 0 C" using t(2) ins_path_ok[OF C] by (auto simp: rbt_def)
  note l = rb_link_node_zip[OF zc nc(1) node(2,3)]
  obtain s' where s': "rb_insert_loop node (cptr C) ?s = Some s'" "rb_at s' (ins_fix C ?n)"
    "unchanged (set (nodes (plug C ?n))) ?s s'"
    using insert_loop_refines[OF l(1) ok] by auto
  have "rb_red_parent ?s node = cptr C" using l(1) by (simp add: zip_at_def rb_red_parent_def)
  then have "rb_insert node cb s = Some (True, s')" using w C s'(1) by (simp add: rb_insert_def rb_insert_color_def)
  moreover have "unchanged (set (nodes (plug C ?n))) s s'"
    using unchanged_trans[OF _ s'(3)] l(2) nc(2) by simp
  ultimately show "\<exists>s' t'. rb_insert node cb s = Some (True, s') \<and> rb_at s' t' \<and> rbt t' \<and>
      nodes t' = filter (\<lambda>p. cb p = 1) (nodes t) @ node # filter (\<lambda>p. cb p = -1) (nodes t) \<and>
      unchanged (set (nodes t')) s s'"
    using s'(2) ins_fix_rbt[OF ok, of ?n] ns ins_fix_nodes[of ?n C]
    by (intro exI[of _ s'] exI[of _ "ins_fix C ?n"]) simp
qed

end
