(* ===== verification/Rbtree_Erase.thy ===== *)
theory Rbtree_Erase
  imports Rbtree_Insert
begin

text \<open>
  Erasure from the red-black trees of \<^verbatim>\<open>kernel/lib/rbtree.cpp\<close>: the unlinking of
  \<^verbatim>\<open>__rb_erase_augmented\<close> and the repair loop of \<^verbatim>\<open>____rb_erase_color\<close>.
\<close>

section \<open>The rotations of the repair loop\<close>

lemma set_parent_if_frame [simp]:
  "x \<notin> set (nodes t) \<Longrightarrow> rb_mem (set_parent_if (tptr t) g s) x = rb_mem s x"
  "rb_root (set_parent_if p g s) = rb_root s"
  by (cases t) (auto simp: set_parent_if_def rb_set_parent_def)

lemma set_parent_if_trees [simp]:
  "set (nodes t) \<inter> set (nodes t') = {} \<Longrightarrow>
    tree_at (rb_mem (set_parent_if (tptr t) g s)) par t' \<longleftrightarrow> tree_at (rb_mem s) par t'"
  "set (nodes t') \<inter> set (nodes t) = {} \<Longrightarrow>
    tree_at (rb_mem (set_parent_if (tptr t) g s)) par t' \<longleftrightarrow> tree_at (rb_mem s) par t'"
  "set (nodes t) \<inter> set (nodes t') = {} \<Longrightarrow>
    tree_any (rb_mem (set_parent_if (tptr t) g s)) t' \<longleftrightarrow> tree_any (rb_mem s) t'"
  "set (nodes t') \<inter> set (nodes t) = {} \<Longrightarrow>
    tree_any (rb_mem (set_parent_if (tptr t) g s)) t' \<longleftrightarrow> tree_any (rb_mem s) t'"
  "set (nodes t) \<inter> set (cnodes C) = {} \<Longrightarrow>
    ctx_at (rb_mem (set_parent_if (tptr t) g s)) C h \<longleftrightarrow> ctx_at (rb_mem s) C h"
  by (cases t; auto simp: set_parent_if_def rb_set_parent_def)+

lemma set_parent_if_tree [simp]:
  assumes "4 dvd g" and "distinct (nodes t)" and "tree_any (rb_mem s) t"
  shows "tree_at (rb_mem (set_parent_if (tptr t) g s)) g t"
proof (cases t)
  case (Nd l p c r)
  with assms show ?thesis
    by (cases c) (auto simp: tree_any_def set_parent_if_def rb_set_parent_def rb_color_def)
qed auto

lemma erase_case1_left:
  assumes z: "zip_at s C (Nd t p pc (Nd sl q Red sr))" and b: "is_black sl" "sl \<noteq> Tip"
  shows "\<exists>s'. rb_erase_case1_left p q s = (tptr sl, s') \<and> zip_at s' C (Nd (Nd t p Red sl) q pc sr) \<and>
    unchanged (set (nodes (Nd (Nd t p Red sl) q pc sr)) \<union> set (cnodes C)) s s'"
proof -
  let ?t = "Nd (Nd t p Red sl) q pc sr"
  let ?s = "set_pc_if (tptr sl) p RB_BLACK (upd_left q p (upd_right p (tptr sl) s))"
  have "tptr sl \<noteq> 0" using z b(2) by (cases sl) (auto simp: zip_at_def)
  then have eq: "rb_erase_case1_left p q s = (tptr sl, rb_rotate_set_parents p q RB_RED ?s)"
    using z by (simp add: rb_erase_case1_left_def zip_at_def Let_def rb_is_red_def rb_color_def set_pc_if_def)
  have any: "tree_any (rb_mem s) sl" using z by (auto simp: zip_at_def intro: tree_anyI)
  have 1: "ctx_at (rb_mem ?s) C p" "rb_root ?s = croot C p" "distinct (nodes ?t @ cnodes C)" "p \<noteq> 0"
    "p \<in> set (nodes ?t)" "tptr ?t = q" "q \<noteq> p" "?t \<noteq> Tip" "rb_parent_color (rb_mem ?s p) = pack (cptr C) pc"
    using z by (auto simp: zip_at_def)
  have "tree_at ((rb_mem ?s)(q := (rb_mem ?s q)\<lparr>rb_parent_color := pack (cptr C) pc\<rparr>,
      p := (rb_mem ?s p)\<lparr>rb_parent_color := or q RB_RED\<rparr>)) (cptr C) ?t"
    using z b any by (auto simp: zip_at_def)
  note r = rotate_zip[OF 1 this]
  have "unchanged (set (nodes ?t) \<union> set (cnodes C)) s ?s" by (auto simp: unchanged_def)
  with r show ?thesis unfolding eq unchanged_def by auto
qed

lemma erase_case2:
  assumes z: "zip_at s C (Nd t p c (Nd sl q qc sr))"
  shows "zip_at (rb_set_parent_color q p RB_RED s) C (Nd t p c (Nd sl q Red sr))"
    and "unchanged (set (nodes (Nd t p c (Nd sl q Red sr))) \<union> set (cnodes C)) s (rb_set_parent_color q p RB_RED s)"
  using z by (auto simp: zip_at_def rb_set_parent_color_def unchanged_def)

lemma erase_case2_mirror:
  assumes z: "zip_at s C (Nd (Nd sl q qc sr) p c t)"
  shows "zip_at (rb_set_parent_color q p RB_RED s) C (Nd (Nd sl q Red sr) p c t)"
    and "unchanged (set (nodes (Nd (Nd sl q Red sr) p c t)) \<union> set (cnodes C)) s (rb_set_parent_color q p RB_RED s)"
  using z by (auto simp: zip_at_def rb_set_parent_color_def unchanged_def)

lemma set_black_zip:
  assumes z: "zip_at s C (Nd l p c r)"
  shows "zip_at (rb_set_black p s) C (Nd l p Black r)"
    and "unchanged (set (nodes (Nd l p c r)) \<union> set (cnodes C)) s (rb_set_black p s)"
  using z cptr_aligned[of "rb_mem s" C p] by (auto simp: zip_at_def rb_set_black_def unchanged_def)

lemma erase_case34_left:
  assumes z: "zip_at s C (Nd t p c (Nd (Nd a m Red b) q Black sr))" and b: "is_black b"
  shows "\<exists>s'. rb_erase_case4_left p m q (rb_erase_case3_left p q m s) = s' \<and>
    zip_at s' C (Nd (Nd t p Black a) m c (Nd b q Black sr)) \<and>
    unchanged (set (nodes (Nd (Nd t p Black a) m c (Nd b q Black sr))) \<union> set (cnodes C)) s s'"
proof -
  let ?t = "Nd (Nd t p Black a) m c (Nd b q Black sr)"
  let ?s3 = "set_pc_if (tptr b) q RB_BLACK (upd_right p m (upd_right m q (upd_left q (tptr b) s)))"
  let ?s = "set_parent_if (tptr a) p (rb_set_parent_color q m RB_BLACK (upd_left m p (upd_right p (tptr a) ?s3)))"
  have "rb_left (rb_mem ?s3 m) = tptr a" using z by (auto simp: zip_at_def)
  then have eq: "rb_erase_case4_left p m q (rb_erase_case3_left p q m s) = rb_rotate_set_parents p m RB_BLACK ?s"
    using z by (simp add: rb_erase_case3_left_def rb_erase_case4_left_def zip_at_def Let_def)
  have any: "tree_any (rb_mem s) a" "tree_any (rb_mem s) b" using z by (auto simp: zip_at_def intro: tree_anyI)
  have 1: "ctx_at (rb_mem ?s) C p" "rb_root ?s = croot C p" "distinct (nodes ?t @ cnodes C)" "p \<noteq> 0"
    "p \<in> set (nodes ?t)" "tptr ?t = m" "m \<noteq> p" "?t \<noteq> Tip" "rb_parent_color (rb_mem ?s p) = pack (cptr C) c"
    using z by (auto simp: zip_at_def rb_set_parent_color_def)
  have "tree_at ((rb_mem ?s)(m := (rb_mem ?s m)\<lparr>rb_parent_color := pack (cptr C) c\<rparr>,
      p := (rb_mem ?s p)\<lparr>rb_parent_color := or m RB_BLACK\<rparr>)) (cptr C) ?t"
    using z b any by (auto simp: zip_at_def rb_set_parent_color_def)
  note r = rotate_zip[OF 1 this]
  have "unchanged (set (nodes ?t) \<union> set (cnodes C)) s ?s"
    by (auto simp: unchanged_def rb_set_parent_color_def)
  with r show ?thesis unfolding eq unchanged_def by auto
qed

lemma erase_case4_left:
  assumes z: "zip_at s C (Nd t p c (Nd sl q Black (Nd x r Red y)))"
  shows "\<exists>s'. rb_erase_case4_left p q r s = s' \<and> zip_at s' C (Nd (Nd t p Black sl) q c (Nd x r Black y)) \<and>
    unchanged (set (nodes (Nd (Nd t p Black sl) q c (Nd x r Black y))) \<union> set (cnodes C)) s s'"
proof -
  let ?t = "Nd (Nd t p Black sl) q c (Nd x r Black y)"
  let ?s = "set_parent_if (tptr sl) p (rb_set_parent_color r q RB_BLACK (upd_left q p (upd_right p (tptr sl) s)))"
  have eq: "rb_erase_case4_left p q r s = rb_rotate_set_parents p q RB_BLACK ?s"
    using z by (simp add: rb_erase_case4_left_def zip_at_def Let_def)
  have any: "tree_any (rb_mem s) sl" using z by (auto simp: zip_at_def intro: tree_anyI)
  have 1: "ctx_at (rb_mem ?s) C p" "rb_root ?s = croot C p" "distinct (nodes ?t @ cnodes C)" "p \<noteq> 0"
    "p \<in> set (nodes ?t)" "tptr ?t = q" "q \<noteq> p" "?t \<noteq> Tip" "rb_parent_color (rb_mem ?s p) = pack (cptr C) c"
    using z by (auto simp: zip_at_def rb_set_parent_color_def)
  have "tree_at ((rb_mem ?s)(q := (rb_mem ?s q)\<lparr>rb_parent_color := pack (cptr C) c\<rparr>,
      p := (rb_mem ?s p)\<lparr>rb_parent_color := or q RB_BLACK\<rparr>)) (cptr C) ?t"
    using z any by (auto simp: zip_at_def rb_set_parent_color_def)
  note r = rotate_zip[OF 1 this]
  have "unchanged (set (nodes ?t) \<union> set (cnodes C)) s ?s"
    by (auto simp: unchanged_def rb_set_parent_color_def)
  with r show ?thesis unfolding eq unchanged_def by auto
qed

lemma erase_case1_right:
  assumes z: "zip_at s C (Nd (Nd sl q Red sr) p pc t)" and b: "is_black sr" "sr \<noteq> Tip"
  shows "\<exists>s'. rb_erase_case1_right p q s = (tptr sr, s') \<and> zip_at s' C (Nd sl q pc (Nd sr p Red t)) \<and>
    unchanged (set (nodes (Nd sl q pc (Nd sr p Red t))) \<union> set (cnodes C)) s s'"
proof -
  let ?t = "Nd sl q pc (Nd sr p Red t)"
  let ?s = "set_pc_if (tptr sr) p RB_BLACK (upd_right q p (upd_left p (tptr sr) s))"
  have "tptr sr \<noteq> 0" using z b(2) by (cases sr) (auto simp: zip_at_def)
  then have eq: "rb_erase_case1_right p q s = (tptr sr, rb_rotate_set_parents p q RB_RED ?s)"
    using z by (simp add: rb_erase_case1_right_def zip_at_def Let_def rb_is_red_def rb_color_def set_pc_if_def)
  have any: "tree_any (rb_mem s) sr" using z by (auto simp: zip_at_def intro: tree_anyI)
  have 1: "ctx_at (rb_mem ?s) C p" "rb_root ?s = croot C p" "distinct (nodes ?t @ cnodes C)" "p \<noteq> 0"
    "p \<in> set (nodes ?t)" "tptr ?t = q" "q \<noteq> p" "?t \<noteq> Tip" "rb_parent_color (rb_mem ?s p) = pack (cptr C) pc"
    using z by (auto simp: zip_at_def)
  have "tree_at ((rb_mem ?s)(q := (rb_mem ?s q)\<lparr>rb_parent_color := pack (cptr C) pc\<rparr>,
      p := (rb_mem ?s p)\<lparr>rb_parent_color := or q RB_RED\<rparr>)) (cptr C) ?t"
    using z b any by (auto simp: zip_at_def)
  note r = rotate_zip[OF 1 this]
  have "unchanged (set (nodes ?t) \<union> set (cnodes C)) s ?s" by (auto simp: unchanged_def)
  with r show ?thesis unfolding eq unchanged_def by auto
qed

lemma erase_case34_right:
  assumes z: "zip_at s C (Nd (Nd sl q Black (Nd a m Red b)) p c t)" and b: "is_black a"
  shows "\<exists>s'. rb_erase_case4_right p m q (rb_erase_case3_right p q m s) = s' \<and>
    zip_at s' C (Nd (Nd sl q Black a) m c (Nd b p Black t)) \<and>
    unchanged (set (nodes (Nd (Nd sl q Black a) m c (Nd b p Black t))) \<union> set (cnodes C)) s s'"
proof -
  let ?t = "Nd (Nd sl q Black a) m c (Nd b p Black t)"
  let ?s3 = "set_pc_if (tptr a) q RB_BLACK (upd_left p m (upd_left m q (upd_right q (tptr a) s)))"
  let ?s = "set_parent_if (tptr b) p (rb_set_parent_color q m RB_BLACK (upd_right m p (upd_left p (tptr b) ?s3)))"
  have "rb_right (rb_mem ?s3 m) = tptr b" using z by (auto simp: zip_at_def)
  then have eq: "rb_erase_case4_right p m q (rb_erase_case3_right p q m s) = rb_rotate_set_parents p m RB_BLACK ?s"
    using z by (simp add: rb_erase_case3_right_def rb_erase_case4_right_def zip_at_def Let_def)
  have any: "tree_any (rb_mem s) a" "tree_any (rb_mem s) b" using z by (auto simp: zip_at_def intro: tree_anyI)
  have 1: "ctx_at (rb_mem ?s) C p" "rb_root ?s = croot C p" "distinct (nodes ?t @ cnodes C)" "p \<noteq> 0"
    "p \<in> set (nodes ?t)" "tptr ?t = m" "m \<noteq> p" "?t \<noteq> Tip" "rb_parent_color (rb_mem ?s p) = pack (cptr C) c"
    using z by (auto simp: zip_at_def rb_set_parent_color_def)
  have "tree_at ((rb_mem ?s)(m := (rb_mem ?s m)\<lparr>rb_parent_color := pack (cptr C) c\<rparr>,
      p := (rb_mem ?s p)\<lparr>rb_parent_color := or m RB_BLACK\<rparr>)) (cptr C) ?t"
    using z b any by (auto simp: zip_at_def rb_set_parent_color_def)
  note r = rotate_zip[OF 1 this]
  have "unchanged (set (nodes ?t) \<union> set (cnodes C)) s ?s"
    by (auto simp: unchanged_def rb_set_parent_color_def)
  with r show ?thesis unfolding eq unchanged_def by auto
qed

lemma erase_case4_right:
  assumes z: "zip_at s C (Nd (Nd (Nd x r Red y) q Black sr) p c t)"
  shows "\<exists>s'. rb_erase_case4_right p q r s = s' \<and> zip_at s' C (Nd (Nd x r Black y) q c (Nd sr p Black t)) \<and>
    unchanged (set (nodes (Nd (Nd x r Black y) q c (Nd sr p Black t))) \<union> set (cnodes C)) s s'"
proof -
  let ?t = "Nd (Nd x r Black y) q c (Nd sr p Black t)"
  let ?s = "set_parent_if (tptr sr) p (rb_set_parent_color r q RB_BLACK (upd_right q p (upd_left p (tptr sr) s)))"
  have eq: "rb_erase_case4_right p q r s = rb_rotate_set_parents p q RB_BLACK ?s"
    using z by (simp add: rb_erase_case4_right_def zip_at_def Let_def)
  have any: "tree_any (rb_mem s) sr" using z by (auto simp: zip_at_def intro: tree_anyI)
  have 1: "ctx_at (rb_mem ?s) C p" "rb_root ?s = croot C p" "distinct (nodes ?t @ cnodes C)" "p \<noteq> 0"
    "p \<in> set (nodes ?t)" "tptr ?t = q" "q \<noteq> p" "?t \<noteq> Tip" "rb_parent_color (rb_mem ?s p) = pack (cptr C) c"
    using z by (auto simp: zip_at_def rb_set_parent_color_def)
  have "tree_at ((rb_mem ?s)(q := (rb_mem ?s q)\<lparr>rb_parent_color := pack (cptr C) c\<rparr>,
      p := (rb_mem ?s p)\<lparr>rb_parent_color := or q RB_BLACK\<rparr>)) (cptr C) ?t"
    using z any by (auto simp: zip_at_def rb_set_parent_color_def)
  note r = rotate_zip[OF 1 this]
  have "unchanged (set (nodes ?t) \<union> set (cnodes C)) s ?s"
    by (auto simp: unchanged_def rb_set_parent_color_def)
  with r show ?thesis unfolding eq unchanged_def by auto
qed

section \<open>The repair on trees\<close>

text \<open>
  \<open>del_rot x t\<close>: cases 3 and 4 at the parent \<open>x\<close> of the tree \<open>t\<close>, which lacks a black node, or
  \<^term>\<open>None\<close> when both children of the sibling are black (case 2, \<open>del_flip\<close>). \<open>del_red\<close> is
  the whole round with a red sibling (case 1).
\<close>

fun del_rot :: "crumb \<Rightarrow> rtree \<Rightarrow> rtree option" where
  "del_rot (CL p c (Nd sl q _ sr)) t =
     (if is_black sr
      then (case sl of Nd a m Red b \<Rightarrow> Some (Nd (Nd t p Black a) m c (Nd b q Black sr)) | _ \<Rightarrow> None)
      else Some (Nd (Nd t p Black sl) q c (paint Black sr)))"
| "del_rot (CR (Nd sl q _ sr) p c) t =
     (if is_black sl
      then (case sr of Nd a m Red b \<Rightarrow> Some (Nd (Nd sl q Black a) m c (Nd b p Black t)) | _ \<Rightarrow> None)
      else Some (Nd (paint Black sl) q c (Nd sr p Black t)))"
| "del_rot _ t = None"

fun del_flip :: "crumb \<Rightarrow> rtree \<Rightarrow> rtree" where
  "del_flip (CL p c r) t = Nd t p Black (paint Red r)"
| "del_flip (CR l p c) t = Nd (paint Red l) p Black t"

definition del_round :: "crumb \<Rightarrow> rtree \<Rightarrow> rtree" where
  "del_round x t = (case del_rot x t of Some t' \<Rightarrow> t' | None \<Rightarrow> del_flip x t)"

fun del_red :: "crumb \<Rightarrow> rtree \<Rightarrow> rtree" where
  "del_red (CL p c (Nd sl q _ sr)) t = Nd (del_round (CL p Red sl) t) q c sr"
| "del_red (CR (Nd sl q _ sr) p c) t = Nd sl q c (del_round (CR sr p Red) t)"
| "del_red _ t = t"

fun del_fix :: "crumb list \<Rightarrow> rtree \<Rightarrow> rtree" where
  "del_fix [] t = t"
| "del_fix (x # C) t =
     (if \<not> is_black (sibling x) then plug C (del_red x t)
      else if del_rot x t = None \<and> crumb_black x then del_fix C (del_flip x t)
      else plug C (del_round x t))"

lemma nodes_del_rot: "del_rot x t = Some t' \<Longrightarrow> nodes t' = nodes (plug [x] t)"
  by (cases "(x, t)" rule: del_rot.cases) (auto split: rtree.splits color.splits if_splits)

lemma nodes_del_flip: "nodes (del_flip x t) = nodes (plug [x] t)"
  by (cases x) auto

lemma nodes_del_round: "nodes (del_round x t) = nodes (plug [x] t)"
  by (auto simp: del_round_def nodes_del_rot nodes_del_flip split: option.splits)

lemma nodes_del_red: "sibling x \<noteq> Tip \<Longrightarrow> nodes (del_red x t) = nodes (plug [x] t)"
  by (cases "(x, t)" rule: del_red.cases) (auto simp: nodes_del_round)

lemma nodes_del_fix: "ctx_ok (Suc n) C \<Longrightarrow> nodes (del_fix C t) = nodes (plug C t)"
proof (induction C t arbitrary: n rule: del_fix.induct)
  case (2 x C t)
  have "sibling x \<noteq> Tip" using 2(2) by auto
  then show ?case
    using 2(1)[of "Suc n"] 2(2) plug_Cons[of x C t] nodes_plug[OF nodes_del_red, of x C t]
      nodes_plug[OF nodes_del_round, of C x t] nodes_plug[OF nodes_del_flip, of C x t] by auto
qed simp

lemma rbt_ok_paint_Red: "rbt_ok (Suc n) (Nd l p Black r) \<Longrightarrow> is_black l \<Longrightarrow> is_black r \<Longrightarrow> rbt_ok n (Nd l p Red r)"
  by auto

lemma del_rot_ok:
  assumes "del_rot x t = Some t'" and "rbt_ok (Suc n) (sibling x)" and "is_black (sibling x)" and "rbt_ok n t"
    and "is_black t"
  shows "rbt_ok (if crumb_black x then Suc (Suc n) else Suc n) t' \<and> (crumb_black x \<longrightarrow> is_black t')"
  using assms
  by (cases "(x, t)" rule: del_rot.cases)
    (auto simp: rbt_ok_Nd rbt_ok_paint split: rtree.splits color.splits if_splits)

lemma del_flip_ok:
  assumes "del_rot x t = None" and "rbt_ok (Suc n) (sibling x)" and "is_black (sibling x)" and "rbt_ok n t"
    and "is_black t"
  shows "rbt_ok (Suc n) (del_flip x t) \<and> is_black (del_flip x t)"
  using assms
  by (cases "(x, t)" rule: del_rot.cases) (auto simp: rbt_ok_Nd split: rtree.splits color.splits if_splits)

lemma del_round_ok:
  assumes "rbt_ok (Suc n) (sibling x)" and "is_black (sibling x)" and "rbt_ok n t" and "is_black t"
    and "\<not> crumb_black x"
  shows "rbt_ok (Suc n) (del_round x t)"
  using del_rot_ok[OF _ assms(1-4)] del_flip_ok[OF _ assms(1-4)] assms(5)
  by (auto simp: del_round_def split: option.splits)

lemma del_red_ok:
  assumes "rbt_ok (Suc n) (sibling x)" and "\<not> is_black (sibling x)" and "rbt_ok n t" and "is_black t"
    and "crumb_black x"
  shows "rbt_ok (Suc (Suc n)) (del_red x t) \<and> is_black (del_red x t)"
  using assms
  by (cases "(x, t)" rule: del_red.cases) (auto simp: rbt_ok_Nd del_round_ok)

lemma del_fix_rbt:
  assumes "ctx_ok (Suc n) C" and "rbt_ok n t" and "is_black t"
  shows "rbt (del_fix C t)"
  using assms
proof (induction C t arbitrary: n rule: del_fix.induct)
  case (1 t)
  then show ?case by (auto simp: rbt_def)
next
  case (2 x C t)
  have s: "rbt_ok (Suc n) (sibling x)" using 2(2) by simp
  consider (red) "\<not> is_black (sibling x)" | (rot) t' where "is_black (sibling x)" "del_rot x t = Some t'"
    | (up) "is_black (sibling x)" "del_rot x t = None" "crumb_black x"
    | (stop) "is_black (sibling x)" "del_rot x t = None" "\<not> crumb_black x" by fastforce
  then show ?case
  proof cases
    case red
    then have "crumb_black x" "ctx_ok (Suc (Suc n)) C" using 2(2) by (auto split: if_splits)
    then show ?thesis using red del_red_ok[OF s red 2(3,4)] rbt_plug by auto
  next
    case rot
    then show ?thesis using del_rot_ok[OF rot(2) s rot(1) 2(3,4)] 2(2)
      by (auto simp: del_round_def intro!: rbt_plug[of _ C] split: if_splits)
  next
    case up
    then show ?thesis using del_flip_ok[OF up(2) s up(1) 2(3,4)] 2(1)[of "Suc n"] 2(2) by auto
  next
    case stop
    then show ?thesis using del_flip_ok[OF stop(2) s stop(1) 2(3,4)] 2(2)
      by (auto simp: del_round_def intro!: rbt_plug[of _ C] split: if_splits)
  qed
qed

section \<open>The repair loop\<close>

lemma tptr_black_at: "tree_at m par t \<Longrightarrow> 4 dvd par \<Longrightarrow>
    (tptr t = 0 \<or> pc_color (rb_parent_color (m (tptr t))) \<noteq> 0) \<longleftrightarrow> is_black t"
  by (cases t) (auto split: color.splits)

lemma round_left:
  assumes z: "zip_at s C (Nd t p c (Nd sl q Black sr))" and ok: "rbt_ok n sl" "rbt_ok n' sr"
  shows "\<exists>s'. rb_erase_round_left p q s = (del_rot (CL p c (Nd sl q Black sr)) t = None \<and> c = Black, s') \<and>
    zip_at s' C (del_round (CL p c (Nd sl q Black sr)) t) \<and>
    unchanged (set (nodes (plug [CL p c (Nd sl q Black sr)] t)) \<union> set (cnodes C)) s s'"
proof -
  have rd: "rb_right (rb_mem s q) = tptr sr" "rb_left (rb_mem s q) = tptr sl"
    "(tptr sr = 0 \<or> rb_is_black s (tptr sr)) \<longleftrightarrow> is_black sr" "(tptr sl = 0 \<or> rb_is_black s (tptr sl)) \<longleftrightarrow> is_black sl"
    using z tptr_black_at[of "rb_mem s" q sr] tptr_black_at[of "rb_mem s" q sl]
    by (auto simp: zip_at_def rb_is_black_def rb_color_def)
  consider (c4) x r y where "sr = Nd x r Red y" | (c3) a m b where "is_black sr" "sl = Nd a m Red b"
    | (c2) "is_black sr" "is_black sl" by (cases sr; cases sl) fastforce+
  then show ?thesis
  proof cases
    case c4
    then show ?thesis using rd erase_case4_left[OF z[unfolded c4]]
      by (auto simp: rb_erase_round_left_def Let_def del_round_def)
  next
    case c3
    then have "is_black b" using ok(1) by auto
    from erase_case34_left[OF z[unfolded c3(2)] this] show ?thesis using rd c3
      by (auto simp: rb_erase_round_left_def Let_def del_round_def)
  next
    case c2
    let ?s = "rb_set_parent_color q p RB_RED s"
    have n: "del_rot (CL p c (Nd sl q Black sr)) t = None"
      using c2 by (auto split: rtree.splits color.splits)
    note z2 = erase_case2[OF z]
    have red: "rb_is_red ?s p \<longleftrightarrow> c = Red" using z2(1) cptr_aligned[of "rb_mem ?s" C p]
      by (auto simp: zip_at_def rb_is_red_def rb_color_def split: color.splits)
    show ?thesis
    proof (cases c)
      case Red
      then show ?thesis using rd c2 n red z2 set_black_zip[OF z2(1)]
        by (auto simp: rb_erase_round_left_def Let_def del_round_def intro: unchanged_trans)
    next
      case Black
      then show ?thesis using rd c2 n red z2 by (auto simp: rb_erase_round_left_def Let_def del_round_def)
    qed
  qed
qed

lemma round_right:
  assumes z: "zip_at s C (Nd (Nd sl q Black sr) p c t)" and ok: "rbt_ok n sl" "rbt_ok n' sr"
  shows "\<exists>s'. rb_erase_round_right p q s = (del_rot (CR (Nd sl q Black sr) p c) t = None \<and> c = Black, s') \<and>
    zip_at s' C (del_round (CR (Nd sl q Black sr) p c) t) \<and>
    unchanged (set (nodes (plug [CR (Nd sl q Black sr) p c] t)) \<union> set (cnodes C)) s s'"
proof -
  have rd: "rb_right (rb_mem s q) = tptr sr" "rb_left (rb_mem s q) = tptr sl"
    "(tptr sr = 0 \<or> rb_is_black s (tptr sr)) \<longleftrightarrow> is_black sr" "(tptr sl = 0 \<or> rb_is_black s (tptr sl)) \<longleftrightarrow> is_black sl"
    using z tptr_black_at[of "rb_mem s" q sr] tptr_black_at[of "rb_mem s" q sl]
    by (auto simp: zip_at_def rb_is_black_def rb_color_def)
  consider (c4) x r y where "sl = Nd x r Red y" | (c3) a m b where "is_black sl" "sr = Nd a m Red b"
    | (c2) "is_black sr" "is_black sl" by (cases sr; cases sl) fastforce+
  then show ?thesis
  proof cases
    case c4
    then show ?thesis using rd erase_case4_right[OF z[unfolded c4]]
      by (auto simp: rb_erase_round_right_def Let_def del_round_def)
  next
    case c3
    then have "is_black a" using ok(2) by auto
    from erase_case34_right[OF z[unfolded c3(2)] this] show ?thesis using rd c3
      by (auto simp: rb_erase_round_right_def Let_def del_round_def)
  next
    case c2
    let ?s = "rb_set_parent_color q p RB_RED s"
    have n: "del_rot (CR (Nd sl q Black sr) p c) t = None"
      using c2 by (auto split: rtree.splits color.splits)
    note z2 = erase_case2_mirror[OF z]
    have red: "rb_is_red ?s p \<longleftrightarrow> c = Red" using z2(1) cptr_aligned[of "rb_mem ?s" C p]
      by (auto simp: zip_at_def rb_is_red_def rb_color_def split: color.splits)
    show ?thesis
    proof (cases c)
      case Red
      then show ?thesis using rd c2 n red z2 set_black_zip[OF z2(1)]
        by (auto simp: rb_erase_round_right_def Let_def del_round_def intro: unchanged_trans)
    next
      case Black
      then show ?thesis using rd c2 n red z2 by (auto simp: rb_erase_round_right_def Let_def del_round_def)
    qed
  qed
qed

text \<open>A black sibling leaves case 1 out; a red one gives way to one of its black children.\<close>

lemma erase_left_black:
  assumes z: "zip_at s C (Nd t p c (Nd sl q Black sr))" and ok: "rbt_ok n sl" "rbt_ok n' sr"
  shows "\<exists>s'. (let (sib, s) = rb_erase_case1_left p (rb_right (rb_mem s p)) s in rb_erase_round_left p sib s) =
      (del_rot (CL p c (Nd sl q Black sr)) t = None \<and> c = Black, s') \<and>
    zip_at s' C (del_round (CL p c (Nd sl q Black sr)) t) \<and>
    unchanged (set (nodes (plug [CL p c (Nd sl q Black sr)] t)) \<union> set (cnodes C)) s s'"
proof -
  have "rb_erase_case1_left p (rb_right (rb_mem s p)) s = (q, s)"
    using z by (auto simp: zip_at_def rb_erase_case1_left_def rb_is_red_def rb_color_def)
  then show ?thesis using round_left[OF z ok] by simp
qed

lemma erase_left_red:
  assumes z: "zip_at s C (Nd t p c (Nd sl q Red sr))" and ok: "rbt_ok (Suc n) (Nd sl q Red sr)"
  shows "\<exists>s'. (let (sib, s) = rb_erase_case1_left p (rb_right (rb_mem s p)) s in rb_erase_round_left p sib s) =
      (False, s') \<and> zip_at s' C (del_red (CL p c (Nd sl q Red sr)) t) \<and>
    unchanged (set (nodes (plug [CL p c (Nd sl q Red sr)] t)) \<union> set (cnodes C)) s s'"
proof -
  obtain a m b where sl: "sl = Nd a m Black b" "rbt_ok n a" "rbt_ok n b"
    using ok by (cases sl) auto
  obtain s1 where s1: "rb_erase_case1_left p q s = (m, s1)" "zip_at s1 (CL q c sr # C) (Nd t p Red (Nd a m Black b))"
    "unchanged (set (nodes (Nd (Nd t p Red sl) q c sr)) \<union> set (cnodes C)) s s1"
    using erase_case1_left[OF z] ok sl(1) by (auto simp: zip_at_CL)
  obtain s' where s': "rb_erase_round_left p m s1 = (False, s')"
    "zip_at s' (CL q c sr # C) (del_round (CL p Red (Nd a m Black b)) t)"
    "unchanged (set (nodes (plug [CL p Red (Nd a m Black b)] t)) \<union> set (cnodes (CL q c sr # C))) s1 s'"
    using round_left[OF s1(2) sl(2,3)] by auto
  have S: "set (nodes (plug [CL p Red (Nd a m Black b)] t)) \<union> set (cnodes (CL q c sr # C)) =
      set (nodes (Nd (Nd t p Red sl) q c sr)) \<union> set (cnodes C)"
    "set (nodes (Nd (Nd t p Red sl) q c sr)) \<union> set (cnodes C) =
      set (nodes (plug [CL p c (Nd sl q Red sr)] t)) \<union> set (cnodes C)" using sl by auto
  have "rb_right (rb_mem s p) = q" using z by (simp add: zip_at_def)
  moreover have "zip_at s' C (del_red (CL p c (Nd sl q Red sr)) t)" using s'(2) sl(1) by (simp add: zip_at_CL)
  moreover have "unchanged (set (nodes (plug [CL p c (Nd sl q Red sr)] t)) \<union> set (cnodes C)) s s'"
    using unchanged_trans[OF s1(3) s'(3)[unfolded S(1)]] unfolding S(2) .
  ultimately show ?thesis using s1(1) s'(1) by simp
qed

lemma erase_right_black:
  assumes z: "zip_at s C (Nd (Nd sl q Black sr) p c t)" and ok: "rbt_ok n sl" "rbt_ok n' sr"
  shows "\<exists>s'. (let (sib, s) = rb_erase_case1_right p (rb_left (rb_mem s p)) s in rb_erase_round_right p sib s) =
      (del_rot (CR (Nd sl q Black sr) p c) t = None \<and> c = Black, s') \<and>
    zip_at s' C (del_round (CR (Nd sl q Black sr) p c) t) \<and>
    unchanged (set (nodes (plug [CR (Nd sl q Black sr) p c] t)) \<union> set (cnodes C)) s s'"
proof -
  have "rb_erase_case1_right p (rb_left (rb_mem s p)) s = (q, s)"
    using z by (auto simp: zip_at_def rb_erase_case1_right_def rb_is_red_def rb_color_def)
  then show ?thesis using round_right[OF z ok] by simp
qed

lemma erase_right_red:
  assumes z: "zip_at s C (Nd (Nd sl q Red sr) p c t)" and ok: "rbt_ok (Suc n) (Nd sl q Red sr)"
  shows "\<exists>s'. (let (sib, s) = rb_erase_case1_right p (rb_left (rb_mem s p)) s in rb_erase_round_right p sib s) =
      (False, s') \<and> zip_at s' C (del_red (CR (Nd sl q Red sr) p c) t) \<and>
    unchanged (set (nodes (plug [CR (Nd sl q Red sr) p c] t)) \<union> set (cnodes C)) s s'"
proof -
  obtain a m b where sr: "sr = Nd a m Black b" "rbt_ok n a" "rbt_ok n b"
    using ok by (cases sr) auto
  obtain s1 where s1: "rb_erase_case1_right p q s = (m, s1)" "zip_at s1 (CR sl q c # C) (Nd (Nd a m Black b) p Red t)"
    "unchanged (set (nodes (Nd sl q c (Nd sr p Red t))) \<union> set (cnodes C)) s s1"
    using erase_case1_right[OF z] ok sr(1) by (auto simp: zip_at_CR)
  obtain s' where s': "rb_erase_round_right p m s1 = (False, s')"
    "zip_at s' (CR sl q c # C) (del_round (CR (Nd a m Black b) p Red) t)"
    "unchanged (set (nodes (plug [CR (Nd a m Black b) p Red] t)) \<union> set (cnodes (CR sl q c # C))) s1 s'"
    using round_right[OF s1(2) sr(2,3)] by auto
  have S: "set (nodes (plug [CR (Nd a m Black b) p Red] t)) \<union> set (cnodes (CR sl q c # C)) =
      set (nodes (Nd sl q c (Nd sr p Red t))) \<union> set (cnodes C)"
    "set (nodes (Nd sl q c (Nd sr p Red t))) \<union> set (cnodes C) =
      set (nodes (plug [CR (Nd sl q Red sr) p c] t)) \<union> set (cnodes C)" using sr by auto
  have "rb_left (rb_mem s p) = q" using z by (simp add: zip_at_def)
  moreover have "zip_at s' C (del_red (CR (Nd sl q Red sr) p c) t)" using s'(2) sr(1) by (simp add: zip_at_CR)
  moreover have "unchanged (set (nodes (plug [CR (Nd sl q Red sr) p c] t)) \<union> set (cnodes C)) s s'"
    using unchanged_trans[OF s1(3) s'(3)[unfolded S(1)]] unfolding S(2) .
  ultimately show ?thesis using s1(1) s'(1) by simp
qed

lemma rb_erase_color_left:
  assumes "zip_at s C (Nd t p c r)" and "r \<noteq> Tip"
    and "(let (sib, s) = rb_erase_case1_left p (rb_right (rb_mem s p)) s in rb_erase_round_left p sib s) = (again, s')"
  shows "rb_erase_color (tptr t) p s =
    (if again then if rb_parent s' p \<noteq> 0 then rb_erase_color p (rb_parent s' p) s' else Some s' else Some s')"
proof -
  have "tptr t \<noteq> rb_right (rb_mem s p)" using assms(1,2) tptr_neq(2)[of "rb_mem s" p r "rb_mem s" p t]
    by (auto simp: zip_at_def)
  then show ?thesis using assms(3) by (subst rb_erase_color.simps) (simp add: Let_def)
qed

lemma rb_erase_color_right:
  assumes "zip_at s C (Nd l p c t)"
    and "(let (sib, s) = rb_erase_case1_right p (rb_left (rb_mem s p)) s in rb_erase_round_right p sib s) = (again, s')"
  shows "rb_erase_color (tptr t) p s =
    (if again then if rb_parent s' p \<noteq> 0 then rb_erase_color p (rb_parent s' p) s' else Some s' else Some s')"
proof -
  have "tptr t = rb_right (rb_mem s p)" using assms(1) by (simp add: zip_at_def)
  then show ?thesis using assms(2) by (subst rb_erase_color.simps) (simp add: Let_def)
qed

lemma erase_step:
  assumes z: "zip_at s (x # C) t" and ok: "rbt_ok (Suc n) (sibling x)"
  defines "again \<equiv> is_black (sibling x) \<and> del_rot x t = None \<and> crumb_black x"
  shows "\<exists>s'. rb_erase_color (tptr t) (cptr (x # C)) s =
      (if again then if cptr C \<noteq> 0 then rb_erase_color (cptr (x # C)) (cptr C) s' else Some s' else Some s') \<and>
    zip_at s' C (if is_black (sibling x) then del_round x t else del_red x t) \<and>
    unchanged (set (nodes (plug [x] t)) \<union> set (cnodes C)) s s'"
proof -
  have up: "rb_parent s' (cptr (x # C)) = cptr C" if "again" "zip_at s' C (del_round x t)" for s'
  proof -
    have "del_round x t = del_flip x t" using that(1) by (simp add: again_def del_round_def)
    then show ?thesis using that(2) cptr_aligned[of "rb_mem s'" C]
      by (cases x) (auto simp: zip_at_def rb_parent_def)
  qed
  obtain sl q qc sr where sib: "sibling x = Nd sl q qc sr" using ok by (cases "sibling x") auto
  show ?thesis
  proof (cases x)
    case x: (CL p c r)
    have zl: "zip_at s C (Nd t p c (Nd sl q qc sr))" using z x sib by (simp add: zip_at_CL)
    obtain s' where s': "(let (sib, s) = rb_erase_case1_left p (rb_right (rb_mem s p)) s in rb_erase_round_left p sib s) =
        (again, s')" "zip_at s' C (if is_black (sibling x) then del_round x t else del_red x t)"
      "unchanged (set (nodes (plug [x] t)) \<union> set (cnodes C)) s s'"
    proof (cases qc)
      case Black
      with erase_left_black[OF zl[unfolded Black]] ok sib x that show ?thesis by (auto simp: again_def)
    next
      case Red
      with erase_left_red[OF zl[unfolded Red]] ok sib x that show ?thesis by (auto simp: again_def)
    qed
    then show ?thesis using rb_erase_color_left[OF zl _ s'(1)] up[of s'] x
      by (intro exI[of _ s']) (auto simp: again_def)
  next
    case x: (CR l p c)
    have zr: "zip_at s C (Nd (Nd sl q qc sr) p c t)" using z x sib by (simp add: zip_at_CR)
    obtain s' where s': "(let (sib, s) = rb_erase_case1_right p (rb_left (rb_mem s p)) s in rb_erase_round_right p sib s) =
        (again, s')" "zip_at s' C (if is_black (sibling x) then del_round x t else del_red x t)"
      "unchanged (set (nodes (plug [x] t)) \<union> set (cnodes C)) s s'"
    proof (cases qc)
      case Black
      with erase_right_black[OF zr[unfolded Black]] ok sib x that show ?thesis by (auto simp: again_def)
    next
      case Red
      with erase_right_red[OF zr[unfolded Red]] ok sib x that show ?thesis by (auto simp: again_def)
    qed
    then show ?thesis using rb_erase_color_right[OF zr s'(1)] up[of s'] x
      by (intro exI[of _ s']) (auto simp: again_def)
  qed
qed

lemma set_nodes_plug1: "set (nodes (plug (x # C) t)) = set (nodes (plug [x] t)) \<union> set (cnodes C)"
  by (cases x) (auto simp: set_nodes_plug)

lemma erase_loop_refines:
  assumes "zip_at s C t" and "ctx_ok (Suc n) C" and "C \<noteq> []"
  shows "\<exists>s'. rb_erase_color (tptr t) (cptr C) s = Some s' \<and> rb_at s' (del_fix C t) \<and>
    unchanged (set (nodes (plug C t))) s s'"
  using assms
proof (induction C t arbitrary: n s rule: del_fix.induct)
  case (2 x C t)
  let ?again = "is_black (sibling x) \<and> del_rot x t = None \<and> crumb_black x"
  have ok: "rbt_ok (Suc n) (sibling x)" using 2(3) by simp
  obtain s1 where s1: "rb_erase_color (tptr t) (cptr (x # C)) s =
      (if ?again then if cptr C \<noteq> 0 then rb_erase_color (cptr (x # C)) (cptr C) s1 else Some s1 else Some s1)"
    "zip_at s1 C (if is_black (sibling x) then del_round x t else del_red x t)"
    "unchanged (set (nodes (plug (x # C) t))) s s1"
    using erase_step[OF 2(2) ok] set_nodes_plug1[of x C t] by auto
  show ?case
  proof (cases "?again \<and> C \<noteq> []")
    case False
    then have "rb_erase_color (tptr t) (cptr (x # C)) s = Some s1" using s1(1) by (cases C) auto
    moreover have "rb_at s1 (del_fix (x # C) t)"
      using False s1(2) by (auto simp: zip_at_plug del_round_def)
    ultimately show ?thesis using s1(3) by blast
  next
    case True
    then have z: "zip_at s1 C (del_flip x t)" and cx: "tptr (del_flip x t) = cptr (x # C)"
      using s1(2) by (auto simp: del_round_def) (cases x; simp)
    have "cptr C \<noteq> 0" using True z cptr_eq_0[of "rb_mem s1" C] by (auto simp: zip_at_def)
    moreover obtain s' where s': "rb_erase_color (tptr (del_flip x t)) (cptr C) s1 = Some s'"
      "rb_at s' (del_fix C (del_flip x t))" "unchanged (set (nodes (plug C (del_flip x t)))) s1 s'"
      using 2(1)[OF _ _ z, of "Suc n"] 2(3) True by auto
    moreover have "set (nodes (plug C (del_flip x t))) = set (nodes (plug (x # C) t))"
      using nodes_plug[OF nodes_del_flip, of C x t] plug_Cons[of x C t] by simp
    ultimately show ?thesis using True s1 cx unchanged_trans[of _ s s1 s'] by auto
  qed
qed simp

section \<open>Unlinking a node\<close>

text \<open>The context of a hole inside a tree that hangs below the node \<open>par\<close>.\<close>

fun dctx :: "(nat \<Rightarrow> rb_node) \<Rightarrow> nat \<Rightarrow> crumb list \<Rightarrow> nat \<Rightarrow> bool" where
  "dctx m par [] h \<longleftrightarrow> True"
| "dctx m par (CL p c r # D) h \<longleftrightarrow> p \<noteq> 0 \<and> 4 dvd p \<and>
     m p = \<lparr>rb_parent_color = pack (if D = [] then par else cptr D) c, rb_right = tptr r, rb_left = h\<rparr> \<and>
     tree_at m p r \<and> dctx m par D p"
| "dctx m par (CR l p c # D) h \<longleftrightarrow> p \<noteq> 0 \<and> 4 dvd p \<and>
     m p = \<lparr>rb_parent_color = pack (if D = [] then par else cptr D) c, rb_right = h, rb_left = tptr l\<rparr> \<and>
     tree_at m p l \<and> dctx m par D p"

lemma cptr_append: "cptr (D @ C) = (if D = [] then cptr C else cptr D)"
  by (cases D rule: cptr.cases) auto

lemma croot_append: "croot (D @ C) h = croot C (croot D h)"
  by (induction D h rule: croot.induct) auto

lemma cnodes_append [simp]: "cnodes (D @ C) = cnodes D @ cnodes C"
  by (induction D rule: cnodes.induct) auto

lemma plug_append: "plug (D @ C) t = plug C (plug D t)"
  by (induction D t rule: plug.induct) auto

lemma ctx_at_append: "ctx_at m (D @ C) h \<longleftrightarrow> dctx m (cptr C) D h \<and> ctx_at m C (croot D h)"
proof (induction D arbitrary: h)
  case (Cons x D)
  then show ?case by (cases x) (auto simp: cptr_append)
qed simp

lemma dctx_cong:
  assumes "\<And>x. x \<in> set (cnodes D) \<Longrightarrow> m' x = m x"
  shows "dctx m' par D h \<longleftrightarrow> dctx m par D h"
  using assms
proof (induction D arbitrary: h)
  case (Cons x D)
  then show ?case using tree_at_cong[of _ m' m] by (cases x) simp_all
qed simp

lemma dctx_upd [simp]: "q \<notin> set (cnodes D) \<Longrightarrow> dctx (m(q := v)) par D h \<longleftrightarrow> dctx m par D h"
  by (rule dctx_cong) auto

lemma dctx_if [simp]:
  "set (nodes t) \<inter> set (cnodes D) = {} \<Longrightarrow>
    dctx (rb_mem (set_parent_if (tptr t) g s)) par D h \<longleftrightarrow> dctx (rb_mem s) par D h"
  "set (nodes t) \<inter> set (cnodes D) = {} \<Longrightarrow>
    dctx (rb_mem (set_pc_if (tptr t) g c s)) par D h \<longleftrightarrow> dctx (rb_mem s) par D h"
  by (cases t; auto simp: set_parent_if_def rb_set_parent_def set_pc_if_def rb_set_parent_color_def)+

lemma set_pc_if_paint [simp]:
  assumes "4 dvd g" and "distinct (nodes t)" and "tree_any (rb_mem s) t"
  shows "tree_at (rb_mem (set_pc_if (tptr t) g RB_BLACK s)) g (paint Black t)"
proof (cases t)
  case (Nd l p c r)
  with assms show ?thesis by (auto simp: tree_any_def set_pc_if_def rb_set_parent_color_def)
qed auto

text \<open>A path that only goes to the left: the one to the successor.\<close>

fun all_left :: "crumb list \<Rightarrow> bool" where
  "all_left [] \<longleftrightarrow> True"
| "all_left (CL p c r # D) \<longleftrightarrow> all_left D"
| "all_left (CR l p c # D) \<longleftrightarrow> False"

lemma dctx_bottom:
  assumes "dctx m par D h" and "D \<noteq> []" and "all_left D" and "distinct (cnodes D)"
  shows "dctx (m(cptr D := (m (cptr D))\<lparr>rb_left := h'\<rparr>)) par D h'"
  using assms by (cases D rule: all_left.cases) auto

lemma croot_in: "D \<noteq> [] \<Longrightarrow> croot D h \<in> set (cnodes D)"
proof (induction D arbitrary: h)
  case (Cons x D)
  then show ?case by (cases x; cases "D = []") auto
qed simp

lemma or_color [simp]: "4 dvd p \<Longrightarrow> or (case c of Red \<Rightarrow> 0 | Black \<Rightarrow> 1) p = pack p c"
  by (cases c) simp_all

lemma dctx_top:
  assumes "dctx (rb_mem s) par D h" and "D \<noteq> []" and "distinct (cnodes D)" and "4 dvd par" and "4 dvd par'"
  shows "dctx (rb_mem (rb_set_parent (croot D h) par' s)) par' D h"
  using assms
proof (induction D arbitrary: h)
  case (Cons x D)
  show ?case
  proof (cases "D = []")
    case True
    then show ?thesis using Cons.prems
      by (cases x) (simp_all add: rb_set_parent_def rb_color_def del: fun_upd_apply add: fun_upd_same)
  next
    case False
    let ?q = "croot D (cptr [x])"
    have "?q \<in> set (cnodes D)" using croot_in[OF False] .
    then have q: "?q \<noteq> cptr [x]" "?q \<notin> set (nodes (sibling x))" using Cons.prems(3) by (cases x; auto)+
    let ?m = "rb_mem (rb_set_parent ?q par' s)"
    have "?m (cptr [x]) = rb_mem s (cptr [x])"
      "tree_at ?m (cptr [x]) (sibling x) \<longleftrightarrow> tree_at (rb_mem s) (cptr [x]) (sibling x)"
      using q tree_at_upd[OF q(2)] by (simp_all add: rb_set_parent_def)
    then show ?thesis using Cons False by (cases x) auto
  qed
qed simp

fun min_path :: "rtree \<Rightarrow> crumb list \<Rightarrow> crumb list \<times> nat \<times> color \<times> rtree" where
  "min_path (Nd (Nd ll lp lc lr) p c r) D = min_path (Nd ll lp lc lr) (CL p c r # D)"
| "min_path (Nd Tip p c r) D = (D, p, c, r)"
| "min_path Tip D = (D, 0, Red, Tip)"

lemma min_path_zip:
  assumes "min_path t D = (D', p, c, r)" and "t \<noteq> Tip"
  shows "zip_at s (D @ C) t \<longleftrightarrow> zip_at s (D' @ C) (Nd Tip p c r)" "plug D t = plug D' (Nd Tip p c r)"
    "all_left D \<Longrightarrow> all_left D'"
  using assms by (induction t D rule: min_path.induct) (auto simp: zip_at_CL)

lemma erase_successor_refines:
  assumes "zip_at s (D @ C) (Nd l p c r)" and "l \<noteq> Tip" and "min_path l (CL p c r # D) = (D', q, qc, x)"
  shows "erase_successor s p (tptr l) = Some (cptr (D' @ C), q)"
  using assms
proof (induction l arbitrary: p c r D)
  case (Nd ll lp lc lr)
  show ?case
  proof (cases ll)
    case Tip
    then show ?thesis using Nd.prems by (subst erase_successor.simps) (auto simp: zip_at_def cptr_append)
  next
    case (Nd a b d e)
    then have "zip_at s ((CL p c r # D) @ C) (rtree.Nd ll lp lc lr)" using Nd.prems(1) by (simp add: zip_at_CL)
    from Nd.IH(1)[OF this] Nd Nd.prems show ?thesis
      by (subst erase_successor.simps) (auto simp: zip_at_def)
  qed
qed simp

lemma unlink_leaf:
  assumes z: "zip_at s C (Nd Tip node c Tip)"
  shows "\<exists>s'. rb_erase_augmented node s = Some (if c = Black then cptr C else 0, s') \<and> zip_at s' C Tip \<and>
    unchanged (set (cnodes C)) s s'"
proof -
  let ?s = "rb_change_child node 0 (cptr C) s"
  have 1: "ctx_at (rb_mem s) C node" "rb_root s = croot C node" "distinct (cnodes C)" "node \<noteq> 0"
    "node \<notin> set (cnodes C)" using z by (auto simp: zip_at_def)
  note cc = change_child[OF 1, where new = 0]
  have "rb_erase_augmented node s = Some (if c = Black then cptr C else 0, ?s)"
    using z cptr_aligned[OF 1(1)] by (cases c) (auto simp: rb_erase_augmented_def zip_at_def Let_def)
  then show ?thesis using cc 1(3) by (auto simp: zip_at_def unchanged_def)
qed

lemma unlink_right:
  assumes z: "zip_at s C (Nd Tip node c r)" and r: "r \<noteq> Tip"
  shows "\<exists>s'. rb_erase_augmented node s = Some (0, s') \<and> zip_at s' C (paint c r) \<and>
    unchanged (set (nodes r) \<union> set (cnodes C)) s s'"
proof -
  obtain rl q rc rr where r: "r = Nd rl q rc rr" using r by (cases r) auto
  let ?s = "rb_change_child node q (cptr C) s"
  let ?s' = "upd_pc q (pack (cptr C) c) ?s"
  have 1: "ctx_at (rb_mem s) C node" "rb_root s = croot C node" "distinct (cnodes C)" "node \<noteq> 0"
    "node \<notin> set (cnodes C)" using z by (auto simp: zip_at_def)
  note cc = change_child[OF 1, where new = q]
  have eq: "rb_erase_augmented node s = Some (0, ?s')"
    using z r cptr_aligned[OF 1(1)] by (auto simp: rb_erase_augmented_def zip_at_def Let_def)
  have "rb_mem ?s x = rb_mem s x" if "x \<in> set (nodes r)" for x
    using cc(3)[of x] z that by (auto simp: zip_at_def)
  then have "tree_at (rb_mem ?s) node r" "rb_mem ?s q = rb_mem s q"
    using z tree_at_cong[of r "rb_mem ?s" "rb_mem s"] r by (auto simp: zip_at_def)
  then have "zip_at ?s' C (paint c r)" using cc(1,2) z r by (auto simp: zip_at_def)
  moreover have "unchanged (set (nodes r) \<union> set (cnodes C)) s ?s'" using cc(3) r by (auto simp: unchanged_def)
  ultimately show ?thesis using eq by blast
qed

lemma unlink_left:
  assumes z: "zip_at s C (Nd l node c Tip)" and l: "l \<noteq> Tip"
  shows "\<exists>s'. rb_erase_augmented node s = Some (0, s') \<and> zip_at s' C (paint c l) \<and>
    unchanged (set (nodes l) \<union> set (cnodes C)) s s'"
proof -
  obtain ll q lc lr where l: "l = Nd ll q lc lr" using l by (cases l) auto
  let ?s = "upd_pc q (pack (cptr C) c) s"
  let ?s' = "rb_change_child node q (cptr C) ?s"
  have 1: "ctx_at (rb_mem ?s) C node" "rb_root ?s = croot C node" "distinct (cnodes C)" "node \<noteq> 0"
    "node \<notin> set (cnodes C)" using z l by (auto simp: zip_at_def)
  note cc = change_child[OF 1, where new = q]
  have eq: "rb_erase_augmented node s = Some (0, ?s')"
    using z l cptr_aligned[OF 1(1)] by (auto simp: rb_erase_augmented_def zip_at_def Let_def)
  have "tree_at (rb_mem ?s) (cptr C) (paint c l)" using z l by (auto simp: zip_at_def)
  moreover have "rb_mem ?s' x = rb_mem ?s x" if "x \<in> set (nodes (paint c l))" for x
    using z that by (intro cc(3)) (auto simp: zip_at_def)
  ultimately have "tree_at (rb_mem ?s') (cptr C) (paint c l)"
    using tree_at_cong[of "paint c l" "rb_mem ?s'" "rb_mem ?s"] by blast
  then have "zip_at ?s' C (paint c l)" using cc(1,2) z l by (auto simp: zip_at_def)
  moreover have "unchanged (set (nodes l) \<union> set (cnodes C)) s ?s'" using cc(3) l by (auto simp: unchanged_def)
  ultimately show ?thesis using eq by blast
qed

lemma erase_two_children:
  assumes "rb_left (rb_mem s node) \<noteq> 0" and "rb_right (rb_mem s node) = child" and "child \<noteq> 0"
  shows "rb_left (rb_mem s child) = 0 \<Longrightarrow>
      rb_erase_augmented node s = Some (erase_tail node child child (rb_right (rb_mem s child)) s)"
    and "rb_left (rb_mem s child) = tmp \<Longrightarrow> tmp \<noteq> 0 \<Longrightarrow> erase_successor s child tmp = Some (parent, successor) \<Longrightarrow>
      rb_erase_augmented node s = Some (erase_tail node parent successor (rb_right (rb_mem s successor))
        (rb_set_parent child successor (upd_right successor child
          (upd_left parent (rb_right (rb_mem s successor)) s))))"
  using assms by (simp_all add: rb_erase_augmented_def erase_tail_def Let_def)

lemma erase_tail_zip:
  assumes ctx: "ctx_at (rb_mem s) C node" "rb_root s = croot C node"
    and node: "rb_mem s node = \<lparr>rb_parent_color = pack (cptr C) c, rb_right = x, rb_left = tptr l\<rparr>" "node \<noteq> 0"
    and succ: "succ \<noteq> 0" "4 dvd succ" "rb_right (rb_mem s succ) = croot D (tptr sr)"
      "rb_parent_color (rb_mem s succ) = pack par0 sc" "4 dvd par0"
    and parent: "parent = cptr (D @ [CR l succ c])"
    and trees: "tree_any (rb_mem s) l" "l \<noteq> Tip" "tree_any (rb_mem s) sr" "dctx (rb_mem s) succ D (tptr sr)"
    and dist: "distinct (node # succ # nodes l @ nodes sr @ cnodes D @ cnodes C)"
  shows "\<exists>s'. erase_tail node parent succ (tptr sr) s = (if sr = Tip \<and> sc = Black then parent else 0, s') \<and>
    zip_at s' (D @ CR l succ c # C) (paint Black sr) \<and>
    unchanged (insert succ (set (nodes l) \<union> set (nodes sr) \<union> set (cnodes C))) s s'"
proof -
  obtain ll lp lc lr where l: "l = Nd ll lp lc lr" using trees(2) by (cases l) auto
  have l0: "tptr l \<noteq> 0" using trees(1) l by (auto simp: tree_any_def)
  have sr0: "tptr sr = 0 \<longleftrightarrow> sr = Tip" using trees(3) by (cases sr) (auto simp: tree_any_def)
  let ?s5 = "set_parent_if (tptr l) succ (upd_left succ (tptr l) s)"
  let ?s6 = "rb_change_child node succ (cptr C) ?s5"
  have 1: "ctx_at (rb_mem ?s5) C node" "rb_root ?s5 = croot C node" "distinct (cnodes C)" "node \<noteq> 0"
    "node \<notin> set (cnodes C)" using ctx node dist by auto
  note cc = change_child[OF 1, where new = succ]
  have m5: "rb_mem ?s5 node = rb_mem s node" "rb_mem ?s5 succ = (rb_mem s succ)\<lparr>rb_left := tptr l\<rparr>"
    "tree_at (rb_mem ?s5) succ l" "tree_any (rb_mem ?s5) sr" "dctx (rb_mem ?s5) succ D (tptr sr)"
    using dist succ trees by auto
  have fr: "rb_mem ?s6 y = rb_mem ?s5 y" if "y \<in> {succ} \<union> set (nodes l) \<union> set (nodes sr) \<union> set (cnodes D)" for y
    using that dist by (intro cc(3)) auto
  have m6: "rb_mem ?s6 succ = (rb_mem s succ)\<lparr>rb_left := tptr l\<rparr>"
    "tree_at (rb_mem ?s6) succ l" "tree_any (rb_mem ?s6) sr" "dctx (rb_mem ?s6) succ D (tptr sr)"
    using m5 fr tree_at_cong[of l "rb_mem ?s6" "rb_mem ?s5"] tree_at_cong[of sr "rb_mem ?s6" "rb_mem ?s5"]
      dctx_cong[of D "rb_mem ?s6" "rb_mem ?s5"] by (auto simp: tree_any_def)
  let ?s7 = "set_pc_if (tptr sr) parent RB_BLACK ?s6"
  let ?s8 = "upd_pc succ (pack (cptr C) c) ?s7"
  have "rb_is_black ?s6 succ \<longleftrightarrow> sc = Black"
    using m6(1) succ by (auto simp: rb_is_black_def rb_color_def split: color.splits)
  then have eq: "erase_tail node parent succ (tptr sr) s = (if sr = Tip \<and> sc = Black then parent else 0, ?s8)"
    using node(1) m5(1) l0 sr0 cptr_aligned[OF ctx(1)]
    by (simp add: erase_tail_def Let_def set_parent_if_def set_pc_if_def)
  have al: "4 dvd parent" using parent trees(4) succ(2) by (cases D rule: cptr.cases) auto
  have "rb_mem ?s8 succ = \<lparr>rb_parent_color = pack (cptr C) c, rb_right = croot D (tptr sr), rb_left = tptr l\<rparr>"
    using m6(1) succ dist by (cases "rb_mem s succ") auto
  moreover have "tree_at (rb_mem ?s8) succ l" "dctx (rb_mem ?s8) succ D (tptr sr)" "ctx_at (rb_mem ?s8) C succ"
    using m6 cc(1) dist by auto
  moreover have "tree_at (rb_mem ?s8) parent (paint Black sr)" using m6(3) al dist by auto
  moreover have "tptr (paint Black sr) = tptr sr" by (cases sr) auto
  ultimately have "zip_at ?s8 (D @ CR l succ c # C) (paint Black sr)"
    using cc(2) dist succ parent by (auto simp: zip_at_def ctx_at_append croot_append cptr_append)
  moreover have "unchanged (insert succ (set (nodes l) \<union> set (nodes sr) \<union> set (cnodes C))) s ?s8"
    using cc(3) by (auto simp: unchanged_def)
  ultimately show ?thesis using eq by blast
qed

lemma croot_plug: "D \<noteq> [] \<Longrightarrow> croot D h = tptr (plug D t)"
proof (induction D arbitrary: h t)
  case (Cons x D)
  then show ?case by (cases x; cases "D = []") auto
qed simp

lemma unlink_two:
  assumes z: "zip_at s C (Nd l node c r)" and ne: "l \<noteq> Tip" "r \<noteq> Tip" and mp: "min_path r [] = (D, sp, sc, sr)"
  shows "\<exists>s'. rb_erase_augmented node s = Some (if sr = Tip \<and> sc = Black then cptr (D @ CR l sp c # C) else 0, s') \<and>
    zip_at s' (D @ CR l sp c # C) (paint Black sr) \<and>
    unchanged (set (nodes (Nd l node c r)) \<union> set (cnodes C)) s s'"
proof -
  have r: "r = plug D (Nd Tip sp sc sr)" using min_path_zip(2)[OF mp ne(2)] by simp
  have zs: "zip_at s (D @ CR l node c # C) (Nd Tip sp sc sr)"
    using z min_path_zip(1)[OF mp ne(2), of s "CR l node c # C"] by (simp add: zip_at_CR)
  have D: "dctx (rb_mem s) node D sp" "ctx_at (rb_mem s) C node" "tree_at (rb_mem s) (if D = [] then node else cptr D) (Nd Tip sp sc sr)"
    "rb_mem s node = \<lparr>rb_parent_color = pack (cptr C) c, rb_right = croot D sp, rb_left = tptr l\<rparr>" "tree_at (rb_mem s) node l"
    "node \<noteq> 0" "4 dvd node" "rb_root s = croot C node"
    using zs by (auto simp: zip_at_def ctx_at_append cptr_append croot_append)
  have dist: "distinct (node # sp # nodes l @ nodes sr @ cnodes D @ cnodes C)"
    using zs by (auto simp: zip_at_def)
  have nodes: "set (nodes (Nd l node c r)) = {node, sp} \<union> set (nodes l) \<union> set (nodes sr) \<union> set (cnodes D)"
    unfolding r by (auto simp: set_nodes_plug)
  have l0: "tptr l \<noteq> 0" using D(5) ne(1) by (cases l) auto
  have any: "tree_any (rb_mem s) l" "tree_any (rb_mem s) sr" using D(3,5,7) by (auto intro: tree_anyI)
  have cp: "cptr (D @ CR l sp c # C) = cptr (D @ [CR l sp c])" by (simp add: cptr_append)
  show ?thesis
  proof (cases "D = []")
    case True
    then have sp: "rb_left (rb_mem s sp) = 0" "rb_right (rb_mem s sp) = tptr sr" "sp \<noteq> 0" "4 dvd sp"
      "rb_parent_color (rb_mem s sp) = pack node sc" "rb_right (rb_mem s node) = sp" using D by auto
    note eq = erase_two_children(1)[OF _ sp(6,3,1)]
    obtain s' where s': "erase_tail node sp sp (tptr sr) s = (if sr = Tip \<and> sc = Black then sp else 0, s')"
      "zip_at s' (D @ CR l sp c # C) (paint Black sr)"
      "unchanged (insert sp (set (nodes l) \<union> set (nodes sr) \<union> set (cnodes C))) s s'"
      using erase_tail_zip[OF D(2,8,4,6) sp(3,4) _ sp(5) D(7) _ any(1) ne(1) any(2), of D] True sp dist by auto
    then show ?thesis using eq D(4) l0 sp(2) nodes True
      by (intro exI[of _ s']) (auto simp: unchanged_def)
  next
    case False
    obtain rl q rc rr where r': "r = Nd rl q rc rr" using ne(2) by (cases r) auto
    have rl: "rl \<noteq> Tip" using mp False r' by auto
    have mp': "min_path rl [CL q rc rr] = (D, sp, sc, sr)" using mp r' rl by (cases rl) auto
    have q: "croot D h = q" for h
    proof -
      have "tptr (plug D (Nd Tip sp sc sr)) = q" using r r' by (metis tptr.simps(2))
      then show ?thesis using croot_plug[OF False] by metis
    qed
    have ch: "rb_right (rb_mem s node) = q" "q \<noteq> 0" "rb_left (rb_mem s q) = tptr rl" "tptr rl \<noteq> 0"
      using z r' rl by (cases rl; auto simp: zip_at_def)+
    have "zip_at s ([] @ CR l node c # C) (Nd rl q rc rr)" using z r' by (simp add: zip_at_CR)
    from erase_successor_refines[OF this rl mp'] have es: "erase_successor s q (tptr rl) = Some (cptr D, sp)"
      using False by (simp add: cptr_append)
    have sp: "rb_right (rb_mem s sp) = tptr sr" "sp \<noteq> 0" "4 dvd sp" "rb_parent_color (rb_mem s sp) = pack (cptr D) sc"
      using D(3) False by auto
    let ?s1 = "upd_left (cptr D) (tptr sr) s"
    let ?s2 = "upd_right sp q ?s1"
    let ?s3 = "rb_set_parent q sp ?s2"
    have inD: "cptr D \<in> set (cnodes D)" "q \<in> set (cnodes D)" using cptr_in[OF False] croot_in[OF False] q by auto
    have "dctx (rb_mem ?s1) node D (tptr sr)"
      using dctx_bottom[OF D(1) False min_path_zip(3)[OF mp ne(2)]] dist by simp
    then have "dctx (rb_mem ?s2) node D (tptr sr)" using dist by simp
    then have d3: "dctx (rb_mem ?s3) sp D (tptr sr)"
      using dctx_top[of ?s2 node D "tptr sr" sp] False dist D(7) sp(3) q by simp
    have "cptr D \<noteq> node" "cptr D \<noteq> sp" "q \<noteq> node" "q \<noteq> sp" "cptr D \<notin> set (nodes l)" "q \<notin> set (nodes l)"
      "cptr D \<notin> set (nodes sr)" "q \<notin> set (nodes sr)" "cptr D \<notin> set (cnodes C)" "q \<notin> set (cnodes C)"
      using inD dist by auto
    then have m3: "ctx_at (rb_mem ?s3) C node" "rb_root ?s3 = croot C node"
      "rb_mem ?s3 node = \<lparr>rb_parent_color = pack (cptr C) c, rb_right = q, rb_left = tptr l\<rparr>"
      "rb_right (rb_mem ?s3 sp) = croot D (tptr sr)" "rb_parent_color (rb_mem ?s3 sp) = pack (cptr D) sc"
      "tree_any (rb_mem ?s3) l" "tree_any (rb_mem ?s3) sr"
      using D dist sp any q by (auto simp: rb_set_parent_def)
    have al: "4 dvd cptr D" using D(1) by (cases D rule: cptr.cases) auto
    obtain s' where s': "erase_tail node (cptr (D @ [CR l sp c])) sp (tptr sr) ?s3 =
        (if sr = Tip \<and> sc = Black then cptr (D @ [CR l sp c]) else 0, s')"
      "zip_at s' (D @ CR l sp c # C) (paint Black sr)"
      "unchanged (insert sp (set (nodes l) \<union> set (nodes sr) \<union> set (cnodes C))) ?s3 s'"
      using erase_tail_zip[OF m3(1-3) D(6) sp(2,3) m3(4,5) al refl m3(6) ne(1) m3(7) d3 dist] by blast
    have "rb_erase_augmented node s = Some (erase_tail node (cptr D) sp (tptr sr) ?s3)"
      using erase_two_children(2)[OF _ ch(1,2,3,4) es] D(4) l0 sp(1) by simp
    moreover have "unchanged (set (nodes (Nd l node c r)) \<union> set (cnodes C)) s s'"
      using s'(3) inD unfolding nodes unchanged_def by (auto simp: rb_set_parent_def)
    ultimately show ?thesis using s'(1,2) cp False by (auto simp: cptr_append)
  qed
qed

section \<open>Erasure\<close>

text \<open>What is left of a tree when a node with at most one child, \<open>x\<close>, has left the place \<open>C\<close>.\<close>

definition del_hole :: "crumb list \<Rightarrow> color \<Rightarrow> rtree \<Rightarrow> rtree" where
  "del_hole C c x = (if x = Tip \<and> c = Black then del_fix C Tip else plug C (paint Black x))"

lemma del_hole_ok:
  assumes "ctx_ok n C" and "rbt_ok n (Nd x p c Tip) \<or> rbt_ok n (Nd Tip p c x)" and "c = Black \<or> ctx_black C"
  shows "rbt (del_hole C c x) \<and> nodes (del_hole C c x) = cleft C @ nodes x @ cright C"
proof (cases "x = Tip \<and> c = Black")
  case True
  then have n: "n = Suc 0" using assms(2) by auto
  then show ?thesis using True assms(1) del_fix_rbt[of 0 C Tip] nodes_del_fix[of 0 C Tip]
    by (simp add: del_hole_def nodes_plug_eq)
next
  case False
  have "rbt_ok n (paint Black x)" using assms(2) False by (cases x; cases c) (auto simp: rbt_ok_Nd split: if_splits)
  then show ?thesis using False rbt_plug[OF assms(1)] by (auto simp: del_hole_def nodes_plug_eq)
qed

lemma rbt_unplug:
  assumes "rbt (plug C t)"
  shows "\<exists>n. ctx_ok n C \<and> rbt_ok n t \<and> (is_black t \<or> ctx_black C)"
  using assms
proof (induction C arbitrary: t)
  case (Cons x C)
  then obtain n where n: "ctx_ok n C" "rbt_ok n (plug [x] t)" "is_black (plug [x] t) \<or> ctx_black C"
    using plug_Cons[of x C t] by metis
  show ?case
  proof (cases "crumb_black x")
    case True
    then show ?thesis using n by (cases x) (auto simp: rbt_ok_Nd)
  next
    case False
    then show ?thesis using n by (cases x) (auto simp: rbt_ok_Nd)
  qed
qed (auto simp: rbt_def)

lemma in_nodes_plug: "p \<in> set (nodes t) \<Longrightarrow> \<exists>C l c r. t = plug C (Nd l p c r)"
proof (induction t)
  case (Nd l q c r)
  consider "p = q" | "p \<in> set (nodes l)" | "p \<in> set (nodes r)" using Nd.prems by auto
  then show ?case
  proof cases
    case 1
    then have "rtree.Nd l q c r = plug [] (rtree.Nd l p c r)" by simp
    then show ?thesis by blast
  next
    case 2
    then obtain C l' c' r' where "l = plug C (rtree.Nd l' p c' r')" using Nd.IH(1) by blast
    then have "rtree.Nd l q c r = plug (C @ [CL q c r]) (rtree.Nd l' p c' r')" by (simp add: plug_append)
    then show ?thesis by blast
  next
    case 3
    then obtain C l' c' r' where "r = plug C (rtree.Nd l' p c' r')" using Nd.IH(2) by blast
    then have "rtree.Nd l q c r = plug (C @ [CR l q c]) (rtree.Nd l' p c' r')" by (simp add: plug_append)
    then show ?thesis by blast
  qed
qed simp

lemma erase_from_hole:
  assumes "rb_erase_augmented node s = Some (if x = Tip \<and> c = Black then cptr C else 0, s1)"
    and z: "zip_at s1 C (paint Black x)" and ok: "ctx_ok n C" "rbt_ok n (Nd x p c Tip) \<or> rbt_ok n (Nd Tip p c x)"
    and "set (nodes x) \<union> set (cnodes C) \<subseteq> S" and "unchanged S s s1"
  shows "\<exists>s'. rb_erase node s = Some s' \<and> rb_at s' (del_hole C c x) \<and> unchanged S s s'"
proof (cases "x = Tip \<and> c = Black \<and> C \<noteq> []")
  case False
  then have "rb_erase node s = Some s1" using assms(1) by (cases C) (auto simp: rb_erase_def)
  moreover have "rb_at s1 (del_hole C c x)" using False z by (auto simp: del_hole_def zip_at_plug)
  ultimately show ?thesis using assms(6) by blast
next
  case True
  have "cptr C \<noteq> 0" using True z cptr_eq_0[of "rb_mem s1" C] by (auto simp: zip_at_def)
  then have eq: "rb_erase node s = rb_erase_color (tptr Tip) (cptr C) s1" using True assms(1) by (simp add: rb_erase_def)
  have n: "n = Suc 0" using True ok(2) by auto
  obtain s' where "rb_erase_color (tptr Tip) (cptr C) s1 = Some s'" "rb_at s' (del_fix C Tip)"
    "unchanged (set (nodes (plug C Tip))) s1 s'"
    using erase_loop_refines[of s1 C Tip 0] z True ok(1) n by auto
  moreover from this(3) have "unchanged S s1 s'" using assms(5) by (auto simp: unchanged_def set_nodes_plug)
  ultimately show ?thesis using eq True assms(6) by (auto simp: del_hole_def intro: unchanged_trans)
qed

lemma ctx_ok_append:
  "ctx_ok n (D @ CR l p c # C) \<longleftrightarrow> ctx_ok n (D @ CR l q c # C)" "ctx_black (D @ CR l p c # C) \<longleftrightarrow> ctx_black (D @ CR l q c # C)"
  by (induction D arbitrary: n) (auto simp: ctx_black_def split: list.splits)

lemma cleft_append: "cleft (D @ C) = cleft C @ cleft D" "cright (D @ C) = cright D @ cright C"
  by (induction D rule: cleft.induct) auto

lemma all_left_cleft: "all_left D \<Longrightarrow> cleft D = []"
  by (induction D rule: all_left.induct) auto

lemma unlink_short:
  assumes z: "zip_at s C (Nd l node c r)" and ok: "rbt_ok n (Nd l node c r)" and short: "l = Tip \<or> r = Tip"
  shows "\<exists>x s1. rb_erase_augmented node s = Some (if x = Tip \<and> c = Black then cptr C else 0, s1) \<and>
    zip_at s1 C (paint Black x) \<and> (rbt_ok n (Nd x node c Tip) \<or> rbt_ok n (Nd Tip node c x)) \<and>
    unchanged (set (nodes (Nd l node c r)) \<union> set (cnodes C)) s s1 \<and> nodes x = nodes l @ nodes r"
proof -
  consider (leaf) "l = Tip" "r = Tip" | (right) "l = Tip" "r \<noteq> Tip" | (left) "l \<noteq> Tip" "r = Tip" using short by blast
  then show ?thesis
  proof cases
    case leaf
    then show ?thesis using unlink_leaf[of s C node c] z ok
      by (intro exI[of _ Tip]) (auto simp: unchanged_def)
  next
    case right
    then have "c = Black" using ok by (cases r; cases c) (auto simp: rbt_ok_Nd split: if_splits)
    then show ?thesis using unlink_right[of s C node c r] z ok right
      by (intro exI[of _ r]) (auto simp: unchanged_def)
  next
    case left
    then have "c = Black" using ok by (cases l; cases c) (auto simp: rbt_ok_Nd split: if_splits)
    then show ?thesis using unlink_left[of s C l node c] z ok left
      by (intro exI[of _ l]) (auto simp: unchanged_def)
  qed
qed

lemma rb_erase_refines:
  assumes t: "rb_at s t" "rbt t" and node: "node \<in> set (nodes t)"
  shows "\<exists>s' t'. rb_erase node s = Some s' \<and> rb_at s' t' \<and> rbt t' \<and> nodes t' = remove1 node (nodes t) \<and>
    unchanged (set (nodes t)) s s'"
proof -
  obtain C l c r where tC: "t = plug C (Nd l node c r)" using in_nodes_plug[OF node] by blast
  have z: "zip_at s C (Nd l node c r)" using t(1) tC by (simp add: zip_at_plug)
  obtain n where ok: "ctx_ok n C" "rbt_ok n (Nd l node c r)" "c = Black \<or> ctx_black C"
    using rbt_unplug[of C "Nd l node c r"] t(2) tC by auto
  have "distinct (nodes t)" using t(1) by (simp add: rb_at_def zip_at_def)
  then have "node \<notin> set (cleft C @ nodes l)" unfolding tC nodes_plug_eq by auto
  then have rem: "remove1 node (nodes t) = cleft C @ nodes l @ nodes r @ cright C"
    unfolding tC nodes_plug_eq by (simp add: remove1_append)
  have S: "set (nodes t) = set (nodes (Nd l node c r)) \<union> set (cnodes C)" unfolding tC by (simp add: set_nodes_plug)
  show ?thesis
  proof (cases "l = Tip \<or> r = Tip")
    case True
    obtain x s1 where x: "rb_erase_augmented node s = Some (if x = Tip \<and> c = Black then cptr C else 0, s1)"
      "zip_at s1 C (paint Black x)" "rbt_ok n (Nd x node c Tip) \<or> rbt_ok n (Nd Tip node c x)"
      "unchanged (set (nodes t)) s s1" "nodes x = nodes l @ nodes r"
      using unlink_short[OF z ok(2) True] S by metis
    then show ?thesis
      using erase_from_hole[OF x(1,2) ok(1) x(3) _ x(4)] del_hole_ok[OF ok(1) x(3) ok(3)] rem S
      by (fastforce simp: Un_assoc)
  next
    case False
    obtain D sp sc sr where mp: "min_path r [] = (D, sp, sc, sr)" by (metis prod_cases4)
    have r: "r = plug D (Nd Tip sp sc sr)" "all_left D" using min_path_zip(2,3)[OF mp] False by auto
    obtain s1 where s1: "rb_erase_augmented node s =
        Some (if sr = Tip \<and> sc = Black then cptr (D @ CR l sp c # C) else 0, s1)"
      "zip_at s1 (D @ CR l sp c # C) (paint Black sr)" "unchanged (set (nodes t)) s s1"
      using unlink_two[OF z _ _ mp] False S by auto
    have "rbt (plug (D @ CR l node c # C) (Nd Tip sp sc sr))" using t(2) tC r by (simp add: plug_append)
    from rbt_unplug[OF this] obtain k where k: "ctx_ok k (D @ CR l sp c # C)" "rbt_ok k (Nd Tip sp sc sr)"
      "sc = Black \<or> ctx_black (D @ CR l sp c # C)" using ctx_ok_append[where p = node and q = sp] by auto
    have "set (nodes sr) \<union> set (cnodes (D @ CR l sp c # C)) \<subseteq> set (nodes t)"
      unfolding S r(1) by (auto simp: set_nodes_plug)
    from erase_from_hole[OF s1(1,2) k(1) disjI2[OF k(2)] this s1(3)] del_hole_ok[OF k(1) disjI2[OF k(2)] k(3)]
    show ?thesis using rem r by (auto simp: cleft_append all_left_cleft nodes_plug_eq)
  qed
qed

end
