(* ===== verification/Rbtree_Walk.thy ===== *)
theory Rbtree_Walk
  imports Rbtree_Erase
begin

text \<open>
  Traversal of the red-black trees of \<^verbatim>\<open>kernel/lib/rbtree.cpp\<close>, replacement of nodes, the trees
  that cache their first node, and the properties of the whole component.
\<close>

section \<open>In order\<close>

fun hd0 :: "nat list \<Rightarrow> nat" where
  "hd0 [] = 0"
| "hd0 (x # xs) = x"

definition last0 :: "nat list \<Rightarrow> nat" where
  "last0 xs = hd0 (rev xs)"

lemma hd0_append: "hd0 (xs @ ys) = (if xs = [] then hd0 ys else hd0 xs)"
  by (cases xs) auto

lemma nodes_eq_Nil [simp]: "nodes t = [] \<longleftrightarrow> t = Tip"
  by (cases t) auto

lemma tptr_eq_0: "tree_at m par t \<Longrightarrow> tptr t = 0 \<longleftrightarrow> t = Tip"
  by (cases t) auto

lemma go_left_tree:
  assumes "tree_at (rb_mem s) par t" and "t \<noteq> Tip"
  shows "go_left s (tptr t) = Some (hd0 (nodes t))"
  using assms
proof (induction t arbitrary: par)
  case (Nd l p c r)
  then show ?case using tptr_eq_0[of "rb_mem s" p l]
    by (subst go_left.simps; cases "l = Tip") (auto simp: hd0_append)
qed simp

lemma go_right_tree:
  assumes "tree_at (rb_mem s) par t" and "t \<noteq> Tip"
  shows "go_right s (tptr t) = Some (last0 (nodes t))"
  using assms
proof (induction t arbitrary: par)
  case (Nd l p c r)
  then show ?case using tptr_eq_0[of "rb_mem s" p r]
    by (subst go_right.simps; cases "r = Tip") (auto simp: hd0_append last0_def)
qed simp

lemma rb_first_at: "rb_at s t \<Longrightarrow> rb_first s = Some (hd0 (nodes t))"
  using go_left_tree[of s 0 t] tptr_eq_0[of "rb_mem s" 0 t] by (auto simp: rb_first_def rb_at_def zip_at_def)

lemma rb_last_at: "rb_at s t \<Longrightarrow> rb_last s = Some (last0 (nodes t))"
  using go_right_tree[of s 0 t] tptr_eq_0[of "rb_mem s" 0 t]
  by (auto simp: rb_last_def rb_at_def zip_at_def last0_def)

lemma zip_ptr_neq:
  assumes "zip_at s (x # C) t" and "t \<noteq> Tip"
  shows "tptr t \<noteq> tptr (sibling x)"
proof -
  have "tree_at (rb_mem s) (cptr [x]) t" "tree_at (rb_mem s) (cptr [x]) (sibling x)"
    "set (nodes t) \<inter> set (nodes (sibling x)) = {}" using assms(1) by (cases x; auto simp: zip_at_def)+
  then show ?thesis using tptr_neq(1) assms(2) by blast
qed

lemma rb_parent_zip: "zip_at s C t \<Longrightarrow> t \<noteq> Tip \<Longrightarrow> rb_parent s (tptr t) = cptr C"
  using cptr_aligned[of "rb_mem s" C] by (cases t) (auto simp: zip_at_def rb_parent_def)

lemma climb_right_zip: "zip_at s C t \<Longrightarrow> t \<noteq> Tip \<Longrightarrow> climb_right s (tptr t) = Some (hd0 (cright C))"
proof (induction C arbitrary: t)
  case Nil
  then show ?case using rb_parent_zip[OF Nil] by (subst climb_right.simps) simp
next
  case (Cons x C)
  note p = rb_parent_zip[OF Cons.prems]
  show ?case
  proof (cases x)
    case (CL q c r)
    then show ?thesis using Cons.prems p zip_ptr_neq[OF Cons.prems]
      by (subst climb_right.simps) (auto simp: zip_at_def)
  next
    case (CR l q c)
    then show ?thesis using Cons.prems p Cons.IH[of "Nd l q c t"]
      by (subst climb_right.simps) (auto simp: zip_at_def)
  qed
qed

lemma climb_left_zip: "zip_at s C t \<Longrightarrow> t \<noteq> Tip \<Longrightarrow> climb_left s (tptr t) = Some (last0 (cleft C))"
proof (induction C arbitrary: t)
  case Nil
  then show ?case using rb_parent_zip[OF Nil] by (subst climb_left.simps) (simp add: last0_def)
next
  case (Cons x C)
  note p = rb_parent_zip[OF Cons.prems]
  show ?case
  proof (cases x)
    case (CL q c r)
    then show ?thesis using Cons.prems p Cons.IH[of "Nd t q c r"]
      by (subst climb_left.simps) (auto simp: zip_at_def)
  next
    case (CR l q c)
    then show ?thesis using Cons.prems p zip_ptr_neq[OF Cons.prems]
      by (subst climb_left.simps) (auto simp: zip_at_def last0_def)
  qed
qed

lemma not_empty_node: "zip_at s C (Nd l p c r) \<Longrightarrow> \<not> RB_EMPTY_NODE s p"
proof
  assume z: "zip_at s C (Nd l p c r)" and "RB_EMPTY_NODE s p"
  then have eq: "pack (cptr C) c = p" by (simp add: zip_at_def RB_EMPTY_NODE_def)
  have al: "4 dvd cptr C" "4 dvd p" "p \<noteq> 0" using z cptr_aligned[of "rb_mem s" C p] by (auto simp: zip_at_def)
  have "cptr C \<noteq> p" using z al(3) cptr_in[of C] by (cases "C = []") (auto simp: zip_at_def)
  moreover have "pc_parent (pack (cptr C) c) = cptr C" "pc_parent p = p" using al by simp_all
  ultimately show False using eq by simp
qed

lemma rb_next_zip:
  assumes "zip_at s C (Nd l p c r)"
  shows "rb_next s p = Some (hd0 (nodes r @ cright C))"
  using assms not_empty_node[OF assms] go_left_tree[of s p r] climb_right_zip[of s C "Nd l p c r"] tptr_eq_0[of "rb_mem s" p r]
  by (cases "r = Tip") (auto simp: rb_next_def zip_at_def hd0_append)

lemma rb_prev_zip:
  assumes "zip_at s C (Nd l p c r)"
  shows "rb_prev s p = Some (last0 (cleft C @ nodes l))"
  using assms not_empty_node[OF assms] go_right_tree[of s p l] climb_left_zip[of s C "Nd l p c r"] tptr_eq_0[of "rb_mem s" p l]
  by (cases "l = Tip") (auto simp: rb_prev_def zip_at_def hd0_append last0_def)

lemma nodes_at_not_0: "rb_at s t \<Longrightarrow> 0 \<notin> set (nodes t)"
  using nodes_not_0[of "rb_mem s" 0 t] by (auto simp: rb_at_def zip_at_def)

lemma split_unique: "xs @ p # ys = us @ p # vs \<Longrightarrow> distinct (xs @ p # ys) \<Longrightarrow> xs = us \<and> ys = vs"
proof -
  assume eq: "xs @ p # ys = us @ p # vs" and d: "distinct (xs @ p # ys)"
  have "p \<notin> set xs" "p \<notin> set ys" using d by auto
  then show ?thesis using append_Cons_eq_iff[of p xs ys us vs] eq by blast
qed

lemma rb_next_at:
  assumes "rb_at s t" and "nodes t = xs @ p # ys"
  shows "rb_next s p = Some (hd0 ys)" and "rb_prev s p = Some (last0 xs)"
proof -
  obtain C l c r where t: "t = plug C (Nd l p c r)" using in_nodes_plug[of p t] assms(2) by auto
  have z: "zip_at s C (Nd l p c r)" using assms(1) t by (simp add: zip_at_plug)
  have d: "distinct (nodes t)" using assms(1) by (simp add: rb_at_def zip_at_def)
  have "(cleft C @ nodes l) @ p # (nodes r @ cright C) = xs @ p # ys"
    using assms(2) unfolding t nodes_plug_eq by simp
  from split_unique[OF this] have "cleft C @ nodes l = xs" "nodes r @ cright C = ys"
    using d unfolding t nodes_plug_eq by auto
  then show "rb_next s p = Some (hd0 ys)" "rb_prev s p = Some (last0 xs)"
    using rb_next_zip[OF z] rb_prev_zip[OF z] by auto
qed

text \<open>A loop whose step goes from each element of a list to the next visits the list.\<close>

lemma rb_for_each_list:
  assumes "0 \<notin> set ys" and "\<And>us p vs. ys = us @ p # vs \<Longrightarrow> step p = Some (hd0 vs)"
  shows "rb_for_each step (hd0 ys) = Some ys"
  using assms
proof (induction ys)
  case Nil
  show ?case by (subst rb_for_each.simps) simp
next
  case (Cons y ys)
  have "step p = Some (hd0 vs)" if "ys = us @ p # vs" for us p vs
    using Cons.prems(2)[of "y # us" p vs] that by simp
  then have "rb_for_each step (hd0 ys) = Some ys" using Cons by simp
  moreover have "step y = Some (hd0 ys)" using Cons.prems(2)[of "[]" y ys] by simp
  ultimately show ?case using Cons.prems(1) by (subst rb_for_each.simps) simp
qed

lemma rb_forward_at: "rb_at s t \<Longrightarrow> rb_forward s = Some (nodes t)"
  using rb_for_each_list[of "nodes t" "rb_next s"] rb_next_at(1) nodes_at_not_0
  by (simp add: rb_forward_def rb_first_at)

lemma rb_backward_at:
  assumes "rb_at s t"
  shows "rb_backward s = Some (rev (nodes t))"
proof -
  have "rb_prev s p = Some (hd0 vs)" if "rev (nodes t) = us @ p # vs" for us p vs
  proof -
    have "nodes t = rev vs @ p # rev us" using arg_cong[OF that, of rev] by simp
    then show ?thesis using rb_next_at(2)[OF assms] by (simp add: last0_def)
  qed
  then show ?thesis using rb_for_each_list[of "rev (nodes t)" "rb_prev s"] nodes_at_not_0[OF assms]
    by (simp add: rb_backward_def rb_last_at[OF assms] last0_def)
qed

section \<open>Children before their parent\<close>

fun post :: "rtree \<Rightarrow> nat list" where
  "post Tip = []"
| "post (Nd l p c r) = post l @ post r @ [p]"

fun cpost :: "crumb list \<Rightarrow> nat list" where
  "cpost [] = []"
| "cpost (CL p c r # C) = post r @ p # cpost C"
| "cpost (CR l p c # C) = p # cpost C"

lemma post_eq_Nil [simp]: "post t = [] \<longleftrightarrow> t = Tip"
  by (cases t) auto

lemma set_post: "set (post t) = set (nodes t)"
  by (induction t) auto

lemma left_deepest_tree:
  assumes "tree_at (rb_mem s) par t" and "t \<noteq> Tip"
  shows "rb_left_deepest_node s (tptr t) = Some (hd0 (post t))"
  using assms
proof (induction t arbitrary: par)
  case (Nd l p c r)
  then show ?case using tptr_eq_0[of "rb_mem s" p l] tptr_eq_0[of "rb_mem s" p r]
    by (subst rb_left_deepest_node.simps; cases "l = Tip"; cases "r = Tip") (auto simp: hd0_append)
qed simp

lemma rb_next_postorder_zip:
  assumes "zip_at s C t" and "t \<noteq> Tip"
  shows "rb_next_postorder s (tptr t) = Some (hd0 (cpost C))"
proof -
  have p: "rb_parent s (tptr t) = cptr C" "tptr t \<noteq> 0"
    using rb_parent_zip[OF assms] assms tptr_eq_0[of "rb_mem s" "cptr C" t] by (auto simp: zip_at_def)
  show ?thesis
  proof (cases C)
    case Nil
    then show ?thesis using p by (simp add: rb_next_postorder_def)
  next
    case (Cons x D)
    show ?thesis
    proof (cases x)
      case (CL q c r)
      then show ?thesis using assms p Cons left_deepest_tree[of s q r] tptr_eq_0[of "rb_mem s" q r]
        by (cases "r = Tip") (auto simp: rb_next_postorder_def zip_at_def hd0_append)
    next
      case (CR l q c)
      then show ?thesis using assms p Cons zip_ptr_neq[of s x D t]
        by (auto simp: rb_next_postorder_def zip_at_def)
    qed
  qed
qed

text \<open>The walk from the first node of a subtree, in post-order, comes to what follows the subtree.\<close>

lemma post_walk:
  assumes "zip_at s C t" and "rb_for_each (rb_next_postorder s) (hd0 (cpost C)) = Some ns"
  shows "rb_for_each (rb_next_postorder s) (hd0 (post t @ cpost C)) = Some (post t @ ns)"
  using assms
proof (induction t arbitrary: C ns)
  case (Nd l p c r)
  have z: "zip_at s (CL p c r # C) l" "zip_at s (CR l p c # C) r"
    using Nd.prems(1) by (simp_all add: zip_at_CL zip_at_CR)
  have "p \<noteq> 0" using Nd.prems(1) by (simp add: zip_at_def)
  then have "rb_for_each (rb_next_postorder s) p = Some (p # ns)"
    using rb_next_postorder_zip[OF Nd.prems(1)] Nd.prems(2) by (subst rb_for_each.simps) simp
  then have "rb_for_each (rb_next_postorder s) (hd0 (post r @ cpost (CR l p c # C))) = Some (post r @ p # ns)"
    using Nd.IH(2)[OF z(2)] by simp
  then have "rb_for_each (rb_next_postorder s) (hd0 (post l @ cpost (CL p c r # C))) = Some (post l @ post r @ p # ns)"
    using Nd.IH(1)[OF z(1)] by simp
  then show ?case by simp
qed simp

lemma rb_postorder_at:
  assumes "rb_at s t"
  shows "rb_postorder s = Some (post t)"
proof -
  have z: "zip_at s [] t" using assms by (simp add: rb_at_def)
  have "rb_for_each (rb_next_postorder s) (hd0 (cpost [])) = Some []" by (subst rb_for_each.simps) simp
  from post_walk[OF z this] have "rb_for_each (rb_next_postorder s) (hd0 (post t)) = Some (post t)" by simp
  moreover have "rb_first_postorder s = Some (hd0 (post t))"
    using z left_deepest_tree[of s 0 t] tptr_eq_0[of "rb_mem s" 0 t] by (auto simp: rb_first_postorder_def zip_at_def)
  ultimately show ?thesis by (simp add: rb_postorder_def)
qed

section \<open>Replacing a node\<close>

lemma rb_replace_zip:
  assumes z: "zip_at s C (Nd l v c r)" and n: "n \<noteq> 0" "4 dvd n" "n \<notin> set (nodes (plug C (Nd l v c r)))"
  shows "zip_at (rb_replace_node v n s) C (Nd l n c r) \<and>
    unchanged (set (nodes (plug C (Nd l v c r))) \<union> {n}) s (rb_replace_node v n s)"
proof -
  let ?s1 = "s\<lparr>rb_mem := (rb_mem s)(n := rb_mem s v)\<rparr>"
  let ?s = "set_parent_if (tptr r) n (set_parent_if (tptr l) n ?s1)"
  have nn: "n \<noteq> v" "n \<notin> set (nodes l)" "n \<notin> set (nodes r)" "n \<notin> set (cnodes C)"
    using n(3) by (auto simp: set_nodes_plug)
  have any: "tree_any (rb_mem s) l" "tree_any (rb_mem s) r" using z by (auto simp: zip_at_def intro: tree_anyI)
  have eq: "rb_replace_node v n s = rb_change_child v n (cptr C) ?s"
    using z nn cptr_aligned[of "rb_mem s" C v] by (auto simp: rb_replace_node_def zip_at_def rb_parent_def Let_def)
  have 1: "ctx_at (rb_mem ?s) C v" "rb_root ?s = croot C v" "distinct (cnodes C)" "v \<noteq> 0" "v \<notin> set (cnodes C)"
    using z nn by (auto simp: zip_at_def)
  note cc = change_child[OF 1, where new = n]
  have "tree_at (rb_mem ?s) (cptr C) (Nd l n c r)" using z nn n any by (auto simp: zip_at_def)
  moreover have "rb_mem (rb_change_child v n (cptr C) ?s) x = rb_mem ?s x" if "x \<in> set (nodes (Nd l n c r))" for x
    using that z nn by (intro cc(3)) (auto simp: zip_at_def)
  ultimately have "tree_at (rb_mem (rb_change_child v n (cptr C) ?s)) (cptr C) (Nd l n c r)"
    using tree_at_cong by blast
  then have "zip_at (rb_replace_node v n s) C (Nd l n c r)"
    unfolding eq using cc(1,2) z nn by (auto simp: zip_at_def)
  moreover have "unchanged (set (nodes (plug C (Nd l v c r))) \<union> {n}) s (rb_replace_node v n s)"
    unfolding eq using cc(3) by (auto simp: unchanged_def set_nodes_plug)
  ultimately show ?thesis by blast
qed

lemma rb_replace_refines:
  assumes t: "rb_at s t" "rbt t" and v: "v \<in> set (nodes t)" and n: "n \<noteq> 0" "4 dvd n" "n \<notin> set (nodes t)"
  shows "\<exists>t'. rb_at (rb_replace_node v n s) t' \<and> rbt t' \<and> nodes t' = map (\<lambda>p. if p = v then n else p) (nodes t) \<and>
    unchanged (insert n (set (nodes t))) s (rb_replace_node v n s)"
proof -
  obtain C l c r where tC: "t = plug C (Nd l v c r)" using in_nodes_plug[OF v] by blast
  have z: "zip_at s C (Nd l v c r)" using t(1) tC by (simp add: zip_at_plug)
  note rep = rb_replace_zip[OF z n(1,2) n(3)[unfolded tC]]
  have "rbt (plug C (Nd l n c r))" using rbt_unplug[of C "Nd l v c r"] t(2) tC rbt_plug[of _ C "Nd l n c r"]
    by (auto simp: rbt_ok_Nd)
  moreover have "distinct (nodes t)" using t(1) by (simp add: rb_at_def zip_at_def)
  then have "nodes (plug C (Nd l n c r)) = map (\<lambda>p. if p = v then n else p) (nodes t)"
    unfolding tC nodes_plug_eq by (auto intro!: map_idI[symmetric])
  ultimately show ?thesis using rep tC by (auto simp: zip_at_plug intro!: exI[of _ "plug C (Nd l n c r)"])
qed

text \<open>A tree that caches its first node keeps the cache right.\<close>

lemma hd0_remove1: "distinct ps \<Longrightarrow> hd0 (remove1 v ps) = (if hd0 ps = v \<and> ps \<noteq> [] then hd0 (tl ps) else hd0 ps)"
  by (cases ps) auto

lemma rb_erase_cached_refines:
  assumes "rb_at (rbc_tree r) t" and "rbt t" and "rb_leftmost r = hd0 (nodes t)" and "v \<in> set (nodes t)"
  shows "\<exists>r' t'. rb_erase_cached v r = Some r' \<and> rb_at (rbc_tree r') t' \<and> rbt t' \<and>
    nodes t' = remove1 v (nodes t) \<and> rb_leftmost r' = hd0 (nodes t')"
proof -
  obtain s' t' where s': "rb_erase v (rbc_tree r) = Some s'" "rb_at s' t'" "rbt t'" "nodes t' = remove1 v (nodes t)"
    using rb_erase_refines[OF assms(1,2,4)] by blast
  obtain p ps where ps: "nodes t = p # ps" using assms(4) by (cases "nodes t") auto
  have "distinct (nodes t)" using assms(1) by (simp add: rb_at_def zip_at_def)
  note h = hd0_remove1[OF this, of v]
  have "rb_next (rbc_tree r) p = Some (hd0 ps)" using rb_next_at(1)[OF assms(1), of "[]" p ps] ps by simp
  then show ?thesis using s' h ps assms(3) by (auto simp: rb_erase_cached_def)
qed

section \<open>Trees as an index\<close>

lemma sorted_key_split:
  fixes key :: "nat \<Rightarrow> int"
  assumes "sorted_wrt (\<lambda>p q. key p < key q) ps" and "\<forall>p \<in> set ps. key p \<noteq> k"
  shows "ps = filter (\<lambda>p. key p < k) ps @ filter (\<lambda>p. k < key p) ps"
  using assms
proof (induction ps)
  case (Cons p ps)
  show ?case
  proof (cases "key p < k")
    case False
    then have "\<forall>q \<in> set ps. k < key q" using Cons.prems by force
    then have "filter (\<lambda>p. key p < k) ps = []" "filter (\<lambda>p. k < key p) ps = ps"
      by (fastforce simp: filter_empty_conv intro: filter_True)+
    then show ?thesis using False Cons.prems by simp
  qed (use Cons in simp)
qed simp

lemma sorted_wrt_remove1: "sorted_wrt P ps \<Longrightarrow> sorted_wrt P (remove1 x ps)"
  by (induction ps) (auto dest: in_set_remove1[THEN iffD1, rotated] notin_set_remove1)

text \<open>
  What a client of the trees relies on: an index that holds a list of nodes in order, where a
  node goes in behind the nodes its callback puts to its left, and comes out by its address.
\<close>

locale node_index =
  fixes holds :: "'s \<Rightarrow> nat list \<Rightarrow> bool" and fresh :: "nat \<Rightarrow> bool"
    and ins :: "nat \<Rightarrow> (nat \<Rightarrow> int) \<Rightarrow> 's \<Rightarrow> (bool \<times> 's) option" and del :: "nat \<Rightarrow> 's \<Rightarrow> 's option"
    and walk :: "'s \<Rightarrow> nat list option"
  assumes ins_taken: "holds s ps \<Longrightarrow> fresh node \<Longrightarrow> node \<notin> set ps \<Longrightarrow> cb_mono cb ps \<Longrightarrow>
      \<exists>p \<in> set ps. cb p = 0 \<Longrightarrow> ins node cb s = Some (False, s)"
    and ins_new: "holds s ps \<Longrightarrow> fresh node \<Longrightarrow> node \<notin> set ps \<Longrightarrow> cb_mono cb ps \<Longrightarrow>
      \<not> (\<exists>p \<in> set ps. cb p = 0) \<Longrightarrow> \<exists>s'. ins node cb s = Some (True, s') \<and>
        holds s' (filter (\<lambda>p. cb p = 1) ps @ node # filter (\<lambda>p. cb p = -1) ps)"
    and del_held: "holds s ps \<Longrightarrow> node \<in> set ps \<Longrightarrow> \<exists>s'. del node s = Some s' \<and> holds s' (remove1 node ps)"
    and walk_held: "holds s ps \<Longrightarrow> walk s = Some ps"
begin

text \<open>With the sign of a difference of keys as the callback, the index stays sorted by key.\<close>

definition by_key :: "(nat \<Rightarrow> int) \<Rightarrow> int \<Rightarrow> nat \<Rightarrow> int" where
  "by_key key k p = sgn (k - key p)"

definition keyed :: "(nat \<Rightarrow> int) \<Rightarrow> 's \<Rightarrow> nat list \<Rightarrow> bool" where
  "keyed key s ps \<longleftrightarrow> holds s ps \<and> sorted_wrt (\<lambda>p q. key p < key q) ps"

lemma by_key_mono: "sorted_wrt (\<lambda>p q. key p < key q) ps \<Longrightarrow> cb_mono (by_key key k) ps"
  unfolding cb_mono_def by_key_def
  by (auto simp: sgn_if elim: sorted_wrt_mono_rel[rotated])

lemma keyed_ins:
  assumes "keyed key s ps" and "fresh node" and "node \<notin> set ps" and "\<forall>p \<in> set ps. key p \<noteq> key node"
  shows "\<exists>s' xs ys. ps = xs @ ys \<and> ins node (by_key key (key node)) s = Some (True, s') \<and> keyed key s' (xs @ node # ys)"
proof -
  let ?cb = "by_key key (key node)"
  let ?xs = "filter (\<lambda>p. ?cb p = 1) ps" and ?ys = "filter (\<lambda>p. ?cb p = -1) ps"
  have h: "holds s ps" and srt: "sorted_wrt (\<lambda>p q. key p < key q) ps" using assms(1) by (auto simp: keyed_def)
  have "\<not> (\<exists>p \<in> set ps. ?cb p = 0)" using assms(4) by (auto simp: by_key_def sgn_if split: if_splits)
  from ins_new[OF h assms(2,3) by_key_mono[OF srt] this] obtain s' where
    s': "ins node ?cb s = Some (True, s')" "holds s' (?xs @ node # ?ys)" by blast
  have "?xs = filter (\<lambda>p. key p < key node) ps" "?ys = filter (\<lambda>p. key node < key p) ps"
    by (auto simp: by_key_def sgn_if intro!: filter_cong)
  then have eq: "ps = ?xs @ ?ys" using sorted_key_split[OF srt assms(4)] by simp
  have "sorted_wrt (\<lambda>p q. key p < key q) (?xs @ node # ?ys)" using srt
    by (auto simp: sorted_wrt_append sorted_wrt_filter by_key_def sgn_if split: if_splits)
  with s' eq show ?thesis unfolding keyed_def by blast
qed

lemma keyed_del:
  assumes "keyed key s ps" and "node \<in> set ps"
  shows "\<exists>s'. del node s = Some s' \<and> keyed key s' (remove1 node ps)"
proof -
  have "sorted_wrt (\<lambda>p q. key p < key q) (remove1 node ps)"
    using assms(1) unfolding keyed_def by (simp add: sorted_wrt_remove1)
  with del_held[of s ps node] assms show ?thesis by (auto simp: keyed_def)
qed

end

definition rb_holds :: "rb_state \<Rightarrow> nat list \<Rightarrow> bool" where
  "rb_holds s ps \<longleftrightarrow> (\<exists>t. rb_at s t \<and> rbt t \<and> nodes t = ps)"

definition rb_aligned :: "nat \<Rightarrow> bool" where
  "rb_aligned p \<longleftrightarrow> p \<noteq> 0 \<and> 4 dvd p"

interpretation rbi: node_index rb_holds rb_aligned rb_insert rb_erase rb_forward
proof
  fix s ps node and cb :: "nat \<Rightarrow> int"
  assume "rb_holds s ps" "rb_aligned node" "node \<notin> set ps" "cb_mono cb ps" "\<exists>p \<in> set ps. cb p = 0"
  then show "rb_insert node cb s = Some (False, s)"
    using rb_insert_refines(1)[of s _ node cb] unfolding rb_holds_def rb_aligned_def by blast
next
  fix s ps node and cb :: "nat \<Rightarrow> int"
  assume "rb_holds s ps" "rb_aligned node" "node \<notin> set ps" "cb_mono cb ps" "\<not> (\<exists>p \<in> set ps. cb p = 0)"
  then show "\<exists>s'. rb_insert node cb s = Some (True, s') \<and>
      rb_holds s' (filter (\<lambda>p. cb p = 1) ps @ node # filter (\<lambda>p. cb p = -1) ps)"
    using rb_insert_refines(2)[of s _ node cb] unfolding rb_holds_def rb_aligned_def by metis
next
  fix s ps node
  assume "rb_holds s ps" "node \<in> set ps"
  then show "\<exists>s'. rb_erase node s = Some s' \<and> rb_holds s' (remove1 node ps)"
    using rb_erase_refines unfolding rb_holds_def by metis
next
  fix s ps
  assume "rb_holds s ps"
  then show "rb_forward s = Some ps" using rb_forward_at by (auto simp: rb_holds_def)
qed

section \<open>Balance\<close>

fun height :: "rtree \<Rightarrow> nat" where
  "height Tip = 0"
| "height (Nd l p c r) = Suc (max (height l) (height r))"

lemma rbt_ok_height: "rbt_ok n t \<Longrightarrow> height t \<le> 2 * n + (if is_black t then 0 else 1)"
proof (induction t arbitrary: n)
  case (Nd l p c r)
  show ?case
  proof (cases c)
    case Red
    then show ?thesis using Nd.IH(1)[of n] Nd.IH(2)[of n] Nd.prems by auto
  next
    case Black
    then obtain k where "n = Suc k" "rbt_ok k l" "rbt_ok k r" using Nd.prems by auto
    then show ?thesis using Nd.IH(1)[of k] Nd.IH(2)[of k] Black by (auto split: if_splits)
  qed
qed simp

lemma rbt_ok_size: "rbt_ok n t \<Longrightarrow> 2 ^ n \<le> length (nodes t) + 1"
proof (induction t arbitrary: n)
  case (Nd l p c r)
  show ?case
  proof (cases c)
    case Red
    then show ?thesis using Nd.IH(1)[of n] Nd.prems by auto
  next
    case Black
    then obtain k where "n = Suc k" "rbt_ok k l" "rbt_ok k r" using Nd.prems by auto
    then show ?thesis using Nd.IH(1)[of k] Nd.IH(2)[of k] by auto
  qed
qed simp

lemma rbt_height:
  assumes "rbt t"
  shows "2 ^ height t \<le> (length (nodes t) + 1) ^ 2"
proof -
  obtain n where n: "rbt_ok n t" "is_black t" using assms by (auto simp: rbt_def)
  have "height t \<le> 2 * n" using rbt_ok_height[OF n(1)] n(2) by simp
  then have "(2::nat) ^ height t \<le> (2 ^ n) ^ 2" by (simp add: power_mult[symmetric] mult.commute)
  also have "\<dots> \<le> (length (nodes t) + 1) ^ 2" using rbt_ok_size[OF n(1)] by (rule power_mono) simp
  finally show ?thesis .
qed

section \<open>Properties\<close>

text \<open>A client of the trees that inserts nodes with monotone callbacks and erases nodes that are in.\<close>

inductive rb_op :: "rb_state \<Rightarrow> rb_state \<Rightarrow> bool" where
  op_insert: "rb_forward s = Some ps \<Longrightarrow> rb_aligned node \<Longrightarrow> node \<notin> set ps \<Longrightarrow> cb_mono cb ps \<Longrightarrow>
    rb_insert node cb s = Some (b, s') \<Longrightarrow> rb_op s s'"
| op_erase: "rb_forward s = Some ps \<Longrightarrow> node \<in> set ps \<Longrightarrow> rb_erase node s = Some s' \<Longrightarrow> rb_op s s'"

definition rb_empty :: rb_state where
  "rb_empty = \<lparr>rb_mem = (\<lambda>_. \<lparr>rb_parent_color = 0, rb_right = 0, rb_left = 0\<rparr>), rb_root = 0\<rparr>"

lemma rb_empty_at: "rb_at rb_empty Tip" "rbt Tip"
  by (auto simp: rb_at_def zip_at_def rb_empty_def rbt_def)

lemma rb_op_holds: "rb_op s s' \<Longrightarrow> rb_holds s ps \<Longrightarrow> \<exists>ps'. rb_holds s' ps'"
proof (induction rule: rb_op.induct)
  case (op_insert s qs node cb b s')
  then have "qs = ps" using rbi.walk_held by simp
  with op_insert show ?case using rbi.ins_taken[of s ps node cb] rbi.ins_new[of s ps node cb]
    by (cases "\<exists>p \<in> set ps. cb p = 0") auto
next
  case (op_erase s qs node s')
  then have "qs = ps" using rbi.walk_held by simp
  with op_erase show ?case using rbi.del_held[of s ps node] by auto
qed

lemma rb_ops_holds:
  assumes "rb_op\<^sup>*\<^sup>* s s'" and "rb_holds s ps"
  shows "\<exists>ps'. rb_holds s' ps'"
  using assms by (induction rule: rtranclp_induct) (auto dest: rb_op_holds)

text \<open>
  C4: \<^verbatim>\<open>rb_insert\<close> is correct on every well-formed red-black tree in memory: it ends; when the
  callback finds an equal node it reports failure and changes nothing; otherwise the new node
  stands, in order, between the nodes the callback puts left and right of it, the tree is a
  red-black tree again, with parent pointers and colours consistent, and no other memory changed.
\<close>

theorem rb_insert_correct:
  assumes "rb_at s t" and "rbt t" and "node \<notin> set (nodes t)" and "node \<noteq> 0" and "4 dvd node"
    and "cb_mono cb (nodes t)"
  shows "if \<exists>p \<in> set (nodes t). cb p = 0 then rb_insert node cb s = Some (False, s)
    else \<exists>s' t'. rb_insert node cb s = Some (True, s') \<and> rb_at s' t' \<and> rbt t' \<and>
      nodes t' = filter (\<lambda>p. cb p = 1) (nodes t) @ node # filter (\<lambda>p. cb p = -1) (nodes t) \<and>
      unchanged (set (nodes t')) s s'"
  using rb_insert_refines[OF assms] by simp

theorem rb_insert_correct_witness:
  "\<exists>s' t'. rb_insert 8 (\<lambda>_. 1) rb_empty = Some (True, s') \<and> rb_at s' t' \<and> nodes t' = [8]"
  using rb_insert_correct[OF rb_empty_at, of 8 "\<lambda>_. 1"] by (auto simp: cb_mono_def)

text \<open>
  C5: \<^verbatim>\<open>rb_erase\<close> is correct on every well-formed red-black tree in memory: it ends, exactly the
  node is gone and the order of the others is kept, the tree is a red-black tree again, and no
  memory outside the tree changed.
\<close>

theorem rb_erase_correct:
  assumes "rb_at s t" and "rbt t" and "node \<in> set (nodes t)"
  shows "\<exists>s' t'. rb_erase node s = Some s' \<and> rb_at s' t' \<and> rbt t' \<and> nodes t' = remove1 node (nodes t) \<and>
    unchanged (set (nodes t)) s s'"
  using rb_erase_refines[OF assms] .

theorem rb_erase_correct_witness:
  "\<exists>s s' t'. rb_insert 8 (\<lambda>_. 1) rb_empty = Some (True, s) \<and> rb_erase 8 s = Some s' \<and> rb_at s' t' \<and> nodes t' = []"
proof -
  obtain s t where s: "rb_insert 8 (\<lambda>_. 1) rb_empty = Some (True, s)" "rb_at s t" "rbt t" "nodes t = [8]"
    using rb_insert_refines(2)[OF rb_empty_at, of 8 "\<lambda>_. 1"] by (auto simp: cb_mono_def)
  with rb_erase_correct[OF s(2,3), of 8] show ?thesis by auto
qed



text \<open>
  C22: every tree built from an empty root by insertions and erasures is a well-formed
  red-black tree whose height is at most twice the logarithm of the number of its nodes plus
  one, so searches are logarithmic.
\<close>

theorem rb_reachable_balanced:
  assumes "rb_op\<^sup>*\<^sup>* rb_empty s"
  shows "\<exists>t. rb_at s t \<and> rbt t \<and> 2 ^ height t \<le> (length (nodes t) + 1) ^ 2"
proof -
  have "rb_holds rb_empty []" using rb_empty_at by (auto simp: rb_holds_def)
  then obtain ps where "rb_holds s ps" using rb_ops_holds[OF assms] by blast
  then show ?thesis using rbt_height by (auto simp: rb_holds_def)
qed

theorem rb_reachable_balanced_witness:
  "\<exists>s t. rb_insert 8 (\<lambda>_. 1) rb_empty = Some (True, s) \<and> rb_at s t \<and> rbt t"
proof -
  obtain s where s: "rb_insert 8 (\<lambda>_. 1) rb_empty = Some (True, s)"
    using rb_insert_refines(2)[OF rb_empty_at, of 8 "\<lambda>_. 1"] by (auto simp: cb_mono_def)
  have "rb_op rb_empty s"
    by (rule op_insert[OF rb_forward_at[OF rb_empty_at(1)] _ _ _ s]) (auto simp: rb_aligned_def cb_mono_def)
  then have "rb_op\<^sup>*\<^sup>* rb_empty s" by blast
  from rb_reachable_balanced[OF this] s show ?thesis by blast
qed

end
