(* ===== verification/Mm.thy ===== *)
theory Mm
  imports Phys Rbtree_Walk
begin

text \<open>
  The memory manager: pages and their user counts (\<^verbatim>\<open>kernel/mm/page.cpp\<close>, \<^verbatim>\<open>page_mapping\<close> in
  \<^verbatim>\<open>include/chariot/mm.h\<close>), areas (\<^verbatim>\<open>kernel/mm/area.cpp\<close>) and address spaces
  (\<^verbatim>\<open>kernel/mm/space.cpp\<close>). An area is named by the address of its \<^verbatim>\<open>rb_node\<close>, which is the node
  of the red-black tree of its space, a \<^verbatim>\<open>struct page\<close> by a number; 0 is \<^verbatim>\<open>NULL\<close>. Objects that
  \<^verbatim>\<open>new\<close> and \<^verbatim>\<open>make_ref\<close> create get the next unused address or number. A space is locked
  during each operation. Page tables, which the architectures implement, are maps from
  virtual pages to entries; the backing objects of areas (\<^verbatim>\<open>vmobject\<close>) are reached through
  their virtual functions, which are arguments of the operations that call them.
\<close>

section \<open>Pages\<close>

record page =
  m_users :: nat
  m_paf :: nat

definition PG_DIRTY :: nat where "PG_DIRTY = 1"
definition PG_OWNED :: nat where "PG_OWNED = 2"
definition PG_WRTHRU :: nat where "PG_WRTHRU = 4"
definition PG_NOCACHE :: nat where "PG_NOCACHE = 8"

definition fset :: "nat \<Rightarrow> page \<Rightarrow> page" where
  "fset v p = p\<lparr>m_paf := or (m_paf p) v\<rparr>"

text \<open>\<^verbatim>\<open>m_paf &= ~set\<close>\<close>

definition fclr :: "nat \<Rightarrow> page \<Rightarrow> page" where
  "fclr v p = p\<lparr>m_paf := m_paf p - and (m_paf p) v\<rparr>"

definition pg_flags :: "page \<Rightarrow> nat" where "pg_flags p = m_paf p mod 4096"
definition fcheck :: "nat \<Rightarrow> page \<Rightarrow> bool" where "fcheck v p \<longleftrightarrow> and (m_paf p) v \<noteq> 0"
definition pg_pa :: "page \<Rightarrow> nat" where "pg_pa p = 4096 * (m_paf p div 4096)"

definition set_pa :: "nat \<Rightarrow> page \<Rightarrow> page" where
  "set_pa pa p = p\<lparr>m_paf := or (4096 * (pa div 4096)) (pg_flags p)\<rparr>"

definition new_page :: page where
  "new_page = set_pa 0 (fclr (or (or PG_WRTHRU PG_NOCACHE) PG_DIRTY) \<lparr>m_users = 0, m_paf = 0\<rparr>)"

section \<open>Areas and spaces\<close>

record pte =
  ppn :: nat
  pte_prot :: nat
  writethrough :: bool
  nocache :: bool

type_synonym pagetable = "nat \<Rightarrow> pte option"

definition add_mapping :: "nat \<Rightarrow> pte \<Rightarrow> pagetable \<Rightarrow> pagetable" where
  "add_mapping va p pt = pt(va div PGSIZE \<mapsto> p)"

definition get_mapping :: "nat \<Rightarrow> pagetable \<Rightarrow> nat" where
  "get_mapping va pt = (case pt (va div PGSIZE) of None \<Rightarrow> 0 | Some p \<Rightarrow> ppn p)"

definition del_mapping :: "nat \<Rightarrow> pagetable \<Rightarrow> pagetable" where
  "del_mapping va pt = pt(va div PGSIZE := None)"

record area =
  a_name :: string
  a_va :: nat
  a_len :: nat
  a_off :: nat
  a_prot :: nat
  a_flags :: nat
  a_fd :: nat
  a_mappings :: "nat list"
  a_obj :: nat

record space =
  sp_pt :: pagetable
  sp_lo :: nat
  sp_hi :: nat
  is_kspace :: bool
  regions :: rb_state

text \<open>
  The kernel's memory: the page allocator, the contents of the page frames in use, the
  objects, and the numbers of owners of the backing objects.
\<close>

record mm =
  km :: kmem
  frames :: "nat \<Rightarrow> byte list"
  pages_of :: "nat \<Rightarrow> page"
  next_page :: nat
  areas :: "nat \<Rightarrow> area"
  next_area :: nat
  owners :: "nat \<Rightarrow> int"

datatype mm_fail = Hang | Phys_panic phys_panic | Panic_failed | Bad_index

type_synonym 'a mm_result = "mm_fail + 'a"

definition upd_page :: "nat \<Rightarrow> (page \<Rightarrow> page) \<Rightarrow> mm \<Rightarrow> mm" where
  "upd_page p f m = m\<lparr>pages_of := (pages_of m)(p := f (pages_of m p))\<rparr>"

definition upd_area :: "nat \<Rightarrow> (area \<Rightarrow> area) \<Rightarrow> mm \<Rightarrow> mm" where
  "upd_area a f m = m\<lparr>areas := (areas m)(a := f (areas m a))\<rparr>"

text \<open>Protection, fault and mapping flags are tested as bits: these are their positions.\<close>

definition VPROT_READ :: nat where "VPROT_READ = 0"
definition VPROT_WRITE :: nat where "VPROT_WRITE = 1"
definition VPROT_EXEC :: nat where "VPROT_EXEC = 2"
definition FAULT_READ :: nat where "FAULT_READ = 0"
definition FAULT_WRITE :: nat where "FAULT_WRITE = 1"
definition FAULT_EXEC :: nat where "FAULT_EXEC = 2"
definition MAP_SHARED :: nat where "MAP_SHARED = 0"
definition MAP_PRIVATE :: nat where "MAP_PRIVATE = 1"

definition round_up :: "nat \<Rightarrow> nat \<Rightarrow> nat" where
  "round_up x y = (add64 x (y - 1) div y) * y"

definition MINUS_1 :: nat where "MINUS_1 = 2 ^ 64 - 1"

subsection \<open>Page allocation\<close>

definition page_alloc :: "(kmem \<Rightarrow> kmem) \<Rightarrow> mm \<Rightarrow> (nat \<times> mm) mm_result" where
  "page_alloc reclaim m =
     (case phys_alloc reclaim (km m) 1 of
        None \<Rightarrow> Inl Hang
      | Some (Inl e) \<Rightarrow> Inl (Phys_panic e)
      | Some (Inr (pa, k)) \<Rightarrow>
          let p = next_page m;
              pg = fset PG_OWNED ((set_pa pa new_page)\<lparr>m_users := 0\<rparr>)
          in Inr (p, m\<lparr>km := k, frames := (frames m)(pa := replicate PGSIZE 0),
                       pages_of := (pages_of m)(p := pg), next_page := p + 1\<rparr>))"

definition page_create :: "nat \<Rightarrow> mm \<Rightarrow> nat \<times> mm" where
  "page_create pa m =
     (let p = next_page m
      in (p, m\<lparr>pages_of := (pages_of m)(p := fclr PG_OWNED ((set_pa pa new_page)\<lparr>m_users := 0\<rparr>)),
               next_page := p + 1\<rparr>))"

definition page_destroy :: "nat \<Rightarrow> mm \<Rightarrow> mm mm_result" where
  "page_destroy p m =
     (let pg = pages_of m p
      in if fcheck PG_OWNED pg \<and> pg_pa pg \<noteq> 0
         then case phys_free (km m) (pg_pa pg) 1 of
                None \<Rightarrow> Inl Hang
              | Some (Inl e) \<Rightarrow> Inl (Phys_panic e)
              | Some (Inr k) \<Rightarrow> Inr (upd_page p (set_pa 0) (m\<lparr>km := k\<rparr>))
         else Inr (upd_page p (set_pa 0) m))"

text \<open>\<^verbatim>\<open>page_mapping::set_page\<close> on a mapping that holds \<open>old\<close>: the user counts are 32 bits wide.\<close>

definition set_page :: "nat \<Rightarrow> nat \<Rightarrow> mm \<Rightarrow> mm" where
  "set_page old pg m =
     (let m = (if old \<noteq> 0
               then upd_page old (\<lambda>p. p\<lparr>m_users := (m_users p + (2 ^ 32 - 1)) mod 2 ^ 32\<rparr>) m else m)
      in if pg \<noteq> 0 then upd_page pg (\<lambda>p. p\<lparr>m_users := (m_users p + 1) mod 2 ^ 32\<rparr>) m else m)"

definition set_mapping :: "nat \<Rightarrow> nat \<Rightarrow> nat \<Rightarrow> mm \<Rightarrow> mm" where
  "set_mapping a ind pg m =
     upd_area a (\<lambda>r. r\<lparr>a_mappings := (a_mappings r)[ind := pg]\<rparr>)
       (set_page (a_mappings (areas m a) ! ind) pg m)"

subsection \<open>Regions\<close>

text \<open>A 64-bit word read as a signed \<^verbatim>\<open>long\<close>.\<close>

definition s64 :: "nat \<Rightarrow> int" where
  "s64 x = (if x < 2 ^ 63 then int x else int x - 2 ^ 64)"

definition region_cb :: "(nat \<Rightarrow> area) \<Rightarrow> nat \<Rightarrow> nat \<Rightarrow> int" where
  "region_cb ar region other =
     (let result = s64 (sub64 (a_va (ar region)) (a_va (ar other)))
      in if result < 0 then -1 else if result > 0 then 1 else 0)"

definition add_region :: "mm \<Rightarrow> nat \<Rightarrow> space \<Rightarrow> (bool \<times> space) option" where
  "add_region m region sp =
     Option.bind (rb_insert region (region_cb (areas m) region) (regions sp)) (\<lambda>(b, s).
       Some (b, sp\<lparr>regions := s\<rparr>))"

partial_function (option) lookup_walk :: "(nat \<Rightarrow> area) \<Rightarrow> rb_state \<Rightarrow> nat \<Rightarrow> rb_link \<Rightarrow> nat option" where
  "lookup_walk ar s va n =
     (if link_get s n \<noteq> 0
      then let r = ar (link_get s n);
               start = a_va r;
               stop = add64 (a_va r) (a_len r)
           in if va < start then lookup_walk ar s va (Link_left (link_get s n))
              else if va \<ge> stop then lookup_walk ar s va (Link_right (link_get s n))
              else Some (link_get s n)
      else Some 0)"

definition lookup :: "mm \<Rightarrow> space \<Rightarrow> nat \<Rightarrow> nat option" where
  "lookup m sp va = lookup_walk (areas m) (regions sp) va Link_root"

definition delete_region :: "nat \<Rightarrow> int" where "delete_region va = -1"

definition hole_step :: "(nat \<Rightarrow> area) \<Rightarrow> nat \<Rightarrow> nat \<times> nat \<Rightarrow> nat \<Rightarrow> nat \<times> nat" where
  "hole_step ar sz = (\<lambda>(va, lim) node.
     let rva = a_va (ar node);
         rlim = add64 rva (a_len (ar node))
     in if va \<le> rlim \<and> rva < lim
        then let va = sub64 rva sz in (va, add64 va sz)
        else (va, lim))"

definition find_hole :: "mm \<Rightarrow> space \<Rightarrow> nat \<Rightarrow> nat option" where
  "find_hole m sp sz =
     (let va = sub64 (sp_hi sp) sz; lim = add64 va sz
      in Option.bind (rb_backward (regions sp)) (\<lambda>nodes.
           Some (fst (foldl (hole_step (areas m) sz) (va, lim) nodes))))"

text \<open>
  \<^verbatim>\<open>space::mmap\<close>. The file's \<^verbatim>\<open>mmap\<close> operation is the argument \<open>fops_mmap\<close>, 0 when the file has
  none or it fails. The result of \<^verbatim>\<open>add_region\<close> is dropped, as in the code.
\<close>

definition mmap :: "(nat \<Rightarrow> nat \<Rightarrow> nat \<Rightarrow> nat \<Rightarrow> nat \<Rightarrow> nat) \<Rightarrow> mm \<Rightarrow> space \<Rightarrow> string \<Rightarrow> nat \<Rightarrow> nat \<Rightarrow> nat \<Rightarrow> nat \<Rightarrow>
    nat \<Rightarrow> nat \<Rightarrow> (nat \<times> mm \<times> space) option" where
  "mmap fops_mmap m sp name addr sz prot flags fd off =
     (if addr mod 4096 \<noteq> 0 then Some (MINUS_1, m, sp)
      else if \<not> bit flags MAP_PRIVATE \<and> \<not> bit flags MAP_SHARED then Some (MINUS_1, m, sp)
      else Option.bind (if addr = 0 then find_hole m sp (round_up sz 4096) else Some addr) (\<lambda>addr.
        let pages = round_up sz 4096 div 4096;
            obj = (if fd \<noteq> 0 then fops_mmap fd pages prot flags off else 0)
        in if fd \<noteq> 0 \<and> obj = 0 then Some (MINUS_1, m, sp)
           else let m = (if fd \<noteq> 0 then m\<lparr>owners := (owners m)(obj := owners m obj + 1)\<rparr> else m);
                    r = next_area m;
                    ar = \<lparr>a_name = name, a_va = addr, a_len = pages * 4096, a_off = off, a_prot = prot,
                          a_flags = flags, a_fd = fd, a_mappings = replicate pages 0, a_obj = obj\<rparr>;
                    m = m\<lparr>areas := (areas m)(r := ar), next_area := r + 64\<rparr>
                in Option.bind (add_region m r sp) (\<lambda>(_, sp). Some (addr, m, sp))))"

definition unmap_step :: "(nat \<Rightarrow> area) \<Rightarrow> nat \<Rightarrow> nat \<Rightarrow> pagetable \<Rightarrow> nat \<Rightarrow> pagetable" where
  "unmap_step ar region va pt i =
     (if a_mappings (ar region) ! i \<noteq> 0 then del_mapping (add64 va (i * 4096)) pt else pt)"

definition unmap :: "mm \<Rightarrow> space \<Rightarrow> nat \<Rightarrow> nat \<Rightarrow> (int \<times> space) option" where
  "unmap m sp ptr ulen =
     (if ptr mod 4096 \<noteq> 0 then Some (-1, sp)
      else Option.bind (lookup m sp ptr) (\<lambda>region.
        if region = 0 then Some (- ESRCH, sp)
        else Option.bind (rb_erase region (regions sp)) (\<lambda>s.
          Some (0, sp\<lparr>regions := s,
                      sp_pt := foldl (unmap_step (areas m) region ptr) (sp_pt sp)
                                 [0..<length (a_mappings (areas m region))]\<rparr>))))"

subsection \<open>Faults\<close>

text \<open>
  The first half of \<^verbatim>\<open>get_page_internal\<close>: the page of an index that has none yet comes from the
  backing object, through \<open>get_shared\<close>, or is a new anonymous page.
\<close>

definition populate :: "(nat \<Rightarrow> nat \<Rightarrow> mm \<Rightarrow> (nat \<times> mm) mm_result) \<Rightarrow> (kmem \<Rightarrow> kmem) \<Rightarrow> mm \<Rightarrow> nat \<Rightarrow> nat \<Rightarrow> pte \<Rightarrow>
    (mm \<times> pte) mm_result" where
  "populate get_shared reclaim m r ind p =
     (if a_mappings (areas m r) ! ind \<noteq> 0 then Inr (m, p)
      else
        let got_from_vmobj = a_obj (areas m r) \<noteq> 0
        in case (if got_from_vmobj then get_shared (a_obj (areas m r)) ind m else Inr (0, m)) of
             Inl e \<Rightarrow> Inl e
           | Inr (page, m) \<Rightarrow>
               let p = (if got_from_vmobj then p\<lparr>pte_prot := unset_bit VPROT_WRITE (pte_prot p)\<rparr> else p)
               in if page = 0 \<and> got_from_vmobj then Inl Panic_failed
                  else case (if page = 0 then page_alloc reclaim m else Inr (page, m)) of
                         Inl e \<Rightarrow> Inl e
                       | Inr (page, m) \<Rightarrow>
                           Inr (set_mapping r ind page m,
                                p\<lparr>nocache := fcheck PG_NOCACHE (pages_of m page),
                                  writethrough := fcheck PG_WRTHRU (pages_of m page)\<rparr>))"

text \<open>Copy on write: the second half, for a write to a writable area.\<close>

definition cow :: "(kmem \<Rightarrow> kmem) \<Rightarrow> mm \<Rightarrow> nat \<Rightarrow> nat \<Rightarrow> mm mm_result" where
  "cow reclaim m r ind =
     (let m = (if bit (a_flags (areas m r)) MAP_SHARED
               then upd_page (a_mappings (areas m r) ! ind) (fset PG_DIRTY) m else m)
      in if bit (a_flags (areas m r)) MAP_PRIVATE
         then let old_page = a_mappings (areas m r) ! ind
              in if m_users (pages_of m old_page) > 1 \<or> a_fd (areas m r) \<noteq> 0
                 then case page_alloc reclaim m of
                        Inl e \<Rightarrow> Inl e
                      | Inr (np, m) \<Rightarrow>
                          let m = m\<lparr>frames := (frames m)(pg_pa (pages_of m np) :=
                                                frames m (pg_pa (pages_of m old_page)))\<rparr>
                          in Inr (set_mapping r ind np m)
                 else Inr m
         else Inr m)"

definition get_page_internal :: "(nat \<Rightarrow> nat \<Rightarrow> mm \<Rightarrow> (nat \<times> mm) mm_result) \<Rightarrow> (kmem \<Rightarrow> kmem) \<Rightarrow> mm \<Rightarrow> space \<Rightarrow>
    nat \<Rightarrow> nat \<Rightarrow> nat \<Rightarrow> bool \<Rightarrow> (nat \<times> mm \<times> space) mm_result" where
  "get_page_internal get_shared reclaim m sp uaddr r err do_map =
     (let p = \<lparr>ppn = 0, pte_prot = a_prot (areas m r), writethrough = False, nocache = False\<rparr>;
          ind = sub64 (uaddr div 4096) (a_va (areas m r) div 4096)
      in if ind \<ge> length (a_mappings (areas m r)) then Inl Bad_index
         else case populate get_shared reclaim m r ind p of
           Inl e \<Rightarrow> Inl e
         | Inr (m, p) \<Rightarrow>
             let wr = bit err FAULT_WRITE \<and> bit (a_prot (areas m r)) VPROT_WRITE;
                 p = (if wr then p\<lparr>pte_prot := set_bit VPROT_WRITE (pte_prot p)\<rparr> else p)
             in case (if wr then cow reclaim m r ind else Inr m) of
                  Inl e \<Rightarrow> Inl e
                | Inr m \<Rightarrow>
                    let page = a_mappings (areas m r) ! ind;
                        p = p\<lparr>ppn := pg_pa (pages_of m page) div 4096\<rparr>;
                        va = add64 (a_va (areas m r)) (ind * 4096);
                        sp = (if do_map then sp\<lparr>sp_pt := add_mapping va p (sp_pt sp)\<rparr> else sp)
                    in Inr (page, m, sp))"

definition pagefault :: "(nat \<Rightarrow> nat \<Rightarrow> mm \<Rightarrow> (nat \<times> mm) mm_result) \<Rightarrow> (kmem \<Rightarrow> kmem) \<Rightarrow> mm \<Rightarrow> space \<Rightarrow>
    nat \<Rightarrow> nat \<Rightarrow> (int \<times> mm \<times> space) mm_result" where
  "pagefault get_shared reclaim m sp va err =
     (case lookup m sp va of
        None \<Rightarrow> Inl Hang
      | Some r \<Rightarrow>
          if r = 0 then Inr (-1, m, sp)
          else
            let prot = a_prot (areas m r);
                fault_res = (if bit err FAULT_WRITE \<and> \<not> bit prot VPROT_WRITE then -1 else (0 :: int));
                fault_res = (if bit err FAULT_READ \<and> \<not> bit prot VPROT_READ then -1 else fault_res);
                fault_res = (if bit err FAULT_EXEC \<and> \<not> bit prot VPROT_EXEC then -1 else fault_res)
            in if fault_res = 0
               then case get_page_internal get_shared reclaim m sp va r err True of
                      Inl e \<Rightarrow> Inl e
                    | Inr (page, m, sp) \<Rightarrow> if page = 0 then Inr (-1, m, sp) else Inr (0, m, sp)
               else Inr (0, m, sp))"

definition get_page :: "(nat \<Rightarrow> nat \<Rightarrow> mm \<Rightarrow> (nat \<times> mm) mm_result) \<Rightarrow> (kmem \<Rightarrow> kmem) \<Rightarrow> mm \<Rightarrow> space \<Rightarrow>
    nat \<Rightarrow> (nat \<times> mm \<times> space) mm_result" where
  "get_page get_shared reclaim m sp uaddr =
     (case lookup m sp uaddr of
        None \<Rightarrow> Inl Hang
      | Some r \<Rightarrow> if r = 0 then Inr (0, m, sp)
                  else get_page_internal get_shared reclaim m sp uaddr r 0 False)"

subsection \<open>Fork and destruction\<close>

text \<open>The write protection of one page of a forked area, in both page tables.\<close>

definition fork_page :: "mm \<Rightarrow> area \<Rightarrow> pagetable \<times> pagetable \<Rightarrow> nat \<Rightarrow> pagetable \<times> pagetable" where
  "fork_page m r = (\<lambda>(pt, npt) i.
     if a_mappings r ! i \<noteq> 0
     then let p = \<lparr>ppn = pg_pa (pages_of m (a_mappings r ! i)) div 4096,
                   pte_prot = unset_bit VPROT_WRITE (a_prot r), writethrough = False, nocache = False\<rparr>;
              va = add64 (a_va r) (i * 4096)
          in (add_mapping va p pt, add_mapping va p npt)
     else (pt, npt))"

text \<open>The body of the loop of \<^verbatim>\<open>space::fork\<close>: the area \<open>node\<close> of \<open>sp\<close> is copied into \<open>n\<close>.\<close>

definition fork_region :: "mm \<times> space \<times> space \<Rightarrow> nat \<Rightarrow> (mm \<times> space \<times> space) option" where
  "fork_region = (\<lambda>(m, sp, n) node.
     let r = areas m node;
         copy = next_area m;
         m = m\<lparr>areas := (areas m)(copy := r), next_area := copy + 64\<rparr>;
         m = (if a_obj r \<noteq> 0 then m\<lparr>owners := (owners m)(a_obj r := owners m (a_obj r) + 1)\<rparr> else m);
         m = foldl (\<lambda>m pg. set_page 0 pg m) m (a_mappings r);
         (pt, npt) = foldl (fork_page m r) (sp_pt sp, sp_pt n) [0..<round_up (a_len r) 4096 div 4096]
     in Option.bind (add_region m copy (n\<lparr>sp_pt := npt\<rparr>)) (\<lambda>(_, n).
          Some (m, sp\<lparr>sp_pt := pt\<rparr>, n)))"

fun fold_opt :: "('s \<Rightarrow> 'a \<Rightarrow> 's option) \<Rightarrow> 's \<Rightarrow> 'a list \<Rightarrow> 's option" where
  "fold_opt f s [] = Some s"
| "fold_opt f s (x # xs) = Option.bind (f s x) (\<lambda>s. fold_opt f s xs)"

definition new_space :: "nat \<Rightarrow> nat \<Rightarrow> space" where
  "new_space lo hi = \<lparr>sp_pt = (\<lambda>_. None), sp_lo = lo, sp_hi = hi, is_kspace = False, regions = rb_empty\<rparr>"

definition fork :: "mm \<Rightarrow> space \<Rightarrow> (mm \<times> space \<times> space) option" where
  "fork m sp =
     Option.bind (rb_forward (regions sp)) (\<lambda>nodes.
       fold_opt fork_region (m, sp, new_space (sp_lo sp) (sp_hi sp)) nodes)"

text \<open>\<^verbatim>\<open>~area\<close>: dirty pages are flushed to the backing object through \<open>flush\<close>.\<close>

definition area_destroy :: "(nat \<Rightarrow> nat \<Rightarrow> mm \<Rightarrow> mm) \<Rightarrow> (nat \<Rightarrow> mm \<Rightarrow> mm) \<Rightarrow> mm \<Rightarrow> nat \<Rightarrow> mm" where
  "area_destroy flush on_drop m a =
     (let r = areas m a;
          m = foldl (\<lambda>m i.
                let pg = a_mappings r ! i;
                    m = (if pg \<noteq> 0 \<and> fcheck PG_DIRTY (pages_of m pg) \<and> a_obj r \<noteq> 0 then flush (a_obj r) i m else m)
                in set_page pg 0 m) m [0..<length (a_mappings r)];
          m = upd_area a (\<lambda>r. r\<lparr>a_mappings := []\<rparr>) m
      in if a_obj r \<noteq> 0
         then let m = m\<lparr>owners := (owners m)(a_obj r := owners m (a_obj r) - 1)\<rparr>;
                  m = (if owners m (a_obj r) = 0 then on_drop (a_obj r) m else m)
              in upd_area a (\<lambda>r. r\<lparr>a_obj := 0\<rparr>) m
         else m)"

definition space_destroy :: "(nat \<Rightarrow> nat \<Rightarrow> mm \<Rightarrow> mm) \<Rightarrow> (nat \<Rightarrow> mm \<Rightarrow> mm) \<Rightarrow> mm \<Rightarrow> space \<Rightarrow> mm option" where
  "space_destroy flush on_drop m sp =
     Option.bind (rb_postorder (regions sp)) (\<lambda>nodes. Some (foldl (area_destroy flush on_drop) m nodes))"

subsection \<open>Validation and inspection\<close>

partial_function (option) validate_loop :: "mm \<Rightarrow> space \<Rightarrow> nat \<Rightarrow> nat \<Rightarrow> nat \<Rightarrow> bool option" where
  "validate_loop m sp mode stop va =
     (if va \<le> stop
      then Option.bind (lookup m sp va) (\<lambda>r.
        if r = 0 then Some False
        else let prot = a_prot (areas m r)
             in if (bit mode VPROT_READ \<and> \<not> bit prot VPROT_READ) \<or> (bit mode VPROT_WRITE \<and> \<not> bit prot VPROT_WRITE) \<or>
                   (bit mode VPROT_EXEC \<and> \<not> bit prot VPROT_EXEC)
                then Some False
                else validate_loop m sp mode stop (add64 va PGSIZE))
      else Some True)"

definition PGMASK :: "nat \<Rightarrow> nat" where "PGMASK x = PGSIZE * (x div PGSIZE)"

definition validate_pointer :: "mm \<Rightarrow> space \<Rightarrow> nat \<Rightarrow> nat \<Rightarrow> nat \<Rightarrow> bool option" where
  "validate_pointer m sp raw_va len mode =
     (if is_kspace sp then Some True
      else validate_loop m sp mode (PGMASK (add64 raw_va len)) (PGMASK raw_va))"

text \<open>\<^verbatim>\<open>validate_null_terminated<T>\<close> for \<^verbatim>\<open>sizeof(T) = w\<close>, reading user memory through \<open>rd\<close>.\<close>

partial_function (option) validate_nt_loop :: "mm \<Rightarrow> space \<Rightarrow> (nat \<Rightarrow> nat) \<Rightarrow> nat \<Rightarrow> nat \<Rightarrow> nat \<Rightarrow> bool option" where
  "validate_nt_loop m sp rd w cur valid_vpn =
     (let current_vpn = cur div 4096
      in if current_vpn \<noteq> valid_vpn
         then Option.bind (validate_pointer m sp cur 1 1) (\<lambda>ok.
           if \<not> ok then Some False
           else if rd cur = 0 then Some True else validate_nt_loop m sp rd w (add64 cur w) current_vpn)
         else if rd cur = 0 then Some True else validate_nt_loop m sp rd w (add64 cur w) valid_vpn)"

definition validate_null_terminated :: "mm \<Rightarrow> space \<Rightarrow> (nat \<Rightarrow> nat) \<Rightarrow> nat \<Rightarrow> nat \<Rightarrow> bool option" where
  "validate_null_terminated m sp rd w str =
     (if str = 0 then Some False
      else Option.bind (validate_pointer m sp str 1 1) (\<lambda>ok.
        if \<not> ok then Some False else validate_nt_loop m sp rd w str (str div 4096)))"

text \<open>The sizes of \<^verbatim>\<open>mm::page\<close> and \<^verbatim>\<open>mm::space\<close> are arguments.\<close>

definition memory_usage :: "nat \<Rightarrow> nat \<Rightarrow> mm \<Rightarrow> space \<Rightarrow> nat option" where
  "memory_usage sz_page sz_space m sp =
     Option.bind (rb_forward (regions sp)) (\<lambda>nodes.
       Some (add64 (foldl (\<lambda>s node.
         let r = areas m node;
             s = foldl (\<lambda>s p. if p \<noteq> 0 then add64 (add64 s sz_page) PGSIZE else s) s (a_mappings r)
         in add64 s (8 * length (a_mappings r))) 0 nodes) sz_space))"

partial_function (option) copy_out_loop :: "mm \<Rightarrow> pagetable \<Rightarrow> nat \<Rightarrow> nat \<Rightarrow> nat \<Rightarrow> byte list option" where
  "copy_out_loop m pt blk offset to_access =
     (let n = get_mapping (blk * PGSIZE) pt
      in if n = 0 then Some []
         else let data = frames m (n * 4096);
                  can_access = min (PGSIZE - offset) to_access;
                  got = take can_access (drop offset data)
              in if to_access - can_access = 0 then Some got
                 else Option.bind (copy_out_loop m pt (blk + 1) 0 (to_access - can_access)) (\<lambda>rest. Some (got @ rest)))"

text \<open>The bytes \<^verbatim>\<open>copy_out\<close> stores at its destination; their number is its result.\<close>

definition copy_out :: "mm \<Rightarrow> space \<Rightarrow> nat \<Rightarrow> nat \<Rightarrow> byte list option" where
  "copy_out m sp byte_offset sz =
     copy_out_loop m (sp_pt sp) (byte_offset div PGSIZE) (byte_offset mod PGSIZE) sz"

end
