(* ===== verification/Mm_Space.thy ===== *)
theory Mm_Space
  imports Mm
begin

text \<open>
  Address spaces: the areas of a space are sorted, page aligned and disjoint (\<open>space_ok\<close>), and
  every operation on them is described by what \<^verbatim>\<open>lookup\<close> returns. The red-black tree enters only
  through the interpretation \<open>rbi\<close> of the locale \<open>node_index\<close>.
\<close>

section \<open>Well-formed spaces\<close>

definition contains :: "area \<Rightarrow> nat \<Rightarrow> bool" where
  "contains r va \<longleftrightarrow> a_va r \<le> va \<and> va < a_va r + a_len r"

definition before :: "area \<Rightarrow> area \<Rightarrow> bool" where
  "before r r' \<longleftrightarrow> a_va r < a_va r' \<and> a_va r + a_len r \<le> a_va r'"

definition area_ok :: "area \<Rightarrow> bool" where
  "area_ok r \<longleftrightarrow> 4096 dvd a_va r \<and> 0 < a_len r \<and> a_len r = 4096 * length (a_mappings r) \<and> a_va r + a_len r < 2 ^ 63"

text \<open>The nodes \<open>ns\<close> of the areas of a space, from low to high addresses, without overlap.\<close>

definition space_ok :: "mm \<Rightarrow> space \<Rightarrow> nat list \<Rightarrow> bool" where
  "space_ok m sp ns \<longleftrightarrow> rb_holds (regions sp) ns \<and> (\<forall>n \<in> set ns. area_ok (areas m n) \<and> n < next_area m) \<and>
     sorted_wrt (\<lambda>a b. before (areas m a) (areas m b)) ns \<and> rb_aligned (next_area m)"

section \<open>Looking up an address\<close>

fun find_area :: "(nat \<Rightarrow> area) \<Rightarrow> nat \<Rightarrow> rtree \<Rightarrow> nat" where
  "find_area ar va Tip = 0"
| "find_area ar va (Nd l p c r) =
     (if va < a_va (ar p) then find_area ar va l
      else if va \<ge> add64 (a_va (ar p)) (a_len (ar p)) then find_area ar va r else p)"

lemma lookup_walk_zip: "zip_at s C t \<Longrightarrow> lookup_walk ar s va (clink C) = Some (find_area ar va t)"
proof (induction t arbitrary: C)
  case Tip
  then show ?case using link_get_zip[OF Tip] by (subst lookup_walk.simps) simp
next
  case (Nd l p c r)
  have "p \<noteq> 0" using Nd.prems by (auto simp: zip_at_def)
  moreover have "lookup_walk ar s va (Link_left p) = Some (find_area ar va l)"
    "lookup_walk ar s va (Link_right p) = Some (find_area ar va r)"
    using Nd.IH(1)[of "CL p c r # C"] Nd.IH(2)[of "CR l p c # C"] Nd.prems by (simp_all add: zip_at_CL zip_at_CR)
  ultimately show ?case using link_get_zip[OF Nd.prems] by (subst lookup_walk.simps) (simp add: Let_def)
qed

definition area_at :: "(nat \<Rightarrow> area) \<Rightarrow> nat list \<Rightarrow> nat \<Rightarrow> nat" where
  "area_at ar ns va = (case find (\<lambda>n. contains (ar n) va) ns of Some n \<Rightarrow> n | None \<Rightarrow> 0)"

lemma find_area_eq:
  assumes "\<forall>n \<in> set (nodes t). area_ok (ar n)" and "sorted_wrt (\<lambda>a b. before (ar a) (ar b)) (nodes t)"
  shows "find_area ar va t = area_at ar (nodes t) va"
  using assms
proof (induction t)
  case (Nd l p c r)
  have ex: "add64 (a_va (ar p)) (a_len (ar p)) = a_va (ar p) + a_len (ar p)"
    using Nd.prems(1) by (intro add64_exact) (simp add: area_ok_def)
  have srt: "\<forall>n \<in> set (nodes l). before (ar n) (ar p)" "\<forall>n \<in> set (nodes r). before (ar p) (ar n)"
    using Nd.prems(2) by (auto simp: sorted_wrt_append)
  have l: "find (\<lambda>n. contains (ar n) va) (nodes l) = None" if "a_va (ar p) \<le> va"
    using srt(1) that by (fastforce simp: find_None_iff contains_def before_def)
  have r: "find (\<lambda>n. contains (ar n) va) (nodes r) = None" if "va < a_va (ar p) + a_len (ar p) \<or> va < a_va (ar p)"
    using srt(2) that by (fastforce simp: find_None_iff contains_def before_def)
  have ih: "find_area ar va l = area_at ar (nodes l) va" "find_area ar va r = area_at ar (nodes r) va"
    using Nd by (simp_all add: sorted_wrt_append)
  show ?case using l r ih ex by (auto simp: area_at_def find_append contains_def split: option.splits)
qed (simp add: area_at_def)

lemma lookup_eq:
  assumes "space_ok m sp ns"
  shows "lookup m sp va = Some (area_at (areas m) ns va)"
proof -
  obtain t where t: "zip_at (regions sp) [] t" "nodes t = ns"
    using assms by (auto simp: space_ok_def rb_holds_def rb_at_def)
  show ?thesis using lookup_walk_zip[OF t(1)] find_area_eq[of t "areas m" va] assms t(2)
    by (simp add: lookup_def space_ok_def)
qed

lemma sorted_before_unique:
  assumes "sorted_wrt (\<lambda>a b. before (ar a) (ar b)) ns" and "n \<in> set ns" "n' \<in> set ns"
    and "contains (ar n) va" "contains (ar n') va"
  shows "n = n'"
  using assms by (induction ns) (auto simp: contains_def before_def; fastforce)+

lemma area_at_found:
  assumes "sorted_wrt (\<lambda>a b. before (ar a) (ar b)) ns" and "n \<in> set ns" and "contains (ar n) va"
  shows "area_at ar ns va = n"
proof -
  obtain n' where n': "find (\<lambda>n. contains (ar n) va) ns = Some n'"
    using assms(2,3) by (cases "find (\<lambda>n. contains (ar n) va) ns") (auto simp: find_None_iff)
  then have "n' \<in> set ns" "contains (ar n') va" by (auto simp: find_Some_iff)
  with sorted_before_unique[OF assms(1,2)] assms(3) n' show ?thesis by (auto simp: area_at_def)
qed

lemma area_at_none: "(\<And>n. n \<in> set ns \<Longrightarrow> \<not> contains (ar n) va) \<Longrightarrow> area_at ar ns va = 0"
  by (auto simp: area_at_def find_None_iff split: option.splits dest!: find_Some_iff[THEN iffD1])

lemma area_at_0: "0 \<notin> set ns \<Longrightarrow> area_at ar ns va = n \<Longrightarrow> n \<noteq> 0 \<Longrightarrow> n \<in> set ns \<and> contains (ar n) va"
  by (auto simp: area_at_def find_Some_iff split: option.splits)

lemma lookup_area:
  assumes "space_ok m sp ns" and "n \<in> set ns" and "contains (areas m n) va"
  shows "lookup m sp va = Some n"
proof -
  have "sorted_wrt (\<lambda>a b. before (areas m a) (areas m b)) ns" using assms(1) by (simp add: space_ok_def)
  from area_at_found[OF this assms(2,3)] show ?thesis using lookup_eq[OF assms(1)] by simp
qed

section \<open>Adding a region\<close>

lemma s64_sub: "a < 2 ^ 63 \<Longrightarrow> b < 2 ^ 63 \<Longrightarrow> s64 (sub64 a b) = int a - int b"
proof (cases "b \<le> a")
  case True
  assume "a < 2 ^ 63" "b < 2 ^ 63"
  then show ?thesis using True by (simp add: sub64_exact s64_def)
next
  case False
  assume ab: "a < 2 ^ 63" "b < 2 ^ 63"
  have "(int a - int b) mod 2 ^ 64 = int a - int b + 2 ^ 64"
    using False ab mod_pos_pos_trivial[of "int a - int b + 2 ^ 64" "2 ^ 64"] by simp
  then show ?thesis using False ab by (simp add: sub64_def s64_def)
qed

definition region_key :: "(nat \<Rightarrow> area) \<Rightarrow> nat \<Rightarrow> int" where
  "region_key ar n = int (a_va (ar n))"

lemma region_cb_eq:
  assumes "a_va (ar region) < 2 ^ 63" and "a_va (ar p) < 2 ^ 63"
  shows "region_cb ar region p = rbi.by_key (region_key ar) (region_key ar region) p"
  using s64_sub[OF assms] by (simp add: region_cb_def rbi.by_key_def region_key_def Let_def sgn_if)

lemma by_key_range: "rbi.by_key key k p \<in> {-1, 0, 1}"
  by (simp add: rbi.by_key_def sgn_if)

text \<open>The search for the place of a region only asks the callback about the nodes of the tree.\<close>

lemma ins_path_cong: "(\<And>p. p \<in> set (nodes t) \<Longrightarrow> cb p = cb' p) \<Longrightarrow> ins_path cb t C = ins_path cb' t C"
  by (induction t arbitrary: C) auto

lemma rb_insert_cong:
  assumes "rb_holds s ps" and "\<And>p. p \<in> set ps \<Longrightarrow> cb p = cb' p" and "\<And>p. p \<in> set ps \<Longrightarrow> cb' p \<in> {-1, 0, 1}"
  shows "rb_insert node cb s = rb_insert node cb' s"
proof -
  obtain t where t: "zip_at s [] t" "nodes t = ps" using assms(1) by (auto simp: rb_holds_def rb_at_def)
  show ?thesis using rb_insert_walk_refines[OF t(1), of cb] rb_insert_walk_refines[OF t(1), of cb'] assms(2,3) t(2)
      ins_path_cong[of t cb cb' "[]"] by (simp add: rb_insert_def)
qed

lemma before_keyed: "sorted_wrt (\<lambda>a b. before (ar a) (ar b)) ns \<Longrightarrow> sorted_wrt (\<lambda>a b. region_key ar a < region_key ar b) ns"
  by (erule sorted_wrt_mono_rel[rotated]) (simp add: before_def region_key_def)

definition apart :: "area \<Rightarrow> area \<Rightarrow> bool" where
  "apart r r' \<longleftrightarrow> before r r' \<or> before r' r"

lemma sorted_insert_apart:
  assumes "sorted_wrt (\<lambda>a b. before (ar a) (ar b)) (xs @ ys)" and "\<forall>n \<in> set (xs @ ys). apart (ar n) (ar x)"
    and "sorted_wrt (\<lambda>a b. region_key ar a < region_key ar b) (xs @ x # ys)"
  shows "sorted_wrt (\<lambda>a b. before (ar a) (ar b)) (xs @ x # ys)"
proof -
  have key: "before (ar a) (ar b)" if "apart (ar a) (ar b)" "region_key ar a < region_key ar b" for a b
    using that by (auto simp: apart_def before_def region_key_def)
  have lt: "\<forall>a \<in> set xs. region_key ar a < region_key ar x" "\<forall>b \<in> set ys. region_key ar x < region_key ar b"
    using assms(3) by (auto simp: sorted_wrt_append)
  have "\<forall>a \<in> set xs. before (ar a) (ar x)"
  proof
    fix a assume a: "a \<in> set xs"
    show "before (ar a) (ar x)" by (rule key) (use a lt assms(2) in auto)
  qed
  moreover have "\<forall>b \<in> set ys. before (ar x) (ar b)"
  proof
    fix b assume b: "b \<in> set ys"
    show "before (ar x) (ar b)" by (rule key) (use b lt assms(2) in \<open>auto simp: apart_def\<close>)
  qed
  ultimately show ?thesis using assms(1) by (simp add: sorted_wrt_append)
qed

lemma add_region_new:
  assumes ok: "space_ok m sp ns" and r: "area_ok (areas m r)" "rb_aligned r" "r \<notin> set ns" "r < next_area m"
    and ap: "\<forall>n \<in> set ns. apart (areas m n) (areas m r)"
  shows "\<exists>sp' xs ys. add_region m r sp = Some (True, sp') \<and> ns = xs @ ys \<and> space_ok m sp' (xs @ r # ys) \<and>
    sp_pt sp' = sp_pt sp \<and> sp_lo sp' = sp_lo sp \<and> sp_hi sp' = sp_hi sp \<and> is_kspace sp' = is_kspace sp"
proof -
  let ?key = "region_key (areas m)"
  have h: "rb_holds (regions sp) ns" "sorted_wrt (\<lambda>a b. before (areas m a) (areas m b)) ns"
    "\<forall>n \<in> set ns. area_ok (areas m n)" using ok by (auto simp: space_ok_def)
  have k: "rbi.keyed ?key (regions sp) ns" using h before_keyed by (simp add: rbi.keyed_def)
  have "\<forall>p \<in> set ns. ?key p \<noteq> ?key r" using ap by (auto simp: apart_def before_def region_key_def)
  from rbi.keyed_ins[OF k r(2,3) this] obtain s' xs ys where
    s': "ns = xs @ ys" "rb_insert r (rbi.by_key ?key (?key r)) (regions sp) = Some (True, s')"
      "rbi.keyed ?key s' (xs @ r # ys)" by blast
  have cb: "region_cb (areas m) r p = rbi.by_key ?key (?key r) p" if "p \<in> set ns" for p
    using region_cb_eq[of "areas m" r p] h(3) r(1) that by (auto simp: area_ok_def)
  have "rb_insert r (region_cb (areas m) r) (regions sp) = Some (True, s')"
    using rb_insert_cong[where cb = "region_cb (areas m) r" and cb' = "rbi.by_key ?key (?key r)", OF h(1) cb by_key_range] s'(2)
    by simp
  then have "add_region m r sp = Some (True, sp\<lparr>regions := s'\<rparr>)" by (simp add: add_region_def)
  moreover have "space_ok m (sp\<lparr>regions := s'\<rparr>) (xs @ r # ys)"
    using ok s'(1,3) r(1,4) sorted_insert_apart[of "areas m" xs ys r] ap h(2)
    by (auto simp: space_ok_def rbi.keyed_def)
  ultimately show ?thesis using s'(1) by (intro exI[of _ "sp\<lparr>regions := s'\<rparr>"] exI[of _ xs] exI[of _ ys]) simp
qed

lemma add_region_taken:
  assumes ok: "space_ok m sp ns" and r: "a_va (areas m r) < 2 ^ 63" "rb_aligned r" "r \<notin> set ns"
    and n: "n \<in> set ns" "a_va (areas m n) = a_va (areas m r)"
  shows "add_region m r sp = Some (False, sp)"
proof -
  let ?key = "region_key (areas m)"
  have h: "rb_holds (regions sp) ns" "sorted_wrt (\<lambda>a b. ?key a < ?key b) ns"
    "\<forall>n \<in> set ns. area_ok (areas m n)" using ok before_keyed by (auto simp: space_ok_def)
  have "rbi.by_key ?key (?key r) n = 0" using n(2) by (simp add: rbi.by_key_def region_key_def)
  then have "rb_insert r (rbi.by_key ?key (?key r)) (regions sp) = Some (False, regions sp)"
    using rbi.ins_taken[OF h(1) r(2,3) rbi.by_key_mono[OF h(2)]] n(1) by blast
  moreover have cb: "region_cb (areas m) r p = rbi.by_key ?key (?key r) p" if "p \<in> set ns" for p
    using region_cb_eq[of "areas m" r p] h(3) r(1) that by (auto simp: area_ok_def)
  ultimately have "rb_insert r (region_cb (areas m) r) (regions sp) = Some (False, regions sp)"
    using rb_insert_cong[where cb = "region_cb (areas m) r" and cb' = "rbi.by_key ?key (?key r)", OF h(1) cb by_key_range]
    by simp
  then show ?thesis by (simp add: add_region_def)
qed

section \<open>Holes\<close>

definition hole_ok :: "(nat \<Rightarrow> area) \<Rightarrow> nat \<Rightarrow> nat \<Rightarrow> nat \<times> nat \<Rightarrow> nat list \<Rightarrow> bool" where
  "hole_ok ar tp sz st ns \<longleftrightarrow> (case st of (va, lim) \<Rightarrow> va < 2 ^ 63 \<longrightarrow> lim = va + sz \<and> lim \<le> tp \<and>
     (\<forall>n \<in> set ns. lim \<le> a_va (ar n) \<or> a_va (ar n) + a_len (ar n) < va))"

lemma sub64_small: "a < 2 ^ 63 \<Longrightarrow> b < 2 ^ 63 \<Longrightarrow> sub64 a b < 2 ^ 63 \<Longrightarrow> sub64 a b = a - b \<and> b \<le> a"
  using s64_sub[of a b] by (cases "b \<le> a") (auto simp: s64_def sub64_exact split: if_splits)

lemma hole_step_ok:
  assumes ok: "area_ok (ar x)" "sz < 2 ^ 63" and h: "hole_ok ar tp sz st done" and srt: "\<forall>n \<in> set done. before (ar x) (ar n)"
  shows "hole_ok ar tp sz (hole_step ar sz st x) (x # done)"
proof -
  obtain va lim where st: "st = (va, lim)" by (cases st)
  have ex: "add64 (a_va (ar x)) (a_len (ar x)) = a_va (ar x) + a_len (ar x)"
    using ok(1) by (intro add64_exact) (simp add: area_ok_def)
  have x: "a_va (ar x) + a_len (ar x) < 2 ^ 63" using ok(1) by (simp add: area_ok_def)
  show ?thesis
  proof (cases "va \<le> a_va (ar x) + a_len (ar x) \<and> a_va (ar x) < lim")
    case True
    have "lim \<le> tp" if "va < 2 ^ 63" using h that by (simp add: hole_ok_def st)
    moreover have "va < 2 ^ 63" using True x by simp
    ultimately have "a_va (ar x) \<le> tp" using True by simp
    let ?va = "sub64 (a_va (ar x)) sz"
    have "?va = a_va (ar x) - sz \<and> sz \<le> a_va (ar x)" if "?va < 2 ^ 63"
      using sub64_small[OF _ ok(2) that] x by simp
    moreover have "a_va (ar x) \<le> a_va (ar n)" if "n \<in> set done" for n using srt that by (auto simp: before_def)
    ultimately show ?thesis using True ex x \<open>a_va (ar x) \<le> tp\<close> by (auto simp: st hole_ok_def hole_step_def add64_exact Let_def)
  next
    case False
    then show ?thesis using h ex by (auto simp: st hole_ok_def hole_step_def Let_def)
  qed
qed

lemma hole_fold_ok:
  assumes "\<forall>n \<in> set ns. area_ok (ar n)" and "sorted_wrt (\<lambda>a b. before (ar a) (ar b)) (ns @ done)" and "sz < 2 ^ 63"
    and "hole_ok ar tp sz st done"
  shows "hole_ok ar tp sz (foldl (hole_step ar sz) st (rev ns)) (ns @ done)"
  using assms
proof (induction ns arbitrary: "done" st rule: rev_induct)
  case (snoc x ns)
  have "hole_ok ar tp sz (hole_step ar sz st x) (x # done)"
    using snoc.prems by (intro hole_step_ok) (auto simp: sorted_wrt_append)
  with snoc.IH[of "x # done"] snoc.prems show ?case by simp
qed simp

text \<open>What \<^verbatim>\<open>find_hole\<close> returns in the lower half of the address space touches no region.\<close>

lemma find_hole_ok:
  assumes ok: "space_ok m sp ns" and sz: "0 < sz" "sz < 2 ^ 63" "sz \<le> sp_hi sp" "sp_hi sp < 2 ^ 63"
  shows "\<exists>va. find_hole m sp sz = Some va \<and> (va < 2 ^ 63 \<longrightarrow> va + sz \<le> sp_hi sp \<and> (\<forall>n \<in> set ns.
    va + sz \<le> a_va (areas m n) \<or> a_va (areas m n) + a_len (areas m n) < va))"
proof -
  obtain t where t: "rb_at (regions sp) t" "nodes t = ns" using ok by (auto simp: space_ok_def rb_holds_def)
  let ?va = "sub64 (sp_hi sp) sz"
  have "?va = sp_hi sp - sz" using sz by (intro sub64_exact) auto
  then have "hole_ok (areas m) (sp_hi sp) sz (?va, add64 ?va sz) []" using sz by (auto simp: hole_ok_def add64_exact)
  from hole_fold_ok[OF _ _ sz(2) this, of ns] ok
  have "hole_ok (areas m) (sp_hi sp) sz (foldl (hole_step (areas m) sz) (?va, add64 ?va sz) (rev ns)) ns"
    by (simp add: space_ok_def)
  then show ?thesis using rb_backward_at[OF t(1)] t(2)
    by (auto simp: find_hole_def Let_def hole_ok_def split: prod.splits)
qed


text \<open>A range of addresses that no area of the space uses.\<close>

definition unused :: "mm \<Rightarrow> nat list \<Rightarrow> nat \<Rightarrow> nat \<Rightarrow> bool" where
  "unused m ns va len \<longleftrightarrow> (\<forall>n \<in> set ns. va + len \<le> a_va (areas m n) \<or> a_va (areas m n) + a_len (areas m n) \<le> va)"

lemma unused_apart:
  assumes "space_ok m sp ns" and "unused m ns (a_va r) (a_len r)" and "0 < a_len r" and "n \<in> set ns"
  shows "apart (areas m n) r"
proof -
  have "0 < a_len (areas m n)" using assms(1,4) unfolding space_ok_def area_ok_def by blast
  then show ?thesis using assms(2-4) by (force simp: unused_def apart_def before_def)
qed

definition mapped_area :: "string \<Rightarrow> nat \<Rightarrow> nat \<Rightarrow> nat \<Rightarrow> nat \<Rightarrow> nat \<Rightarrow> nat \<Rightarrow> nat \<Rightarrow> area" where
  "mapped_area name addr npg prot flags fd off obj =
     \<lparr>a_name = name, a_va = addr, a_len = npg * 4096, a_off = off, a_prot = prot,
      a_flags = flags, a_fd = fd, a_mappings = replicate npg 0, a_obj = obj\<rparr>"

lemma mapped_area_ok:
  "4096 dvd addr \<Longrightarrow> 0 < npg \<Longrightarrow> addr + npg * 4096 < 2 ^ 63 \<Longrightarrow> area_ok (mapped_area name addr npg prot flags fd off obj)"
  by (simp add: area_ok_def mapped_area_def)

lemma space_ok_areas:
  assumes "space_ok m sp ns" and "\<forall>n \<in> set ns. areas m' n = areas m n" and "next_area m \<le> next_area m'" and "rb_aligned (next_area m')"
  shows "space_ok m' sp ns"
proof -
  have "sorted_wrt (\<lambda>a b. before (areas m' a) (areas m' b)) ns"
    using assms(1,2) by (auto simp: space_ok_def intro: sorted_wrt_mono_rel[rotated])
  then show ?thesis using assms by (auto simp: space_ok_def)
qed

lemma add_area_ok:
  assumes ok: "space_ok m sp ns" and r: "area_ok ar" and u: "unused m ns (a_va ar) (a_len ar)"
    and m': "areas m' = (areas m)(next_area m := ar)" "next_area m' = next_area m + 64"
  shows "\<exists>sp' xs ys. add_region m' (next_area m) sp = Some (True, sp') \<and> ns = xs @ ys \<and>
    space_ok m' sp' (xs @ next_area m # ys) \<and> sp_pt sp' = sp_pt sp \<and> sp_lo sp' = sp_lo sp \<and>
    sp_hi sp' = sp_hi sp \<and> is_kspace sp' = is_kspace sp"
proof -
  have fresh: "next_area m \<notin> set ns" using ok by (auto simp: space_ok_def)
  have "rb_aligned (next_area m')" using ok m'(2) by (auto simp: space_ok_def rb_aligned_def)
  then have "space_ok m' sp ns" using fresh m' by (intro space_ok_areas[OF ok]) auto
  moreover have "\<forall>n \<in> set ns. apart (areas m' n) (areas m' (next_area m))"
    using unused_apart[OF ok u] r fresh m'(1) by (auto simp: area_ok_def)
  ultimately show ?thesis using ok r fresh m' by (intro add_region_new) (auto simp: space_ok_def)
qed

lemma round_up_pages: "sz + 4095 < 2 ^ 64 \<Longrightarrow> round_up sz 4096 = (sz + 4095) div 4096 * 4096"
  by (simp add: round_up_def add64_exact)

lemma round_up_ge: "sz + 4095 < 2 ^ 64 \<Longrightarrow> sz \<le> round_up sz 4096 \<and> round_up sz 4096 < sz + 4096 \<and> 4096 dvd round_up sz 4096"
  by (simp add: round_up_pages) linarith

lemma area_at_insert:
  assumes "sorted_wrt (\<lambda>a b. before (ar a) (ar b)) (xs @ x # ys)" and "0 \<notin> set (xs @ x # ys)"
  shows "area_at ar (xs @ x # ys) va = (if contains (ar x) va then x else area_at ar (xs @ ys) va)"
proof (cases "contains (ar x) va")
  case True
  then show ?thesis using area_at_found[OF assms(1), of x] by simp
next
  case False
  then show ?thesis by (simp add: area_at_def find_append split: option.splits)
qed

lemma area_at_cong: "(\<And>n. n \<in> set ns \<Longrightarrow> ar n = ar' n) \<Longrightarrow> area_at ar ns va = area_at ar' ns va"
proof -
  assume h: "\<And>n. n \<in> set ns \<Longrightarrow> ar n = ar' n"
  have "find (\<lambda>n. contains (ar n) va) ns = find (\<lambda>n. contains (ar' n) va) ns" using h by (intro find_cong) auto
  then show ?thesis by (simp add: area_at_def)
qed

lemma space_ok_nonzero: "space_ok m sp ns \<Longrightarrow> 0 \<notin> set ns"
  using nodes_at_not_0 by (auto simp: space_ok_def rb_holds_def)


lemma mmap_at:
  assumes ok: "space_ok m sp ns" and addr: "addr \<noteq> 0" "4096 dvd addr" and fl: "bit flags MAP_PRIVATE \<or> bit flags MAP_SHARED"
    and sz: "0 < sz" "sz + 4095 < 2 ^ 64" and fit: "addr + round_up sz 4096 < 2 ^ 63"
    and obj: "fd \<noteq> 0 \<longrightarrow> fops_mmap fd (round_up sz 4096 div 4096) prot flags off \<noteq> 0"
    and u: "unused m ns addr (round_up sz 4096)"
  shows "\<exists>m' sp' xs ys. mmap fops_mmap m sp name addr sz prot flags fd off = Some (addr, m', sp') \<and>
    ns = xs @ ys \<and> space_ok m' sp' (xs @ next_area m # ys) \<and> sp_pt sp' = sp_pt sp \<and>
    km m' = km m \<and> frames m' = frames m \<and> pages_of m' = pages_of m \<and> next_page m' = next_page m \<and> next_area m' = next_area m + 64 \<and>
    areas m' = (areas m)(next_area m := mapped_area name addr (round_up sz 4096 div 4096) prot flags fd off
      (if fd \<noteq> 0 then fops_mmap fd (round_up sz 4096 div 4096) prot flags off else 0))"
proof -
  let ?n = "round_up sz 4096 div 4096"
  let ?obj = "if fd \<noteq> 0 then fops_mmap fd ?n prot flags off else 0"
  let ?ar = "mapped_area name addr ?n prot flags fd off ?obj"
  let ?m1 = "if fd \<noteq> 0 then m\<lparr>owners := (owners m)(?obj := owners m ?obj + 1)\<rparr> else m"
  let ?m = "?m1\<lparr>areas := (areas ?m1)(next_area ?m1 := ?ar), next_area := next_area ?m1 + 64\<rparr>"
  have n: "0 < ?n" "?n * 4096 = round_up sz 4096" using round_up_ge[OF sz(2)] sz(1) by auto
  have ok': "area_ok ?ar" "a_va ?ar = addr" "a_len ?ar = round_up sz 4096"
    using mapped_area_ok[OF addr(2) n(1)] n fit by (auto simp: mapped_area_def)
  have m': "areas ?m = (areas m)(next_area m := ?ar)" "next_area ?m = next_area m + 64" by simp_all
  have rest: "km ?m = km m" "frames ?m = frames m" "pages_of ?m = pages_of m" "next_page ?m = next_page m" by simp_all
  obtain sp' xs ys where r: "add_region ?m (next_area m) sp = Some (True, sp')" "ns = xs @ ys"
    "space_ok ?m sp' (xs @ next_area m # ys)" "sp_pt sp' = sp_pt sp"
    using add_area_ok[OF ok ok'(1) _ m'] u ok' by auto
  have "addr mod 4096 = 0" using addr(2) by auto
  then have "mmap fops_mmap m sp name addr sz prot flags fd off = Some (addr, ?m, sp')"
    using addr(1) fl obj r(1) by (auto simp: mmap_def mapped_area_def Let_def)
  then show ?thesis using r m' rest by blast
qed

lemma mmap_lookup:
  assumes ok: "space_ok m sp (xs @ ys)" and ok': "space_ok m' sp' (xs @ next_area m # ys)"
    and ar: "areas m' = (areas m)(next_area m := ar)"
  shows "lookup m' sp' va = (if contains ar va then Some (next_area m) else lookup m sp va)"
proof -
  have fresh: "next_area m \<notin> set (xs @ ys)" using ok by (auto simp: space_ok_def)
  have "area_at (areas m') (xs @ ys) va = area_at (areas m) (xs @ ys) va"
    using fresh ar by (intro area_at_cong) auto
  then show ?thesis using lookup_eq[OF ok] lookup_eq[OF ok'] ok' ar
      area_at_insert[of "areas m'" xs "next_area m" ys va] space_ok_nonzero[OF ok']
    by (auto simp: space_ok_def)
qed

lemma mmap_hole:
  assumes hole: "find_hole m sp (round_up sz 4096) = Some va" and "va \<noteq> 0" "4096 dvd va"
  shows "mmap fops_mmap m sp name 0 sz prot flags fd off = mmap fops_mmap m sp name va sz prot flags fd off"
proof -
  have "va mod 4096 = 0" using assms(3) by auto
  then show ?thesis using assms(1,2) by (simp add: mmap_def Let_def)
qed

lemma hole_aligned:
  assumes "4096 dvd sz" and "\<forall>n \<in> set ns. 4096 dvd a_va (ar n)" and "4096 dvd fst st"
  shows "4096 dvd fst (foldl (hole_step ar sz) st ns)"
  using assms(2,3)
proof (induction ns arbitrary: st)
  case (Cons n ns)
  have "4096 dvd sub64 a sz" if "4096 dvd a" for a
  proof -
    have "int 4096 dvd int a - int sz" using that assms(1) by (intro dvd_diff) (simp_all only: int_dvd_int_iff)
    then have "4096 dvd int a - int sz" by simp
    moreover have "(4096 :: int) dvd 2 ^ 64" by simp
    ultimately have "4096 dvd (int a - int sz) mod 2 ^ 64" by (rule dvd_mod)
    then show ?thesis using dvd_nat_abs_iff[of 4096 "(int a - int sz) mod 2 ^ 64"] by (simp add: sub64_def)
  qed
  then have "4096 dvd fst (hole_step ar sz st n)"
    using Cons.prems by (auto simp: hole_step_def Let_def split: prod.splits)
  then show ?case using Cons by simp
qed simp

section \<open>Validating user pointers\<close>

definition permits :: "nat \<Rightarrow> nat \<Rightarrow> bool" where
  "permits mode prot \<longleftrightarrow> (\<forall>f \<in> {VPROT_READ, VPROT_WRITE, VPROT_EXEC}. bit mode f \<longrightarrow> bit prot f)"

definition accessible :: "mm \<Rightarrow> nat list \<Rightarrow> nat \<Rightarrow> nat \<Rightarrow> bool" where
  "accessible m ns mode va \<longleftrightarrow> (\<exists>n \<in> set ns. contains (areas m n) va \<and> permits mode (a_prot (areas m n)))"

lemma accessible_lookup:
  assumes "space_ok m sp ns"
  shows "\<exists>r. lookup m sp va = Some r \<and> accessible m ns mode va = (r \<noteq> 0 \<and> permits mode (a_prot (areas m r)))"
proof -
  note srt = assms[unfolded space_ok_def, THEN conjunct2, THEN conjunct2, THEN conjunct1]
  have "accessible m ns mode va = (area_at (areas m) ns va \<noteq> 0 \<and> permits mode (a_prot (areas m (area_at (areas m) ns va))))"
    using area_at_found[OF srt] area_at_0[OF space_ok_nonzero[OF assms] refl] space_ok_nonzero[OF assms]
    unfolding accessible_def by metis
  then show ?thesis using lookup_eq[OF assms] by blast
qed

lemma validate_loop_ok:
  assumes ok: "space_ok m sp ns" and "4096 * j < 2 ^ 63"
  shows "validate_loop m sp mode (4096 * j) (4096 * k) = Some (\<forall>i. k \<le> i \<and> i \<le> j \<longrightarrow> accessible m ns mode (4096 * i))"
  using assms(2)
proof (induction "Suc j - k" arbitrary: k)
  case 0
  then show ?case by (subst validate_loop.simps) auto
next
  case (Suc d)
  obtain r where r: "lookup m sp (4096 * k) = Some r"
    "accessible m ns mode (4096 * k) = (r \<noteq> 0 \<and> permits mode (a_prot (areas m r)))"
    using accessible_lookup[OF ok] by blast
  have kj: "k \<le> j" using Suc.hyps(2) by simp
  have "add64 (4096 * k) PGSIZE = 4096 * Suc k" using kj Suc.prems by (subst add64_exact) (auto simp: PGSIZE_def)
  moreover have "validate_loop m sp mode (4096 * j) (4096 * Suc k) = Some (\<forall>i. Suc k \<le> i \<and> i \<le> j \<longrightarrow> accessible m ns mode (4096 * i))"
    using Suc by (intro Suc.hyps(1)) auto
  moreover have "(\<forall>i. k \<le> i \<and> i \<le> j \<longrightarrow> accessible m ns mode (4096 * i)) \<longleftrightarrow>
      accessible m ns mode (4096 * k) \<and> (\<forall>i. Suc k \<le> i \<and> i \<le> j \<longrightarrow> accessible m ns mode (4096 * i))"
    using kj by (metis le_refl le_antisym not_less_eq_eq Suc_leD)
  ultimately show ?case using r kj by (subst validate_loop.simps) (auto simp: permits_def Let_def)
qed

lemma contains_page: "area_ok r \<Longrightarrow> contains r va \<longleftrightarrow> contains r (4096 * (va div 4096))"
proof -
  assume "area_ok r"
  then obtain k where k: "a_va r = 4096 * k" "a_len r = 4096 * length (a_mappings r)" by (auto simp: area_ok_def elim!: dvdE)
  have "4096 * k \<le> va \<longleftrightarrow> 4096 * k \<le> 4096 * (va div 4096)" "va < 4096 * j \<longleftrightarrow> 4096 * (va div 4096) < 4096 * j" for j
    using less_eq_div_iff_mult_less_eq[of 4096 k va] div_less_iff_less_mult[of 4096 va j] by (simp_all add: mult.commute)
  from this(1) this(2)[of "k + length (a_mappings r)"] show ?thesis
    unfolding contains_def k by (simp only: distrib_left)
qed

lemma accessible_page: "space_ok m sp ns \<Longrightarrow> accessible m ns mode va \<longleftrightarrow> accessible m ns mode (4096 * (va div 4096))"
proof -
  assume "space_ok m sp ns"
  then have "\<forall>n \<in> set ns. contains (areas m n) va = contains (areas m n) (4096 * (va div 4096))"
    using contains_page unfolding space_ok_def by blast
  then show ?thesis unfolding accessible_def by blast
qed

lemma validate_pointer_ok:
  assumes ok: "space_ok m sp ns" and "\<not> is_kspace sp" and "raw_va + len < 2 ^ 63"
  shows "validate_pointer m sp raw_va len mode = Some (\<forall>va. raw_va \<le> va \<and> va \<le> raw_va + len \<longrightarrow> accessible m ns mode va)"
proof -
  let ?a = "raw_va div 4096" and ?b = "(raw_va + len) div 4096"
  have "(\<forall>i. ?a \<le> i \<and> i \<le> ?b \<longrightarrow> accessible m ns mode (4096 * i)) \<longleftrightarrow>
      (\<forall>va. raw_va \<le> va \<and> va \<le> raw_va + len \<longrightarrow> accessible m ns mode va)" (is "?L \<longleftrightarrow> ?R")
  proof
    assume L: ?L
    show ?R using L accessible_page[OF ok, of mode] by (meson div_le_mono)
  next
    assume R: ?R
    have "accessible m ns mode (4096 * i)" if "?a \<le> i" "i \<le> ?b" for i
    proof -
      let ?va = "max raw_va (4096 * i)"
      have "4096 * i \<le> raw_va + len" using that(2) by linarith
      moreover have "?va div 4096 = i" using that(1) by (auto simp: max_def)
      ultimately show ?thesis using R accessible_page[OF ok, of mode ?va] by auto
    qed
    then show ?L by blast
  qed
  then show ?thesis using validate_loop_ok[OF ok, of ?b mode ?a] assms(2,3)
    by (simp add: validate_pointer_def PGMASK_def PGSIZE_def add64_exact)
qed

lemma validate_pointer_wrap:
  assumes "raw_va < 2 ^ 64" and "len < 2 ^ 64" and "2 ^ 64 \<le> raw_va + len" and "(raw_va + len - 2 ^ 64) div 4096 < raw_va div 4096"
  shows "validate_pointer m sp raw_va len mode = Some True"
proof -
  have "add64 raw_va len = raw_va + len - 2 ^ 64" using assms(1-3) by (simp add: add64_def mod_if)
  then show ?thesis using assms(4) by (subst validate_pointer_def, subst validate_loop.simps) (simp add: PGMASK_def PGSIZE_def)
qed

section \<open>Unmapping\<close>

lemma unmap_pt:
  assumes "ptr + 4096 * length (a_mappings (ar r)) < 2 ^ 64"
  shows "k \<le> length (a_mappings (ar r)) \<Longrightarrow> foldl (unmap_step ar r ptr) pt [0..<k] v =
    (if \<exists>i < k. a_mappings (ar r) ! i \<noteq> 0 \<and> v = ptr div 4096 + i then None else pt v)"
proof (induction k)
  case (Suc k)
  have "add64 ptr (k * 4096) div PGSIZE = ptr div 4096 + k"
    using assms Suc.prems by (subst add64_exact) (auto simp: PGSIZE_def)
  then show ?case using Suc by (auto simp: unmap_step_def del_mapping_def less_Suc_eq)
qed simp

lemma space_ok_remove:
  assumes "space_ok m sp ns" and "rb_holds s (remove1 n ns)"
  shows "space_ok m (sp\<lparr>regions := s, sp_pt := pt\<rparr>) (remove1 n ns)"
  using assms by (auto simp: space_ok_def sorted_wrt_remove1 dest: notin_set_remove1)

lemma unmap_ok:
  assumes ok: "space_ok m sp ns" and n: "n \<in> set ns" "contains (areas m n) ptr" and al: "4096 dvd ptr"
  shows "\<exists>sp'. unmap m sp ptr len = Some (0, sp') \<and> space_ok m sp' (remove1 n ns) \<and>
    (\<forall>v. sp_pt sp' v = (if \<exists>i < length (a_mappings (areas m n)). a_mappings (areas m n) ! i \<noteq> 0 \<and> v = ptr div 4096 + i
                        then None else sp_pt sp v))"
proof -
  have h: "rb_holds (regions sp) ns" "area_ok (areas m n)" using ok n(1) by (auto simp: space_ok_def)
  have lk: "lookup m sp ptr = Some n" by (rule lookup_area[OF ok n])
  have "n \<noteq> 0" using space_ok_nonzero[OF ok] n(1) by metis
  obtain s where s: "rb_erase n (regions sp) = Some s" "rb_holds s (remove1 n ns)" using rbi.del_held[OF h(1) n(1)] by blast
  let ?sp = "sp\<lparr>regions := s, sp_pt := foldl (unmap_step (areas m) n ptr) (sp_pt sp) [0..<length (a_mappings (areas m n))]\<rparr>"
  have "ptr mod 4096 = 0" using al by auto
  then have "unmap m sp ptr len = Some (0, ?sp)" using lk \<open>n \<noteq> 0\<close> s(1) by (simp add: unmap_def)
  moreover have "ptr + 4096 * length (a_mappings (areas m n)) < 2 ^ 64" using h(2) n(2) by (auto simp: area_ok_def contains_def)
  ultimately show ?thesis using space_ok_remove[OF ok s(2)] unmap_pt[where ar = "areas m" and r = n] by fastforce
qed

lemma sorted_before_distinct: "sorted_wrt (\<lambda>a b. before (ar a) (ar b)) ns \<Longrightarrow> distinct ns"
  by (induction ns) (auto simp: before_def)

lemma remove1_area_at:
  assumes ok: "space_ok m sp ns" and n: "n \<in> set ns"
  shows "area_at (areas m) (remove1 n ns) va = (if contains (areas m n) va then 0 else area_at (areas m) ns va)"
proof -
  obtain xs ys where ns: "ns = xs @ n # ys" "n \<notin> set xs" using split_list_first[OF n] by blast
  then have r: "remove1 n ns = xs @ ys" by (simp add: remove1_append)
  have srt: "sorted_wrt (\<lambda>a b. before (areas m a) (areas m b)) ns" using ok by (simp add: space_ok_def)
  note d = sorted_before_distinct[OF srt]
  show ?thesis
  proof (cases "contains (areas m n) va")
    case True
    have "\<not> contains (areas m k) va" if "k \<in> set (xs @ ys)" for k
      using sorted_before_unique[OF srt n, of k va] True that d ns by auto
    then show ?thesis using True area_at_none[of "xs @ ys"] r by simp
  next
    case False
    then show ?thesis using area_at_insert[of "areas m" xs n ys va] srt space_ok_nonzero[OF ok] ns r by simp
  qed
qed

section \<open>Properties\<close>

definition demo_mm :: mm where
  "demo_mm = \<lparr>km = demo_kmem, frames = (\<lambda>_. []), pages_of = (\<lambda>_. new_page), next_page = 1,
     areas = (\<lambda>_. mapped_area '''' 0 0 0 0 0 0 0), next_area = 64, owners = (\<lambda>_. 0)\<rparr>"

definition demo_space :: space where "demo_space = new_space 0x1000 0x800000"

lemma rb_holds_empty: "rb_holds rb_empty []"
  using rb_empty_at by (auto simp: rb_holds_def)

lemma demo_space_ok: "space_ok demo_mm demo_space []"
  by (simp add: space_ok_def demo_space_def new_space_def rb_holds_empty demo_mm_def rb_aligned_def)

lemma round_up_demo: "round_up 5000 4096 = 8192"
  by (simp add: round_up_pages)

text \<open>
  C10: \<^verbatim>\<open>space::mmap\<close> at an unused range below the middle of the address space succeeds, keeps the areas of
  the space sorted and disjoint, and changes what \<^verbatim>\<open>lookup\<close> returns in the mapped range only:
  there it is the new area, which has the requested protection, flags and offset.
\<close>

theorem mmap_correct:
  assumes "space_ok m sp ns" and "addr \<noteq> 0" and "4096 dvd addr" and "bit flags MAP_PRIVATE \<or> bit flags MAP_SHARED"
    and "0 < sz" and "sz + 4095 < 2 ^ 64" and "addr + round_up sz 4096 < 2 ^ 63" and "unused m ns addr (round_up sz 4096)"
    and "fd \<noteq> 0 \<longrightarrow> fops_mmap fd (round_up sz 4096 div 4096) prot flags off \<noteq> 0"
  shows "\<exists>m' sp' ns'. mmap fops_mmap m sp name addr sz prot flags fd off = Some (addr, m', sp') \<and> space_ok m' sp' ns' \<and>
    (\<forall>va. lookup m' sp' va = (if addr \<le> va \<and> va < addr + round_up sz 4096 then Some (next_area m) else lookup m sp va)) \<and>
    a_prot (areas m' (next_area m)) = prot \<and> a_flags (areas m' (next_area m)) = flags \<and> a_off (areas m' (next_area m)) = off"
proof -
  obtain m' sp' xs ys where r: "mmap fops_mmap m sp name addr sz prot flags fd off = Some (addr, m', sp')"
    "ns = xs @ ys" "space_ok m' sp' (xs @ next_area m # ys)"
    "areas m' = (areas m)(next_area m := mapped_area name addr (round_up sz 4096 div 4096) prot flags fd off
      (if fd \<noteq> 0 then fops_mmap fd (round_up sz 4096 div 4096) prot flags off else 0))"
    using mmap_at[where fops_mmap = fops_mmap and fd = fd and prot = prot and off = off and name = name, OF assms(1-7,9,8)]
    by blast
  have "round_up sz 4096 div 4096 * 4096 = round_up sz 4096" using round_up_ge[OF assms(6)] by simp
  then show ?thesis using r mmap_lookup[of m sp xs ys m' sp'] assms(1) by (auto simp: contains_def mapped_area_def)
qed

theorem mmap_correct_witness:
  "\<exists>m' sp'. mmap (\<lambda>_ _ _ _ _. 0) demo_mm demo_space ''a'' 0x4000 5000 3 2 0 0 = Some (0x4000, m', sp') \<and>
     lookup m' sp' 0x5fff = Some 64 \<and> lookup m' sp' 0x6000 = lookup demo_mm demo_space 0x6000"
proof -
  have "unused demo_mm [] 0x4000 (round_up 5000 4096)" by (simp add: unused_def)
  from mmap_correct[OF demo_space_ok _ _ _ _ _ _ this, of 2 0 "\<lambda>_ _ _ _ _. 0" 3 0 "''a''"]
  obtain m' sp' where r: "mmap (\<lambda>_ _ _ _ _. 0) demo_mm demo_space ''a'' 0x4000 5000 3 2 0 0 = Some (0x4000, m', sp')"
    "\<And>va. lookup m' sp' va = (if 0x4000 \<le> va \<and> va < 0x4000 + round_up 5000 4096 then Some (next_area demo_mm) else lookup demo_mm demo_space va)"
    by (auto simp: MAP_PRIVATE_def round_up_demo bit_simps)
  then show ?thesis by (auto simp: round_up_demo demo_mm_def)
qed



text \<open>
  The result of \<^verbatim>\<open>add_region\<close> is dropped by \<^verbatim>\<open>mmap\<close>: mapping at the first address of an existing area
  reports success, but the new area never becomes part of the space, and every address
  keeps the area it had.
\<close>

theorem mmap_taken_address:
  assumes "space_ok m sp ns" and "n \<in> set ns" and "a_va (areas m n) \<noteq> 0" and "bit flags MAP_PRIVATE \<or> bit flags MAP_SHARED"
  shows "\<exists>m'. mmap fops_mmap m sp name (a_va (areas m n)) sz prot flags 0 off = Some (a_va (areas m n), m', sp) \<and>
    (\<forall>va. lookup m' sp va = lookup m sp va)"
proof -
  let ?a = "a_va (areas m n)" and ?p = "round_up sz 4096 div 4096"
  let ?m = "m\<lparr>areas := (areas m)(next_area m := mapped_area name ?a ?p prot flags 0 off 0), next_area := next_area m + 64\<rparr>"
  have fresh: "next_area m \<notin> set ns" and al: "rb_aligned (next_area m)" using assms(1) by (auto simp: space_ok_def)
  have ok: "space_ok ?m sp ns" using fresh al by (intro space_ok_areas[OF assms(1)]) (auto simp: rb_aligned_def)
  have n: "area_ok (areas m n)" using assms(1,2) by (simp add: space_ok_def)
  have "n \<noteq> next_area m" using fresh assms(2) by auto
  then have "add_region ?m (next_area m) sp = Some (False, sp)"
    using n by (intro add_region_taken[OF ok _ al fresh assms(2)]) (auto simp: mapped_area_def area_ok_def)
  moreover have "?a mod 4096 = 0" using n by (auto simp: area_ok_def)
  ultimately have "mmap fops_mmap m sp name ?a sz prot flags 0 off = Some (?a, ?m, sp)"
    using assms(3,4) by (auto simp: mmap_def mapped_area_def Let_def)
  moreover have "area_at (areas ?m) ns va = area_at (areas m) ns va" for va using fresh by (intro area_at_cong) auto
  ultimately show ?thesis using lookup_eq[OF assms(1)] lookup_eq[OF ok] by auto
qed


text \<open>A space with one area of two pages, for the witnesses.\<close>

lemma demo_mapped:
  "\<exists>m sp. space_ok m sp [64] \<and> areas m 64 = mapped_area ''a'' 0x4000 2 3 2 0 0 0 \<and> km m = demo_kmem \<and>
     pages_of m = (\<lambda>_. new_page) \<and> next_page m = 1 \<and> next_area m = 128 \<and> sp_pt sp = (\<lambda>_. None)"
proof -
  have "unused demo_mm [] 0x4000 (round_up 5000 4096)" by (simp add: unused_def)
  from mmap_at[where fops_mmap = "\<lambda>_ _ _ _ _. 0" and fd = 0 and prot = 3 and off = 0 and name = "''a''" and flags = 2,
    OF demo_space_ok _ _ _ _ _ _ _ this]
  obtain m sp where "space_ok m sp [64]" "areas m = (areas demo_mm)(64 := mapped_area ''a'' 0x4000 2 3 2 0 0 0)"
    "km m = demo_kmem" "pages_of m = (\<lambda>_. new_page)" "next_page m = 1" "next_area m = 128" "sp_pt sp = (\<lambda>_. None)"
    by (auto simp: MAP_PRIVATE_def round_up_demo bit_simps demo_mm_def demo_space_def new_space_def)
  then show ?thesis by (intro exI[of _ m] exI[of _ sp]) simp
qed

theorem mmap_taken_address_witness:
  "\<exists>m sp m'. mmap (\<lambda>_ _ _ _ _. 0) m sp ''b'' 0x4000 4096 1 1 0 0 = Some (0x4000, m', sp) \<and> lookup m' sp 0x4000 = lookup m sp 0x4000"
proof -
  obtain m sp where d: "space_ok m sp [64]" "areas m 64 = mapped_area ''a'' 0x4000 2 3 2 0 0 0" using demo_mapped by blast
  then show ?thesis using mmap_taken_address[where fops_mmap = "\<lambda>_ _ _ _ _. 0" and name = "''b''" and sz = 4096 and
      prot = 1 and off = 0 and flags = 1, OF d(1), of 64]
    by (fastforce simp: mapped_area_def MAP_SHARED_def bit_simps)
qed



text \<open>
  \<^verbatim>\<open>unmap\<close> ignores the length it is given and counts pages from the address it is given: at an
  address inside an area it removes the whole area, whatever the length, but deletes the entries
  of the wrong pages, so that the first page of the area, if populated, stays mapped.
\<close>

theorem unmap_inside_area:
  assumes "space_ok m sp ns" and "n \<in> set ns" and "contains (areas m n) ptr" and "4096 dvd ptr" and "ptr \<noteq> a_va (areas m n)"
  shows "\<exists>sp'. unmap m sp ptr len = Some (0, sp') \<and> lookup m sp' (a_va (areas m n)) = Some 0 \<and>
    sp_pt sp' (a_va (areas m n) div 4096) = sp_pt sp (a_va (areas m n) div 4096)"
proof -
  have n: "area_ok (areas m n)" using assms by (simp add: space_ok_def)
  obtain k where k: "a_va (areas m n) = 4096 * k" using n by (auto simp: area_ok_def elim!: dvdE)
  obtain j where j: "ptr = 4096 * j" using assms(4) by (auto elim!: dvdE)
  have "k < j" using assms(3,5) j k by (auto simp: contains_def)
  obtain sp' where s: "unmap m sp ptr len = Some (0, sp')" "space_ok m sp' (remove1 n ns)"
    "\<forall>v. sp_pt sp' v = (if \<exists>i < length (a_mappings (areas m n)). a_mappings (areas m n) ! i \<noteq> 0 \<and> v = ptr div 4096 + i
      then None else sp_pt sp v)" using unmap_ok[OF assms(1-4)] by blast
  have "contains (areas m n) (a_va (areas m n))" using n by (auto simp: area_ok_def contains_def)
  then show ?thesis using s lookup_eq[OF s(2)] remove1_area_at[OF assms(1,2)] \<open>k < j\<close> j k by auto
qed

theorem unmap_inside_area_witness: "\<exists>m sp sp'. unmap m sp 0x5000 4096 = Some (0, sp') \<and> lookup m sp' 0x4000 = Some 0"
proof -
  obtain m sp where d: "space_ok m sp [64]" "areas m 64 = mapped_area ''a'' 0x4000 2 3 2 0 0 0" using demo_mapped by blast
  then show ?thesis using unmap_inside_area[where len = 4096 and ptr = "0x5000", OF d(1), of 64] by (fastforce simp: mapped_area_def contains_def)
qed



text \<open>
  The end of the range is computed modulo $2^{64}$ and never checked: any range that wraps to a page below
  its first one is accepted in every space, whatever is mapped there.
\<close>

theorem validate_pointer_overflow:
  assumes "raw_va < 2 ^ 64" and "len < 2 ^ 64" and "2 ^ 64 \<le> raw_va + len" and "(raw_va + len - 2 ^ 64) div 4096 < raw_va div 4096"
  shows "validate_pointer m sp raw_va len mode = Some True"
  by (rule validate_pointer_wrap[OF assms])

theorem validate_pointer_overflow_witness:
  "validate_pointer demo_mm demo_space 0xFFFF800000000000 0xFFFFFFFFFFFF 2 = Some True \<and> lookup demo_mm demo_space 0xFFFF800000000000 = Some 0"
  using validate_pointer_overflow[of "0xFFFF800000000000" "0xFFFFFFFFFFFF" demo_mm demo_space 2] lookup_eq[OF demo_space_ok]
  by (simp add: area_at_def)

end
