(* ===== verification/Mm_Fault.thy ===== *)
theory Mm_Fault
  imports Mm_Space
begin

text \<open>
  Page faults: the user count of a page is the number of mappings that hold it (\<open>mm_ok\<close>), so a
  write fault leaves the area with a page of its own. Page frames come from the allocator of
  the theory \<open>Phys\<close>.
\<close>

section \<open>Pages\<close>

lemma div_4096: "(x :: nat) div 4096 = drop_bit 12 x" by (simp add: drop_bit_eq_div)
lemma mod_4096: "(x :: nat) mod 4096 = take_bit 12 x" by (simp add: take_bit_eq_mod)

lemma or_low: "v < 4096 \<Longrightarrow> or (x :: nat) v div 4096 = x div 4096"
  unfolding div_4096 drop_bit_or by (simp add: drop_bit_eq_div)

lemma or_disjoint_low: "v < 4096 \<Longrightarrow> or (4096 * x) v = 4096 * x + (v :: nat)"
proof -
  assume v: "v < 4096"
  have "or (4096 * x) v div 4096 = x" using or_low[OF v, of "4096 * x"] by simp
  moreover have "or (4096 * x) v mod 4096 = v"
    unfolding mod_4096 take_bit_or using v by (simp add: take_bit_eq_mod)
  ultimately show ?thesis using mult_div_mod_eq[of 4096 "or (4096 * x) v"] by simp
qed

lemma set_pa_paf: "m_paf (set_pa pa p) = 4096 * (pa div 4096) + pg_flags p"
  by (simp add: set_pa_def or_disjoint_low pg_flags_def)

lemma pg_pa_set_pa: "pg_pa (set_pa pa p) = 4096 * (pa div 4096)"
  by (simp add: pg_pa_def set_pa_paf pg_flags_def)

lemma pg_flags_set_pa: "pg_flags (set_pa pa p) = pg_flags p"
  unfolding pg_flags_def[of "set_pa pa p"] set_pa_paf by (simp add: pg_flags_def)

lemma pg_pa_fset: "v < 4096 \<Longrightarrow> pg_pa (fset v p) = pg_pa p"
  by (simp add: pg_pa_def fset_def or_low)

lemma and_le_nat: "and (x :: nat) v \<le> x"
  using AND_upper1[of "int x" "int v"] by (simp add: and_nat_def nat_le_iff)

lemma and_low: "v < 4096 \<Longrightarrow> and (x :: nat) v \<le> x mod 4096"
proof -
  assume v: "v < 4096"
  have v12: "take_bit 12 v = v" using v by (simp add: take_bit_nat_eq_self)
  have "and x (take_bit 12 v) = and (take_bit 12 x) (take_bit 12 v)" by (rule bit_eqI) (auto simp: bit_simps)
  then have "and x v = and (take_bit 12 x) v" by (simp only: v12)
  then show ?thesis using and_le_nat[of "take_bit 12 x" v] by (simp add: mod_4096)
qed

lemma pg_pa_fclr: "v < 4096 \<Longrightarrow> pg_pa (fclr v p) = pg_pa p"
proof -
  assume v: "v < 4096"
  let ?x = "m_paf p" and ?a = "and (m_paf p) v"
  have "(?x - ?a) div 4096 = (4096 * (?x div 4096) + (?x mod 4096 - ?a)) div 4096"
    using and_low[OF v, of ?x] mult_div_mod_eq[of 4096 ?x] by (intro arg_cong[where f = "\<lambda>y. y div 4096"]) linarith
  also have "\<dots> = ?x div 4096" by (simp add: less_imp_diff_less)
  finally show ?thesis by (simp add: pg_pa_def fclr_def)
qed


section \<open>References to pages\<close>

definition refs :: "mm \<Rightarrow> nat list \<Rightarrow> nat \<Rightarrow> nat" where
  "refs m live p = (\<Sum>a\<leftarrow>live. count_list (a_mappings (areas m a)) p)"

definition frame_of :: "mm \<Rightarrow> nat \<Rightarrow> nat" where
  "frame_of m p = pg_pa (pages_of m p)"

text \<open>
  The areas \<open>live\<close> of all spaces: the user count of every page is the number of mappings that
  hold it, and no two pages in use share a frame or use a free one.
\<close>

definition mm_ok :: "mm \<Rightarrow> nat list \<Rightarrow> bool" where
  "mm_ok m live \<longleftrightarrow> distinct live \<and> 0 < next_page m \<and> (\<Sum>a\<leftarrow>live. length (a_mappings (areas m a))) < 2 ^ 32 \<and>
     (\<forall>a \<in> set live. a < next_area m \<and> (\<forall>p \<in> set (a_mappings (areas m a)). p < next_page m)) \<and>
     (\<forall>p. 0 < p \<and> p < next_page m \<longrightarrow> m_users (pages_of m p) = refs m live p) \<and>
     (\<forall>p q. 0 < p \<and> 0 < q \<and> 0 < refs m live p \<and> 0 < refs m live q \<and> frame_of m p = frame_of m q \<longrightarrow> p = q) \<and>
     (\<forall>p. 0 < p \<and> 0 < refs m live p \<longrightarrow> frame_of m p div PGSIZE \<notin> free_pages (km m))"

text \<open>What an area shows at one of its pages: zeros until the page is populated.\<close>

definition view :: "mm \<Rightarrow> nat \<Rightarrow> nat \<Rightarrow> byte list" where
  "view m a i = (let p = a_mappings (areas m a) ! i in if p = 0 then replicate PGSIZE 0 else frames m (frame_of m p))"

lemma count_list_update:
  "i < length xs \<Longrightarrow> count_list (xs[i := y]) p + (if xs ! i = p then 1 else 0) = count_list xs p + (if y = p then 1 else 0)"
proof (induction xs arbitrary: i)
  case (Cons x xs)
  show ?case
  proof (cases i)
    case (Suc j)
    then show ?thesis using Cons.IH[of j] Cons.prems by auto
  qed (use Cons.prems in auto)
qed simp

lemma refs_update:
  assumes "distinct live" and "a \<in> set live" and "i < length (a_mappings (areas m a))"
    and ar: "areas m' = (areas m)(a := r)" "a_mappings r = (a_mappings (areas m a))[i := y]"
  shows "refs m' live p + (if a_mappings (areas m a) ! i = p then 1 else 0) = refs m live p + (if y = p then 1 else 0)"
  using assms(1,2)
proof (induction live)
  case (Cons b live)
  show ?case
  proof (cases "b = a")
    case True
    then have "refs m' live p = refs m live p" using Cons.prems ar(1)
      by (auto simp: refs_def intro!: arg_cong[where f = sum_list] map_cong)
    then show ?thesis using True ar count_list_update[OF assms(3), of y p] by (simp add: refs_def)
  next
    case False
    then show ?thesis using Cons ar(1) by (simp add: refs_def)
  qed
qed simp

lemma refs_pos: "0 < refs m live p \<longleftrightarrow> (\<exists>a \<in> set live. p \<in> set (a_mappings (areas m a)))"
  by (induction live) (auto simp: refs_def count_list_0_iff)

lemma refs_total: "refs m live p \<le> (\<Sum>a\<leftarrow>live. length (a_mappings (areas m a)))"
  unfolding refs_def by (rule sum_list_mono) (simp add: count_le_length)


lemma set_page_fields:
  "areas (set_page old pg m) = areas m" "frames (set_page old pg m) = frames m" "km (set_page old pg m) = km m"
  "next_page (set_page old pg m) = next_page m" "next_area (set_page old pg m) = next_area m"
  "owners (set_page old pg m) = owners m" "m_paf (pages_of (set_page old pg m) p) = m_paf (pages_of m p)"
  by (simp_all add: set_page_def upd_page_def Let_def)

lemma set_mapping_fields [simp]:
  "areas (set_mapping a i pg m) = (areas m)(a := (areas m a)\<lparr>a_mappings := (a_mappings (areas m a))[i := pg]\<rparr>)"
  "frames (set_mapping a i pg m) = frames m" "km (set_mapping a i pg m) = km m"
  "next_page (set_mapping a i pg m) = next_page m" "next_area (set_mapping a i pg m) = next_area m"
  "m_paf (pages_of (set_mapping a i pg m) p) = m_paf (pages_of m p)"
  by (simp_all add: set_mapping_def upd_area_def set_page_fields)

lemma frame_of_set_mapping [simp]: "frame_of (set_mapping a i pg m) p = frame_of m p"
  by (simp add: frame_of_def pg_pa_def)

lemma dec32: "0 < u \<Longrightarrow> u < 2 ^ 32 \<Longrightarrow> (u + (2 ^ 32 - 1)) mod 2 ^ 32 = u - (1 :: nat)"
  by (simp add: mod_if)

lemma set_page_users:
  "p \<noteq> 0 \<Longrightarrow> m_users (pages_of (set_page old pg m) p) =
     (let u = m_users (pages_of m p); u = (if old = p then (u + (2 ^ 32 - 1)) mod 2 ^ 32 else u)
      in if pg = p then (u + 1) mod 2 ^ 32 else u)"
  by (simp add: set_page_def upd_page_def Let_def)

lemma set_page_count:
  assumes "p \<noteq> 0" and "u = m_users (pages_of m p)" and "u' + (if old = p then 1 else 0) = u + (if pg = p then 1 else 0)"
    and "u < 2 ^ 32" and "u' < 2 ^ 32"
  shows "m_users (pages_of (set_page old pg m) p) = u'"
proof (cases "old = p")
  case True
  show ?thesis
  proof (cases "u = 0")
    case True
    then show ?thesis using assms \<open>old = p\<close> by (simp add: set_page_users Let_def split: if_splits)
  next
    case False
    then have "(u + (2 ^ 32 - 1)) mod 2 ^ 32 = u - 1" using dec32 assms(4) by simp
    then show ?thesis using assms \<open>old = p\<close> False unfolding set_page_users[OF assms(1)] Let_def assms(2)[symmetric]
      by (auto split: if_splits)
  qed
next
  case False
  then show ?thesis using assms by (auto simp: set_page_users Let_def)
qed

lemma length_total: "areas m' = (areas m)(a := r) \<Longrightarrow> length (a_mappings r) = length (a_mappings (areas m a)) \<Longrightarrow>
    (\<Sum>b\<leftarrow>live. length (a_mappings (areas m' b))) = (\<Sum>b\<leftarrow>live. length (a_mappings (areas m b)))"
  by (intro arg_cong[where f = sum_list] map_cong) auto

lemma mm_ok_parts:
  assumes "mm_ok m live"
  shows "distinct live" "0 < next_page m" "(\<Sum>a\<leftarrow>live. length (a_mappings (areas m a))) < 2 ^ 32"
    "a \<in> set live \<Longrightarrow> a < next_area m" "a \<in> set live \<Longrightarrow> p \<in> set (a_mappings (areas m a)) \<Longrightarrow> p < next_page m"
    "0 < p \<Longrightarrow> p < next_page m \<Longrightarrow> m_users (pages_of m p) = refs m live p"
    "0 < p \<Longrightarrow> 0 < q \<Longrightarrow> 0 < refs m live p \<Longrightarrow> 0 < refs m live q \<Longrightarrow> frame_of m p = frame_of m q \<Longrightarrow> p = q"
    "0 < p \<Longrightarrow> 0 < refs m live p \<Longrightarrow> frame_of m p div PGSIZE \<notin> free_pages (km m)"
  using assms unfolding mm_ok_def by blast+

lemma mm_okI:
  assumes "distinct live" "0 < next_page m" "(\<Sum>a\<leftarrow>live. length (a_mappings (areas m a))) < 2 ^ 32"
    "\<And>a. a \<in> set live \<Longrightarrow> a < next_area m" "\<And>a p. a \<in> set live \<Longrightarrow> p \<in> set (a_mappings (areas m a)) \<Longrightarrow> p < next_page m"
    "\<And>p. 0 < p \<Longrightarrow> p < next_page m \<Longrightarrow> m_users (pages_of m p) = refs m live p"
    "\<And>p q. 0 < p \<Longrightarrow> 0 < q \<Longrightarrow> 0 < refs m live p \<Longrightarrow> 0 < refs m live q \<Longrightarrow> frame_of m p = frame_of m q \<Longrightarrow> p = q"
    "\<And>p. 0 < p \<Longrightarrow> 0 < refs m live p \<Longrightarrow> frame_of m p div PGSIZE \<notin> free_pages (km m)"
  shows "mm_ok m live"
  using assms unfolding mm_ok_def by blast

lemma mm_ok_set_mapping:
  assumes ok: "mm_ok m live" and a: "a \<in> set live" "i < length (a_mappings (areas m a))" and pg: "0 < pg" "pg < next_page m"
    and fr: "0 < refs m live pg \<or> (\<forall>q. 0 < q \<and> 0 < refs m live q \<longrightarrow> frame_of m q \<noteq> frame_of m pg) \<and>
      frame_of m pg div PGSIZE \<notin> free_pages (km m)"
  shows "mm_ok (set_mapping a i pg m) live"
proof -
  let ?m = "set_mapping a i pg m" and ?old = "a_mappings (areas m a) ! i"
  note M = mm_ok_parts[OF ok]
  have r: "refs ?m live p + (if ?old = p then 1 else 0) = refs m live p + (if pg = p then 1 else 0)" for p
    by (rule refs_update[OF M(1) a]) auto
  have tot: "(\<Sum>b\<leftarrow>live. length (a_mappings (areas ?m b))) = (\<Sum>b\<leftarrow>live. length (a_mappings (areas m b)))"
    by (rule length_total[OF set_mapping_fields(1)]) simp
  have held: "0 < refs m live p" if "0 < refs ?m live p" "p \<noteq> pg" for p using r[of p] that by (auto split: if_splits)
  show ?thesis
  proof (rule mm_okI)
    show "distinct live" "0 < next_page ?m" using M(1,2) by simp_all
    show "(\<Sum>b\<leftarrow>live. length (a_mappings (areas ?m b))) < 2 ^ 32" using tot M(3) by (simp only:)
    show "b < next_area ?m" if "b \<in> set live" for b using M(4)[OF that] by simp
    show "p < next_page ?m" if "b \<in> set live" "p \<in> set (a_mappings (areas ?m b))" for b p
    proof -
      have "p = pg \<or> p \<in> set (a_mappings (areas m b))"
        using that(2) set_update_subset_insert[of "a_mappings (areas m a)" i pg] by (auto split: if_splits)
      then show ?thesis using M(5)[OF that(1)] pg(2) by auto
    qed
    show "m_users (pages_of ?m p) = refs ?m live p" if "0 < p" "p < next_page ?m" for p
    proof -
      have "refs m live p < 2 ^ 32" "refs ?m live p < 2 ^ 32"
        using refs_total[of m live p] refs_total[of ?m live p] M(3) unfolding tot by linarith+
      then have "m_users (pages_of (set_page ?old pg m) p) = refs ?m live p"
        using that M(6)[of p] r[of p] by (intro set_page_count[where u = "refs m live p"]) simp_all
      then show ?thesis by (simp add: set_mapping_def upd_area_def)
    qed
    show "p = q" if "0 < p" "0 < q" "0 < refs ?m live p" "0 < refs ?m live q" "frame_of ?m p = frame_of ?m q" for p q
      using held[OF that(3)] held[OF that(4)] that(1,2,5) fr M(7)[of p q] by (simp) metis
    show "frame_of ?m p div PGSIZE \<notin> free_pages (km ?m)" if "0 < p" "0 < refs ?m live p" for p
      using held[OF that(2)] that(1) fr M(8)[of p] M(8)[of pg] pg(1) by (cases "p = pg") auto
  qed
qed

section \<open>Allocating pages\<close>

lemma fresh_page_pa: "pg_pa (fset PG_OWNED ((set_pa pa new_page)\<lparr>m_users := u\<rparr>)) = 4096 * (pa div 4096)"
proof -
  have "pg_pa (fset PG_OWNED ((set_pa pa new_page)\<lparr>m_users := u\<rparr>)) = pg_pa ((set_pa pa new_page)\<lparr>m_users := u\<rparr>)"
    by (intro pg_pa_fset) (simp add: PG_OWNED_def)
  also have "\<dots> = pg_pa (set_pa pa new_page)" by (simp add: pg_pa_def)
  finally show ?thesis by (simp add: pg_pa_set_pa)
qed

lemma page_alloc_ok:
  assumes inv: "phys_inv (km m) es" and nf: "32 \<le> nfree (km m)"
  shows "\<exists>pa k es'. page_alloc reclaim m = Inr (next_page m, m\<lparr>km := k, frames := (frames m)(pa := replicate PGSIZE 0),
      pages_of := (pages_of m)(next_page m := fset PG_OWNED ((set_pa pa new_page)\<lparr>m_users := 0\<rparr>)),
      next_page := next_page m + 1\<rparr>) \<and> phys_inv k es' \<and> nfree (km m) = nfree k + 1 \<and>
    4096 dvd pa \<and> pa div PGSIZE \<in> free_pages (km m) \<and> free_pages k = free_pages (km m) - {pa div PGSIZE}"
proof -
  have "es \<noteq> []" using inv nf by (auto simp: phys_inv_def)
  moreover have "\<forall>e \<in> set es. 1 \<le> snd e" using inv by (auto simp: phys_inv_def dest: extents_ok_mem simp: extent_ok_def)
  ultimately have "\<exists>e \<in> set es. 1 \<le> snd e" by (cases es) auto
  from phys_inv_alloc[OF inv _ this] obtain pa k es' where
    a: "late_phys_alloc (km m) 1 = Some (Inr (pa, k))" "phys_inv k es'" "extent_ok (pa, 1)"
      "ext_pages (pa, 1) \<subseteq> pages es" "pages es' = pages es - ext_pages (pa, 1)" "nfree (km m) = nfree k + 1" by auto
  have e: "ext_pages (pa, 1) = {pa div PGSIZE}" by (auto simp: ext_pages_def)
  have "phys_alloc reclaim (km m) 1 = Some (Inr (pa, k))" using a(1) nf by (simp add: phys_alloc_def)
  moreover have "4096 dvd pa" using a(3) by (simp add: extent_ok_def PGSIZE_def)
  ultimately show ?thesis using a(2,4,5,6) free_pages_eq[OF inv] free_pages_eq[OF a(2)] e
    by (intro exI[of _ pa] exI[of _ k] exI[of _ es']) (simp add: page_alloc_def Let_def)
qed


definition fresh_page :: "mm \<Rightarrow> nat list \<Rightarrow> nat \<Rightarrow> mm \<Rightarrow> bool" where
  "fresh_page m live p m' \<longleftrightarrow> mm_ok m' live \<and> areas m' = areas m \<and> next_area m' = next_area m \<and> 0 < p \<and> p < next_page m' \<and>
     refs m live p = 0 \<and> frames m' (frame_of m' p) = replicate PGSIZE 0 \<and> frame_of m' p div PGSIZE \<notin> free_pages (km m') \<and>
     (\<forall>q. 0 < q \<and> 0 < refs m live q \<longrightarrow> pages_of m' q = pages_of m q \<and> frame_of m' q \<noteq> frame_of m' p \<and>
        frames m' (frame_of m q) = frames m (frame_of m q)) \<and>
     (\<exists>es. phys_inv (km m') es) \<and> nfree (km m) = nfree (km m') + 1"

lemma refs_areas: "areas m' = areas m \<Longrightarrow> refs m' live p = refs m live p"
  by (simp add: refs_def)

lemma page_alloc_fresh:
  assumes ok: "mm_ok m live" and inv: "phys_inv (km m) es" and nf: "32 \<le> nfree (km m)"
  shows "\<exists>m'. page_alloc reclaim m = Inr (next_page m, m') \<and> fresh_page m live (next_page m) m'"
proof -
  let ?p = "next_page m"
  note M = mm_ok_parts[OF ok]
  obtain pa k es' where a: "page_alloc reclaim m = Inr (?p, m\<lparr>km := k, frames := (frames m)(pa := replicate PGSIZE 0),
      pages_of := (pages_of m)(?p := fset PG_OWNED ((set_pa pa new_page)\<lparr>m_users := 0\<rparr>)), next_page := ?p + 1\<rparr>)"
    (is "_ = Inr (_, ?m)") "phys_inv k es'" "nfree (km m) = nfree k + 1" "4096 dvd pa" "pa div PGSIZE \<in> free_pages (km m)"
    "free_pages k = free_pages (km m) - {pa div PGSIZE}" using page_alloc_ok[OF inv nf, of reclaim] by blast
  have new: "frame_of ?m ?p = pa" using fresh_page_pa a(4) by (auto simp: frame_of_def)
  have old: "pages_of ?m q = pages_of m q" "frame_of ?m q = frame_of m q" if "q \<noteq> ?p" for q using that by (auto simp: frame_of_def)
  have refs0: "refs m live q = 0" if "?p \<le> q" for q using refs_pos[of m live q] M(5)[of _ q] that by auto
  have R: "refs ?m live q = refs m live q" for q by (rule refs_areas) simp
  have ne: "frame_of m q \<noteq> pa" if "0 < q" "0 < refs m live q" for q using M(8)[OF that] a(5) by auto
  have held: "q \<noteq> ?p" if "0 < refs m live q" for q using refs0[of q] that by auto
  have "mm_ok ?m live"
  proof (rule mm_okI)
    show "m_users (pages_of ?m p) = refs ?m live p" if "0 < p" "p < next_page ?m" for p
    proof (cases "p = ?p")
      case True
      then show ?thesis using refs0[of p] unfolding R by (simp add: fset_def)
    next
      case False
      then show ?thesis using M(6)[OF that(1)] that(2) unfolding R by simp
    qed
    show "p = q" if "0 < p" "0 < q" "0 < refs ?m live p" "0 < refs ?m live q" "frame_of ?m p = frame_of ?m q" for p q
    proof -
      have rp: "0 < refs m live p" "0 < refs m live q" using that(3,4) unfolding R .
      show ?thesis using M(7)[OF that(1,2) rp] that(5) unfolding old(2)[OF held[OF rp(1)]] old(2)[OF held[OF rp(2)]] by blast
    qed
    show "frame_of ?m p div PGSIZE \<notin> free_pages (km ?m)" if "0 < p" "0 < refs ?m live p" for p
    proof -
      have rp: "0 < refs m live p" using that(2) unfolding R .
      then show ?thesis using M(8)[OF that(1) rp] a(6) unfolding old(2)[OF held[OF rp]] by simp
    qed
    show "p < next_page ?m" if "b \<in> set live" "p \<in> set (a_mappings (areas ?m b))" for b p using M(5)[of b p] that by simp
  qed (use M(1-4) in simp_all)
  moreover have "pages_of ?m q = pages_of m q \<and> frame_of ?m q \<noteq> frame_of ?m ?p \<and>
      frames ?m (frame_of m q) = frames m (frame_of m q)" if q: "0 < q" "0 < refs m live q" for q
    using old[OF held[OF q(2)]] ne[OF q] unfolding new by simp
  moreover have "frames ?m (frame_of ?m ?p) = replicate PGSIZE 0" "frame_of ?m ?p div PGSIZE \<notin> free_pages (km ?m)"
    unfolding new using a(6) by simp_all
  ultimately have "fresh_page m live ?p ?m" unfolding fresh_page_def
    using M(2) refs0[of ?p] a(2,3) by (intro conjI) (simp_all, blast+)
  then show ?thesis using a(1) by blast
qed


lemma fresh_page_parts:
  assumes "fresh_page m live p m'"
  shows "mm_ok m' live" "areas m' = areas m" "next_area m' = next_area m" "0 < p" "p < next_page m'" "refs m live p = 0"
    "frame_of m' p div PGSIZE \<notin> free_pages (km m')" "0 < q \<Longrightarrow> 0 < refs m live q \<Longrightarrow> pages_of m' q = pages_of m q"
    "0 < q \<Longrightarrow> 0 < refs m live q \<Longrightarrow> frame_of m' q \<noteq> frame_of m' p"
    "0 < q \<Longrightarrow> 0 < refs m live q \<Longrightarrow> frames m' (frame_of m q) = frames m (frame_of m q)"
    "frames m' (frame_of m' p) = replicate PGSIZE 0"
  using assms unfolding fresh_page_def by blast+

definition with_contents :: "nat \<Rightarrow> byte list \<Rightarrow> mm \<Rightarrow> mm" where
  "with_contents p c m = m\<lparr>frames := (frames m)(frame_of m p := c)\<rparr>"

lemma with_contents_fields [simp]:
  "frames (with_contents p c m) = (frames m)(frame_of m p := c)" "areas (with_contents p c m) = areas m" "km (with_contents p c m) = km m" "next_page (with_contents p c m) = next_page m"
  "next_area (with_contents p c m) = next_area m" "pages_of (with_contents p c m) = pages_of m"
  "frame_of (with_contents p c m) q = frame_of m q" "refs (with_contents p c m) live q = refs m live q"
  by (simp_all add: with_contents_def frame_of_def refs_def)

lemma mm_ok_contents [simp]: "mm_ok (with_contents p c m) live = mm_ok m live"
  by (simp add: mm_ok_def)

lemma view_held:
  assumes "a \<in> set live" and "i < length (a_mappings (areas m a))" and "a_mappings (areas m a) ! i \<noteq> 0"
  shows "0 < refs m live (a_mappings (areas m a) ! i)"
  using assms refs_pos[of m live] nth_mem by blast

text \<open>A fresh page with contents \<open>c\<close>, stored at page \<open>i\<close> of the area \<open>a\<close>, changes nothing else.\<close>

lemma fresh_mapped:
  assumes ok: "mm_ok m live" and f: "fresh_page m live p m1" and a: "a \<in> set live" "i < length (a_mappings (areas m a))"
    and m': "m' = set_mapping a i p (with_contents p c m1)"
  shows "mm_ok m' live" and "refs m' live p = 1" and "view m' a i = c"
    and "\<And>b j. b \<in> set live \<Longrightarrow> j < length (a_mappings (areas m b)) \<Longrightarrow> (b, j) \<noteq> (a, i) \<Longrightarrow> view m' b j = view m b j"
    and "\<And>b. a_va (areas m' b) = a_va (areas m b)"
proof -
  let ?m2 = "with_contents p c m1"
  note F = fresh_page_parts[OF f]
  have ok2: "mm_ok ?m2 live" using F(1) by simp
  have R: "refs ?m2 live q = refs m live q" for q using refs_areas[OF F(2)] by simp
  have a2: "i < length (a_mappings (areas ?m2 a))" using a(2) F(2) by simp
  have "\<forall>q. 0 < q \<and> 0 < refs ?m2 live q \<longrightarrow> frame_of ?m2 q \<noteq> frame_of ?m2 p" using F(9) R by simp
  then show "mm_ok m' live" unfolding m' using F(4,5,7) by (intro mm_ok_set_mapping[OF ok2 a(1) a2]) simp_all
  have "refs m' live p + (if a_mappings (areas m a) ! i = p then 1 else 0) = refs m live p + 1"
    using refs_update[OF mm_ok_parts(1)[OF ok2] a(1) a2, where m' = m' and y = p and p = p] F(2) R unfolding m' by simp
  moreover have "a_mappings (areas m a) ! i \<noteq> p" using F(4,6) view_held[OF a] by (metis less_numeral_extra(3))
  ultimately show "refs m' live p = 1" using F(6) by simp
  show "view m' a i = c" using F(2,4) a(2) by (simp add: m' view_def Let_def)
  show "view m' b j = view m b j" if b: "b \<in> set live" "j < length (a_mappings (areas m b))" "(b, j) \<noteq> (a, i)" for b j
  proof -
    let ?q = "a_mappings (areas m b) ! j"
    have "a_mappings (areas m' b) ! j = ?q" using b(3) F(2) by (auto simp: m' nth_list_update)
    moreover have "frames m' (frame_of m' ?q) = frames m (frame_of m ?q)" if "?q \<noteq> 0"
    proof -
      have q: "0 < ?q" "0 < refs m live ?q" using view_held[OF b(1,2)] that by auto
      have "frame_of m1 ?q = frame_of m ?q" using F(8)[OF q] by (simp add: frame_of_def)
      then show ?thesis using F(9)[OF q] F(10)[OF q] by (simp add: m')
    qed
    ultimately show ?thesis by (simp add: view_def Let_def)
  qed
  show "a_va (areas m' b) = a_va (areas m b)" for b using F(2) by (simp add: m')
qed


section \<open>Write faults\<close>

lemma populate_anon:
  assumes ok: "mm_ok m live" and inv: "phys_inv (km m) es" "32 \<le> nfree (km m)" and a: "a \<in> set live" "i < length (a_mappings (areas m a))"
    and e: "a_mappings (areas m a) ! i = 0" "a_obj (areas m a) = 0"
  shows "\<exists>m1 p' m'. populate gs reclaim m a i p = Inr (m', p') \<and> fresh_page m live (next_page m) m1 \<and>
    m' = set_mapping a i (next_page m) m1 \<and> pte_prot p' = pte_prot p"
proof -
  obtain m1 where m1: "page_alloc reclaim m = Inr (next_page m, m1)" "fresh_page m live (next_page m) m1"
    using page_alloc_fresh[OF ok inv] by blast
  then show ?thesis using e by (auto simp: populate_def Let_def)
qed


text \<open>
  What a write fault at page \<open>i\<close> of the area \<open>a\<close> does: the page becomes the area's own, and no
  area's contents change.
\<close>

definition owned_write :: "mm \<Rightarrow> nat list \<Rightarrow> nat \<Rightarrow> nat \<Rightarrow> mm \<Rightarrow> bool" where
  "owned_write m live a i m' \<longleftrightarrow> mm_ok m' live \<and> a_mappings (areas m' a) ! i \<noteq> 0 \<and> refs m' live (a_mappings (areas m' a) ! i) = 1 \<and>
     (\<forall>b \<in> set live. \<forall>j < length (a_mappings (areas m b)). view m' b j = view m b j) \<and>
     (\<exists>p. areas m' = (areas m)(a := (areas m a)\<lparr>a_mappings := (a_mappings (areas m a))[i := p]\<rparr>)) \<and> next_area m' = next_area m"

lemma fresh_owned:
  assumes ok: "mm_ok m live" and f: "fresh_page m live p m1" and a: "a \<in> set live" "i < length (a_mappings (areas m a))"
    and m': "m' = set_mapping a i p (with_contents p (view m a i) m1)"
  shows "owned_write m live a i m'"
proof -
  note F = fresh_page_parts[OF f] and W = fresh_mapped[OF ok f a m']
  have "areas m' = (areas m)(a := (areas m a)\<lparr>a_mappings := (a_mappings (areas m a))[i := p]\<rparr>)" using F(2) by (simp add: m')
  moreover have "a_mappings (areas m' a) ! i = p" using a(2) F(2) by (simp add: m')
  moreover have "view m' b j = view m b j" if "b \<in> set live" "j < length (a_mappings (areas m b))" for b j
    using W(3) W(4)[OF that] by (cases "(b, j) = (a, i)") auto
  moreover have "next_area m' = next_area m" using F(3) by (simp add: m')
  ultimately show ?thesis unfolding owned_write_def using W(1,2) F(4) by blast
qed

lemma cow_kept:
  assumes "m_users (pages_of m (a_mappings (areas m a) ! i)) \<le> 1" and "a_fd (areas m a) = 0" and "\<not> bit (a_flags (areas m a)) MAP_SHARED"
  shows "cow reclaim m a i = Inr m"
  using assms by (simp add: cow_def Let_def)

lemma cow_copied:
  assumes ok: "mm_ok m live" and inv: "phys_inv (km m) es" "32 \<le> nfree (km m)" and a: "a \<in> set live" "i < length (a_mappings (areas m a))"
    and p: "a_mappings (areas m a) ! i \<noteq> 0" "m_users (pages_of m (a_mappings (areas m a) ! i)) > 1"
    and fl: "\<not> bit (a_flags (areas m a)) MAP_SHARED" "bit (a_flags (areas m a)) MAP_PRIVATE"
  shows "\<exists>m'. cow reclaim m a i = Inr m' \<and> owned_write m live a i m'"
proof -
  let ?old = "a_mappings (areas m a) ! i"
  obtain m1 where m1: "page_alloc reclaim m = Inr (next_page m, m1)" and f: "fresh_page m live (next_page m) m1"
    using page_alloc_fresh[OF ok inv] by blast
  note F = fresh_page_parts[OF f]
  have h: "0 < ?old" "0 < refs m live ?old" using p(1) view_held[OF a] by auto
  have "frames m1 (pg_pa (pages_of m1 ?old)) = view m a i"
    using F(8)[OF h] F(10)[OF h] p(1) by (simp add: view_def Let_def frame_of_def)
  then have "cow reclaim m a i = Inr (set_mapping a i (next_page m) (with_contents (next_page m) (view m a i) m1))"
    using fl p(2) m1 by (simp add: cow_def Let_def with_contents_def frame_of_def)
  then show ?thesis using fresh_owned[OF ok f a refl] by blast
qed

lemma write_fault_page:
  assumes ok: "mm_ok m live" and inv: "phys_inv (km m) es" "32 \<le> nfree (km m)" and a: "a \<in> set live" "i < length (a_mappings (areas m a))"
    and anon: "a_obj (areas m a) = 0" "a_fd (areas m a) = 0"
    and fl: "\<not> bit (a_flags (areas m a)) MAP_SHARED" "bit (a_flags (areas m a)) MAP_PRIVATE"
  shows "\<exists>m0 p0 m'. populate gs reclaim m a i p = Inr (m0, p0) \<and> pte_prot p0 = pte_prot p \<and> cow reclaim m0 a i = Inr m' \<and>
    a_prot (areas m0 a) = a_prot (areas m a) \<and> owned_write m live a i m'"
proof (cases "a_mappings (areas m a) ! i = 0")
  case True
  obtain m1 p0 m0 where m0: "populate gs reclaim m a i p = Inr (m0, p0)" "pte_prot p0 = pte_prot p"
    "m0 = set_mapping a i (next_page m) m1" and f: "fresh_page m live (next_page m) m1"
    using populate_anon[OF ok inv a True anon(1)] by metis
  note F = fresh_page_parts[OF f]
  have "with_contents (next_page m) (view m a i) m1 = m1"
    using F(11) True by (simp add: with_contents_def view_def fun_upd_idem)
  then have ow: "owned_write m live a i m0" using fresh_owned[OF ok f a] m0(3) by simp
  have pg: "a_mappings (areas m0 a) ! i = next_page m" using a(2) F(2) by (simp add: m0(3))
  have "m_users (pages_of m0 (next_page m)) = 1"
    using mm_ok_parts(6)[of m0 live "next_page m"] ow pg F(4,5) m0(3) by (simp add: owned_write_def)
  then have "cow reclaim m0 a i = Inr m0" using anon fl F(2) pg by (intro cow_kept) (simp_all add: m0(3))
  then show ?thesis using m0(1,2) ow F(2) by (auto simp: m0(3))
next
  case False
  let ?p = "a_mappings (areas m a) ! i"
  have pop: "populate gs reclaim m a i p = Inr (m, p)" using False by (simp add: populate_def)
  have u: "m_users (pages_of m ?p) = refs m live ?p"
    using mm_ok_parts(5,6)[OF ok] a False nth_mem by blast
  show ?thesis
  proof (cases "refs m live ?p \<le> 1")
    case True
    have "0 < refs m live ?p" by (rule view_held[OF a False])
    then have "owned_write m live a i m" using True ok False a
      by (auto simp: owned_write_def intro!: exI[of _ ?p])
    moreover have "cow reclaim m a i = Inr m" using True u anon fl by (intro cow_kept) simp_all
    ultimately show ?thesis using pop by blast
  next
    case ge: False
    then show ?thesis using cow_copied[OF ok inv a False _ fl] u pop by fastforce
  qed
qed

lemma page_index:
  assumes "area_ok r" and "contains r va"
  shows "sub64 (va div 4096) (a_va r div 4096) = va div 4096 - a_va r div 4096"
    and "va div 4096 - a_va r div 4096 < length (a_mappings r)"
    and "add64 (a_va r) ((va div 4096 - a_va r div 4096) * 4096) div PGSIZE = va div 4096"
proof -
  obtain k where k: "a_va r = 4096 * k" using assms(1) by (auto simp: area_ok_def elim!: dvdE)
  have len: "a_len r = 4096 * length (a_mappings r)" "a_va r + a_len r < 2 ^ 63" using assms(1) by (auto simp: area_ok_def)
  have c: "4096 * k \<le> va" "va < 4096 * (k + length (a_mappings r))" "va < 2 ^ 63"
    using assms(2) k len by (auto simp: contains_def)
  have d: "k \<le> va div 4096" "va div 4096 < k + length (a_mappings r)"
    using less_eq_div_iff_mult_less_eq[of 4096 k va] div_less_iff_less_mult[of 4096 va "k + length (a_mappings r)"] c
    by (simp_all add: mult.commute)
  have ka: "a_va r div 4096 = k" using k by simp
  show "sub64 (va div 4096) (a_va r div 4096) = va div 4096 - a_va r div 4096"
    using d(1) c(3) ka by (intro sub64_exact) auto
  show "va div 4096 - a_va r div 4096 < length (a_mappings r)" using d ka by simp
  have "add64 (a_va r) ((va div 4096 - k) * 4096) = 4096 * (va div 4096)"
    using d k c(3) by (subst add64_exact) auto
  then show "add64 (a_va r) ((va div 4096 - a_va r div 4096) * 4096) div PGSIZE = va div 4096" using ka by (simp add: PGSIZE_def)
qed

lemma owned_space:
  assumes "space_ok m sp ns" and "owned_write m live a i m'" 
  shows "space_ok m' (sp\<lparr>sp_pt := pt\<rparr>) ns"
proof -
  obtain p where ar: "areas m' = (areas m)(a := (areas m a)\<lparr>a_mappings := (a_mappings (areas m a))[i := p]\<rparr>)"
    and na: "next_area m' = next_area m" using assms(2) by (auto simp: owned_write_def)
  have "before (areas m' x) (areas m' y) = before (areas m x) (areas m y)" "area_ok (areas m' x) = area_ok (areas m x)" for x y
    unfolding ar by (auto simp: before_def area_ok_def)
  then show ?thesis using assms(1) na by (simp add: space_ok_def)
qed

lemma write_fault:
  assumes ok: "mm_ok m live" "space_ok m sp ns" "set ns \<subseteq> set live" and inv: "phys_inv (km m) es" "32 \<le> nfree (km m)"
    and a: "a \<in> set ns" "contains (areas m a) va" and anon: "a_obj (areas m a) = 0" "a_fd (areas m a) = 0"
    and fl: "\<not> bit (a_flags (areas m a)) MAP_SHARED" "bit (a_flags (areas m a)) MAP_PRIVATE"
    and wr: "bit err FAULT_WRITE" "\<not> bit err FAULT_EXEC" "bit (a_prot (areas m a)) VPROT_WRITE" "bit (a_prot (areas m a)) VPROT_READ"
  shows "\<exists>m' sp' e. pagefault gs reclaim m sp va err = Inr (0, m', sp') \<and>
    owned_write m live a (va div 4096 - a_va (areas m a) div 4096) m' \<and> space_ok m' sp' ns \<and>
    sp_pt sp' = (sp_pt sp)(va div 4096 \<mapsto> e) \<and> bit (pte_prot e) VPROT_WRITE \<and>
    ppn e = frame_of m' (a_mappings (areas m' a) ! (va div 4096 - a_va (areas m a) div 4096)) div 4096"
proof -
  let ?i = "va div 4096 - a_va (areas m a) div 4096"
  let ?p = "\<lparr>ppn = 0, pte_prot = a_prot (areas m a), writethrough = False, nocache = False\<rparr>"
  have aok: "area_ok (areas m a)" using ok(2) a(1) by (simp add: space_ok_def)
  have lk: "lookup m sp va = Some a" by (rule lookup_area[OF ok(2) a])
  have a0: "a \<noteq> 0" using space_ok_nonzero[OF ok(2)] a(1) by metis
  note ind = page_index[OF aok a(2)]
  have al: "a \<in> set live" using ok(3) a(1) by blast
  from write_fault_page[OF ok(1) inv al ind(2) anon fl, where gs = gs and p = ?p and reclaim = reclaim]
  obtain m0 p0 m' where w: "populate gs reclaim m a ?i ?p = Inr (m0, p0)" "pte_prot p0 = pte_prot ?p" "cow reclaim m0 a ?i = Inr m'"
    "a_prot (areas m0 a) = a_prot (areas m a)" and ow: "owned_write m live a ?i m'" by metis
  let ?e = "p0\<lparr>pte_prot := set_bit VPROT_WRITE (pte_prot p0), ppn := frame_of m' (a_mappings (areas m' a) ! ?i) div 4096\<rparr>"
  let ?sp = "sp\<lparr>sp_pt := (sp_pt sp)(va div 4096 \<mapsto> ?e)\<rparr>"
  have va: "a_va (areas m' a) = a_va (areas m a)" and pg: "a_mappings (areas m' a) ! ?i \<noteq> 0" using ow by (auto simp: owned_write_def)
  have "get_page_internal gs reclaim m sp va a err True = Inr (a_mappings (areas m' a) ! ?i, m', ?sp)"
    using ind w wr va by (simp add: get_page_internal_def Let_def add_mapping_def frame_of_def)
  then have "pagefault gs reclaim m sp va err = Inr (0, m', ?sp)"
    using lk a0 wr pg by (simp add: pagefault_def Let_def)
  moreover have "bit (pte_prot ?e) VPROT_WRITE" by (simp add: bit_simps VPROT_WRITE_def)
  ultimately show ?thesis using ow owned_space[OF ok(2) ow] by (intro exI[of _ m'] exI[of _ ?sp] exI[of _ ?e]) simp
qed

lemma fcheck_fset: "v \<noteq> 0 \<Longrightarrow> fcheck v (fset v p)"
proof -
  assume "v \<noteq> 0"
  moreover have "and (or (m_paf p) v) v = v" by (rule bit_eqI) (auto simp: bit_simps)
  ultimately show ?thesis by (simp add: fcheck_def fset_def)
qed

lemma fcheck_fclr: "\<not> fcheck v (fclr v p)"
proof -
  let ?x = "int (m_paf p)" and ?v = "int v"
  have "int (m_paf p - and (m_paf p) v) = ?x - and ?x ?v"
    using and_le_nat[of "m_paf p" v] by (simp add: of_nat_diff of_nat_and_eq)
  also have "\<dots> = and ?x (not (and ?x ?v))" by (rule disjunctive_diff) (auto simp: bit_simps)
  finally have "int (and (m_paf p - and (m_paf p) v) v) = and (and ?x (not (and ?x ?v))) ?v" by (simp add: of_nat_and_eq)
  also have "\<dots> = 0" by (rule bit_eqI) (auto simp: bit_simps)
  finally show ?thesis by (simp add: fcheck_def fclr_def)
qed

lemma sum_two_le: "distinct xs \<Longrightarrow> a \<in> set xs \<Longrightarrow> b \<in> set xs \<Longrightarrow> a \<noteq> b \<Longrightarrow> f a + f b \<le> (\<Sum>x\<leftarrow>xs. f x :: nat)"
proof -
  assume h: "distinct xs" "a \<in> set xs" "b \<in> set xs" "a \<noteq> b"
  then have "f a + f b = (\<Sum>x\<in>{a, b}. f x)" by simp
  also have "\<dots> \<le> (\<Sum>x\<in>set xs. f x)" using h by (intro sum_mono2) auto
  finally show ?thesis using h(1) by (simp add: sum_list_distinct_conv_sum_set)
qed

lemma held_users: "mm_ok m live \<Longrightarrow> p \<noteq> 0 \<Longrightarrow> 0 < refs m live p \<Longrightarrow> m_users (pages_of m p) = refs m live p"
proof -
  assume h: "mm_ok m live" "p \<noteq> 0" "0 < refs m live p"
  then have "p < next_page m" using refs_pos[of m live p] mm_ok_parts(5)[OF h(1)] by blast
  then show ?thesis using mm_ok_parts(6)[OF h(1)] h(2) by blast
qed

text \<open>Writing to a page that one mapping holds shows in that mapping only.\<close>

lemma write_private:
  assumes ok: "mm_ok m live" and p: "refs m live p = 1" "p \<noteq> 0" and a: "a \<in> set live" "p \<in> set (a_mappings (areas m a))"
    and b: "b \<in> set live" "b \<noteq> a" "j < length (a_mappings (areas m b))"
  shows "view (with_contents p c m) b j = view m b j"
proof (cases "a_mappings (areas m b) ! j = 0")
  case False
  let ?q = "a_mappings (areas m b) ! j"
  have q: "0 < refs m live ?q" by (rule view_held[OF b(1,3) False])
  have "?q \<noteq> p"
  proof
    assume eq: "?q = p"
    have "0 < count_list (a_mappings (areas m a)) p" "0 < count_list (a_mappings (areas m b)) p"
      using a(2) nth_mem[OF b(3)] unfolding eq neq0_conv[symmetric] count_list_0_iff by blast+
    moreover have "count_list (a_mappings (areas m a)) p + count_list (a_mappings (areas m b)) p \<le> refs m live p"
      unfolding refs_def by (rule sum_two_le[OF mm_ok_parts(1)[OF ok] a(1) b(1)]) (use b(2) in simp)
    ultimately show False using p(1) by linarith
  qed
  then have "frame_of m ?q \<noteq> frame_of m p" using mm_ok_parts(7)[OF ok _ _ q, of p] p False by (metis neq0_conv zero_less_one)
  then show ?thesis by (simp add: view_def Let_def)
qed (simp add: view_def)

section \<open>Properties\<close>

text \<open>
  The packed word of a \<^verbatim>\<open>struct page\<close>: storing a physical address reads back page aligned and keeps the flags,
  and setting or clearing a flag keeps the address and changes what the test for that flag returns.
\<close>

theorem page_word_packing:
  assumes "0 < v" and "v < 4096"
  shows "pg_pa (set_pa pa p) = 4096 * (pa div 4096) \<and> pg_flags (set_pa pa p) = pg_flags p \<and>
    pg_pa (fset v p) = pg_pa p \<and> pg_pa (fclr v p) = pg_pa p \<and> fcheck v (fset v p) \<and> \<not> fcheck v (fclr v p)"
  using assms pg_pa_set_pa pg_flags_set_pa pg_pa_fset pg_pa_fclr fcheck_fset fcheck_fclr by simp

theorem page_word_packing_witness: "pg_pa (set_pa 0x5000 new_page) = 0x5000 \<and> fcheck PG_DIRTY (fset PG_DIRTY new_page)"
  using page_word_packing[of PG_DIRTY "0x5000" new_page] by (simp add: PG_DIRTY_def)

text \<open>
  C6: a write fault in a private anonymous area that permits writing, with a page left to allocate: the fault is handled,
  the faulting page of the area is held by no other mapping, the page table maps it writable,
  no page of any area shows other contents than before, and the user counts of all pages
  remain the numbers of mappings that hold them. This covers a page that was never touched,
  one that is already the area's own, and copy on write.
\<close>

theorem write_fault_isolates:
  assumes "mm_ok m live" and "space_ok m sp ns" and "set ns \<subseteq> set live" and "phys_inv (km m) es" and "32 \<le> nfree (km m)"
    and "a \<in> set ns" and "contains (areas m a) va" and "a_obj (areas m a) = 0" and "a_fd (areas m a) = 0"
    and "\<not> bit (a_flags (areas m a)) MAP_SHARED" and "bit (a_flags (areas m a)) MAP_PRIVATE"
    and "bit err FAULT_WRITE" and "\<not> bit err FAULT_EXEC" and "bit (a_prot (areas m a)) VPROT_WRITE" and "bit (a_prot (areas m a)) VPROT_READ"
  shows "\<exists>m' sp' p e. pagefault gs reclaim m sp va err = Inr (0, m', sp') \<and> mm_ok m' live \<and> space_ok m' sp' ns \<and>
    a_mappings (areas m' a) ! (va div 4096 - a_va (areas m a) div 4096) = p \<and> p \<noteq> 0 \<and> refs m' live p = 1 \<and> m_users (pages_of m' p) = 1 \<and>
    (\<forall>b \<in> set live. \<forall>j < length (a_mappings (areas m b)). view m' b j = view m b j) \<and>
    sp_pt sp' = (sp_pt sp)(va div 4096 \<mapsto> e) \<and> bit (pte_prot e) VPROT_WRITE \<and> ppn e = frame_of m' p div 4096"
proof -
  let ?i = "va div 4096 - a_va (areas m a) div 4096"
  obtain m' sp' e where r: "pagefault gs reclaim m sp va err = Inr (0, m', sp')" "owned_write m live a ?i m'" "space_ok m' sp' ns"
    "sp_pt sp' = (sp_pt sp)(va div 4096 \<mapsto> e)" "bit (pte_prot e) VPROT_WRITE" "ppn e = frame_of m' (a_mappings (areas m' a) ! ?i) div 4096"
    using write_fault[OF assms(1-15)] by blast
  have ow: "mm_ok m' live" "a_mappings (areas m' a) ! ?i \<noteq> 0" "refs m' live (a_mappings (areas m' a) ! ?i) = 1"
    "\<forall>b \<in> set live. \<forall>j < length (a_mappings (areas m b)). view m' b j = view m b j" using r(2) by (simp_all add: owned_write_def)
  have "m_users (pages_of m' (a_mappings (areas m' a) ! ?i)) = 1"
    using held_users[OF ow(1,2)] ow(3) by simp
  then show ?thesis using r ow by blast
qed


lemma demo_mm_ok:
  assumes "space_ok m sp [64]" "areas m 64 = mapped_area ''a'' 0x4000 2 3 2 0 0 0" "km m = demo_kmem"
    "pages_of m = (\<lambda>_. new_page)" "next_page m = 1" "next_area m = 128"
  shows "mm_ok m [64]"
proof -
  have "refs m [64] p = 0" if "0 < p" for p using that assms(2) by (simp add: refs_def mapped_area_def count_list_0_iff)
  then show ?thesis using assms by (intro mm_okI) (auto simp: mapped_area_def)
qed

lemma demo_kmem_free: "32 \<le> nfree demo_kmem"
  using demo_kmem_inv by (simp add: phys_inv_def)

theorem write_fault_isolates_witness:
  "\<exists>m sp m' sp'. pagefault (\<lambda>_ _ m. Inr (0, m)) (\<lambda>k. k) m sp 0x5008 2 = Inr (0, m', sp') \<and> mm_ok m' [64] \<and> sp_pt sp' 5 \<noteq> None"
proof -
  obtain m sp where d: "space_ok m sp [64]" "areas m 64 = mapped_area ''a'' 0x4000 2 3 2 0 0 0" "km m = demo_kmem"
    "pages_of m = (\<lambda>_. new_page)" "next_page m = 1" "next_area m = 128" using demo_mapped by blast
  have "phys_inv (km m) [(0x100000, 256)]" "32 \<le> nfree (km m)" using demo_kmem_inv demo_kmem_free d(3) by simp_all
  from write_fault_isolates[where gs = "\<lambda>_ _ m. Inr (0, m)" and reclaim = "\<lambda>k. k" and a = 64 and va = "0x5008" and err = 2,
      OF demo_mm_ok[OF d] d(1) _ this]
  show ?thesis using d(2)
    by (fastforce simp: mapped_area_def contains_def MAP_SHARED_def MAP_PRIVATE_def FAULT_WRITE_def FAULT_EXEC_def
        VPROT_WRITE_def VPROT_READ_def bit_simps)
qed

text \<open>
  A fault that the area does not permit is not reported: \<^verbatim>\<open>pagefault\<close> computes the violation but returns 0,
  the value for a handled fault, having changed nothing.
\<close>

theorem pagefault_violation_ignored:
  assumes "space_ok m sp ns" and "a \<in> set ns" and "contains (areas m a) va"
    and "bit err FAULT_WRITE \<and> \<not> bit (a_prot (areas m a)) VPROT_WRITE \<or> bit err FAULT_READ \<and> \<not> bit (a_prot (areas m a)) VPROT_READ \<or>
      bit err FAULT_EXEC \<and> \<not> bit (a_prot (areas m a)) VPROT_EXEC"
  shows "pagefault gs reclaim m sp va err = Inr (0, m, sp)"
proof -
  have "lookup m sp va = Some a" by (rule lookup_area[OF assms(1-3)])
  moreover have "a \<noteq> 0" using space_ok_nonzero[OF assms(1)] assms(2) by metis
  ultimately show ?thesis using assms(4) by (auto simp: pagefault_def Let_def)
qed

theorem pagefault_violation_ignored_witness:
  "\<exists>m sp. pagefault (\<lambda>_ _ m. Inr (0, m)) (\<lambda>k. k) m sp 0x4000 4 = Inr (0, m, sp) \<and> sp_pt sp 4 = None"
proof -
  obtain m sp where d: "space_ok m sp [64]" "areas m 64 = mapped_area ''a'' 0x4000 2 3 2 0 0 0" "sp_pt sp = (\<lambda>_. None)"
    using demo_mapped by blast
  then show ?thesis using pagefault_violation_ignored[where gs = "\<lambda>_ _ m. Inr (0, m)" and reclaim = "\<lambda>k. k" and err = 4, OF d(1), of 64 "0x4000"]
    by (fastforce simp: mapped_area_def contains_def FAULT_EXEC_def VPROT_EXEC_def bit_simps)
qed

end
