(* ===== verification/Mm_Fork.thy ===== *)
theory Mm_Fork
  imports Mm_Fault
begin

text \<open>
  \<^verbatim>\<open>space::fork\<close>: an invariant of its loop over the areas of the parent (\<open>forked\<close>), and what the
  fork and the copy on write of the theory \<open>Mm_Fault\<close> give together.
\<close>

section \<open>Fork\<close>


definition shared :: "nat list \<Rightarrow> mm \<Rightarrow> mm" where
  "shared ps m = foldl (\<lambda>m pg. set_page 0 pg m) m ps"

lemma shared_fields [simp]:
  "areas (shared ps m) = areas m" "frames (shared ps m) = frames m" "km (shared ps m) = km m"
  "next_page (shared ps m) = next_page m" "next_area (shared ps m) = next_area m"
  "m_paf (pages_of (shared ps m) p) = m_paf (pages_of m p)"
  unfolding shared_def by (induction ps arbitrary: m) (simp_all add: set_page_fields)

lemma frame_of_shared [simp]: "frame_of (shared ps m) p = frame_of m p"
  by (simp add: frame_of_def pg_pa_def)

lemma shared_users:
  "p \<noteq> 0 \<Longrightarrow> m_users (pages_of m p) + count_list ps p < 2 ^ 32 \<Longrightarrow>
    m_users (pages_of (shared ps m) p) = m_users (pages_of m p) + count_list ps p"
  unfolding shared_def
proof (induction ps arbitrary: m)
  case (Cons q ps)
  have u: "m_users (pages_of (set_page 0 q m) p) = m_users (pages_of m p) + (if q = p then 1 else 0)"
    using Cons.prems by (simp add: set_page_users Let_def mod_if split: if_splits)
  show ?case using Cons.IH[of "set_page 0 q m"] Cons.prems unfolding foldl_Cons u by (auto split: if_splits)
qed simp

text \<open>One more area with the pages of an existing one.\<close>

lemma mm_ok_copy:
  assumes ok: "mm_ok m live" and x: "x \<in> set live" and tot: "(\<Sum>a\<leftarrow>live. length (a_mappings (areas m a))) + length (a_mappings (areas m x)) < 2 ^ 32"
    and m': "areas m' = (areas m)(next_area m := areas m x)" "next_area m' = next_area m + 64" "next_page m' = next_page m"
      "pages_of m' = pages_of m" "km m' = km m"
  shows "mm_ok (shared (a_mappings (areas m x)) m') (live @ [next_area m])"
proof -
  let ?ps = "a_mappings (areas m x)" and ?L = "live @ [next_area m]"
  let ?m = "shared ?ps m'"
  note M = mm_ok_parts[OF ok]
  have ne: "a \<noteq> next_area m" if "a \<in> set live" for a using M(4)[OF that] by simp
  have same: "areas m' a = areas m a" if "a \<in> set live" for a using ne[OF that] m'(1) by simp
  have new: "a_mappings (areas m' (next_area m)) = ?ps" using m'(1) by simp
  have "refs m' live p = refs m live p" for p
    unfolding refs_def by (intro arg_cong[where f = sum_list] map_cong) (simp_all add: same)
  then have R: "refs ?m ?L p = refs m live p + count_list ?ps p" for p using new by (simp add: refs_def)
  have "(\<Sum>a\<leftarrow>live. length (a_mappings (areas m' a))) = (\<Sum>a\<leftarrow>live. length (a_mappings (areas m a)))"
    by (intro arg_cong[where f = sum_list] map_cong) (simp_all add: same)
  then have T: "(\<Sum>a\<leftarrow>?L. length (a_mappings (areas ?m a))) < 2 ^ 32" using tot new by simp
  have held: "0 < refs m live p" if "0 < refs ?m ?L p" for p
    using that x refs_pos[of m live p] unfolding R by (auto simp: count_list_0_iff)
  have fr: "frame_of ?m p = frame_of m p" for p unfolding frame_of_shared by (simp add: frame_of_def m'(4))
  show ?thesis
  proof (rule mm_okI)
    show "distinct ?L" using M(1) ne by auto
    show "0 < next_page ?m" using M(2) m'(3) by simp
    show "(\<Sum>a\<leftarrow>?L. length (a_mappings (areas ?m a))) < 2 ^ 32" by (rule T)
    show "a < next_area ?m" if "a \<in> set ?L" for a using that M(4)[of a] m'(2) by auto
    show "p < next_page ?m" if "a \<in> set ?L" "p \<in> set (a_mappings (areas ?m a))" for a p
      using that M(5)[of a p] M(5)[OF x, of p] ne m'(1,3) by (auto split: if_splits)
    show "m_users (pages_of ?m p) = refs ?m ?L p" if "0 < p" "p < next_page ?m" for p
    proof -
      have "m_users (pages_of m p) = refs m live p" using M(6)[of p] that m'(3) by simp
      moreover have "refs ?m ?L p < 2 ^ 32" using refs_total[of ?m ?L p] T by linarith
      ultimately show ?thesis using that(1) shared_users[of p m' ?ps] unfolding R m'(4) by simp
    qed
    show "p = q" if "0 < p" "0 < q" "0 < refs ?m ?L p" "0 < refs ?m ?L q" "frame_of ?m p = frame_of ?m q" for p q
      by (rule M(7)[OF that(1,2) held[OF that(3)] held[OF that(4)]]) (use that(5) in \<open>simp only: fr\<close>)
    show "frame_of ?m p div PGSIZE \<notin> free_pages (km ?m)" if "0 < p" "0 < refs ?m ?L p" for p
      using M(8)[OF that(1) held[OF that(2)]] m'(5) unfolding fr by simp
  qed
qed

section \<open>Page tables of a fork\<close>

definition covers :: "area \<Rightarrow> nat \<Rightarrow> nat \<Rightarrow> bool" where
  "covers r i v \<longleftrightarrow> i < length (a_mappings r) \<and> a_mappings r ! i \<noteq> 0 \<and> v = a_va r div 4096 + i"

text \<open>Every populated page of the areas \<open>rs\<close> is mapped read-only; all other entries are those of \<open>pt0\<close>.\<close>

definition protected :: "mm \<Rightarrow> area list \<Rightarrow> pagetable \<Rightarrow> pagetable \<Rightarrow> bool" where
  "protected m rs pt0 pt \<longleftrightarrow>
     (\<forall>r \<in> set rs. \<forall>i v. covers r i v \<longrightarrow> (\<exists>e. pt v = Some e \<and> ppn e = frame_of m (a_mappings r ! i) div 4096 \<and>
        pte_prot e = unset_bit VPROT_WRITE (a_prot r))) \<and>
     (\<forall>v. (\<forall>r \<in> set rs. \<forall>i. \<not> covers r i v) \<longrightarrow> pt v = pt0 v)"

lemma fork_pages:
  assumes "a_va r + 4096 * length (a_mappings r) < 2 ^ 64" and "k \<le> length (a_mappings r)"
    and "foldl (fork_page m r) (pt, npt) [0..<k] = (pt', npt')"
  shows "(\<forall>i v. covers r i v \<and> i < k \<longrightarrow> (\<exists>e. pt' v = Some e \<and> npt' v = Some e \<and>
      ppn e = frame_of m (a_mappings r ! i) div 4096 \<and> pte_prot e = unset_bit VPROT_WRITE (a_prot r))) \<and>
    (\<forall>v. (\<forall>i < k. \<not> covers r i v) \<longrightarrow> pt' v = pt v \<and> npt' v = npt v)"
  using assms(2,3)
proof (induction k arbitrary: pt' npt')
  case (Suc k)
  obtain q nq where q: "foldl (fork_page m r) (pt, npt) [0..<k] = (q, nq)" by (cases "foldl (fork_page m r) (pt, npt) [0..<k]")
  note IH = Suc.IH[OF Suc_leD[OF Suc.prems(1)] q]
  let ?e = "\<lparr>ppn = pg_pa (pages_of m (a_mappings r ! k)) div 4096, pte_prot = unset_bit VPROT_WRITE (a_prot r),
    writethrough = False, nocache = False\<rparr>"
  have va: "add64 (a_va r) (k * 4096) div PGSIZE = a_va r div 4096 + k"
    using assms(1) Suc.prems(1) by (subst add64_exact) (auto simp: PGSIZE_def)
  have "(pt', npt') = fork_page m r (q, nq) k" using Suc.prems(2) q by simp
  with va have "(pt', npt') = (if a_mappings r ! k \<noteq> 0 then (q(a_va r div 4096 + k \<mapsto> ?e), nq(a_va r div 4096 + k \<mapsto> ?e)) else (q, nq))"
    by (simp add: fork_page_def add_mapping_def Let_def)
  then show ?case using IH Suc.prems(1) by (auto simp: covers_def less_Suc_eq frame_of_def split: if_splits)
qed simp


lemma covers_contains: "area_ok r \<Longrightarrow> covers r i v \<Longrightarrow> contains r (4096 * v)"
  by (auto simp: area_ok_def covers_def contains_def elim!: dvdE)

lemma before_covers: "area_ok r \<Longrightarrow> area_ok r' \<Longrightarrow> before r r' \<Longrightarrow> covers r i v \<Longrightarrow> \<not> covers r' j v"
  using covers_contains[of r i v] covers_contains[of r' j v] by (auto simp: contains_def before_def)

lemma protected_step:
  assumes p: "protected m rs pt0 pt" and ok: "area_ok r" "\<forall>r' \<in> set rs. area_ok r' \<and> before r' r"
    and e: "\<And>i v. covers r i v \<Longrightarrow> \<exists>e. pt' v = Some e \<and> ppn e = frame_of m (a_mappings r ! i) div 4096 \<and>
      pte_prot e = unset_bit VPROT_WRITE (a_prot r)"
    and k: "\<And>v. \<forall>i. \<not> covers r i v \<Longrightarrow> pt' v = pt v"
  shows "protected m (rs @ [r]) pt0 pt'"
proof -
  have old: "pt' v = pt v" if "r' \<in> set rs" "covers r' i v" for r' i v
    using k[of v] before_covers[of r' r i v] ok that by blast
  have "\<exists>e. pt' v = Some e \<and> ppn e = frame_of m (a_mappings r' ! i) div 4096 \<and> pte_prot e = unset_bit VPROT_WRITE (a_prot r')"
    if "r' \<in> set (rs @ [r])" "covers r' i v" for r' i v
  proof (cases "r' \<in> set rs")
    case True
    then show ?thesis using p old[OF True that(2)] that(2) unfolding protected_def by metis
  next
    case False
    then show ?thesis using that e by auto
  qed
  moreover have "pt' v = pt0 v" if "\<forall>r' \<in> set (rs @ [r]). \<forall>i. \<not> covers r' i v" for v
  proof -
    have "pt' v = pt v" using that by (intro k) simp
    also have "\<dots> = pt0 v" using that p by (simp add: protected_def)
    finally show ?thesis .
  qed
  ultimately show ?thesis unfolding protected_def by blast
qed

lemma protected_mono: "(\<And>p. frame_of m' p = frame_of m p) \<Longrightarrow> protected m' rs pt0 pt = protected m rs pt0 pt"
  by (simp add: protected_def)

text \<open>The state of \<^verbatim>\<open>fork\<close> after the areas \<open>xs\<close> of the space were copied to \<open>cs\<close>.\<close>

definition forked :: "mm \<Rightarrow> space \<Rightarrow> nat list \<Rightarrow> nat list \<Rightarrow> nat list \<Rightarrow> mm \<times> space \<times> space \<Rightarrow> bool" where
  "forked m sp live xs cs = (\<lambda>(m1, sp1, n).
     mm_ok m1 (live @ cs) \<and> space_ok m1 n cs \<and> map (areas m1) cs = map (areas m) xs \<and>
     (\<forall>a < next_area m. areas m1 a = areas m a) \<and> next_area m \<le> next_area m1 \<and> rb_aligned (next_area m1) \<and>
     frames m1 = frames m \<and> (\<forall>p. frame_of m1 p = frame_of m p) \<and> km m1 = km m \<and>
     regions sp1 = regions sp \<and> sp_lo sp1 = sp_lo sp \<and> sp_hi sp1 = sp_hi sp \<and> is_kspace sp1 = is_kspace sp \<and>
     protected m (map (areas m) xs) (sp_pt sp) (sp_pt sp1) \<and> protected m (map (areas m) xs) (\<lambda>_. None) (sp_pt n))"


lemma space_ok_pt [simp]: "space_ok m (sp\<lparr>sp_pt := pt\<rparr>) ns = space_ok m sp ns"
  by (simp add: space_ok_def)

lemma before_asym: "before r r' \<Longrightarrow> \<not> before r' r"
  by (simp add: before_def)

lemma round_up_exact: "4096 * k + 4095 < 2 ^ 64 \<Longrightarrow> round_up (4096 * k) 4096 div 4096 = k"
  by (simp add: round_up_pages)

lemma append_area:
  assumes ok: "space_ok m sp cs" and r: "area_ok ar" and b: "\<forall>c \<in> set cs. before (areas m c) ar"
    and m': "areas m' = (areas m)(next_area m := ar)" "next_area m' = next_area m + 64"
  shows "\<exists>sp'. add_region m' (next_area m) sp = Some (True, sp') \<and> space_ok m' sp' (cs @ [next_area m]) \<and> sp_pt sp' = sp_pt sp"
proof -
  have "unused m cs (a_va ar) (a_len ar)" using b by (auto simp: unused_def before_def)
  from add_area_ok[OF ok r this m'] obtain sp' us vs where
    s: "add_region m' (next_area m) sp = Some (True, sp')" "cs = us @ vs" "space_ok m' sp' (us @ next_area m # vs)" "sp_pt sp' = sp_pt sp"
    by blast
  have "vs = []"
  proof (rule ccontr)
    assume "vs \<noteq> []"
    then obtain y where y: "y \<in> set vs" by (cases vs) auto
    have "y \<noteq> next_area m" using ok s(2) y by (auto simp: space_ok_def)
    moreover have "before (areas m' (next_area m)) (areas m' y)" using s(3) y by (simp add: space_ok_def sorted_wrt_append)
    ultimately show False using b before_asym[of "areas m y" ar] s(2) y m'(1) by simp
  qed
  then show ?thesis using s by auto
qed

lemma fork_region_step:
  assumes ok: "mm_ok m1 L" "space_ok m1 n cs" and x: "x \<in> set L" "x < next_area m1" "area_ok (areas m1 x)"
    and b: "\<forall>c \<in> set cs. before (areas m1 c) (areas m1 x)"
    and tot: "(\<Sum>a\<leftarrow>L. length (a_mappings (areas m1 a))) + length (a_mappings (areas m1 x)) < 2 ^ 32"
  shows "\<exists>m2 n2 pt. fork_region (m1, sp1, n) x = Some (m2, sp1\<lparr>sp_pt := pt\<rparr>, n2) \<and> mm_ok m2 (L @ [next_area m1]) \<and>
    space_ok m2 n2 (cs @ [next_area m1]) \<and> areas m2 = (areas m1)(next_area m1 := areas m1 x) \<and> next_area m2 = next_area m1 + 64 \<and>
    frames m2 = frames m1 \<and> (\<forall>p. frame_of m2 p = frame_of m1 p) \<and> km m2 = km m1 \<and>
    (\<forall>i v. covers (areas m1 x) i v \<longrightarrow> (\<exists>e. pt v = Some e \<and> sp_pt n2 v = Some e \<and>
      ppn e = frame_of m1 (a_mappings (areas m1 x) ! i) div 4096 \<and> pte_prot e = unset_bit VPROT_WRITE (a_prot (areas m1 x)))) \<and>
    (\<forall>v. (\<forall>i. \<not> covers (areas m1 x) i v) \<longrightarrow> pt v = sp_pt sp1 v \<and> sp_pt n2 v = sp_pt n v)"
proof -
  let ?r = "areas m1 x" and ?c = "next_area m1"
  let ?ma = "m1\<lparr>areas := (areas m1)(?c := ?r), next_area := ?c + 64\<rparr>"
  let ?mb = "if a_obj ?r \<noteq> 0 then ?ma\<lparr>owners := (owners ?ma)(a_obj ?r := owners ?ma (a_obj ?r) + 1)\<rparr> else ?ma"
  let ?m2 = "shared (a_mappings ?r) ?mb"
  have mb: "areas ?mb = (areas m1)(?c := ?r)" "next_area ?mb = ?c + 64" "next_page ?mb = next_page m1" "pages_of ?mb = pages_of m1"
    "km ?mb = km m1" "frames ?mb = frames m1" by simp_all
  have m2: "areas ?m2 = (areas m1)(?c := ?r)" "next_area ?m2 = ?c + 64" using mb by simp_all
  have fr: "frame_of ?m2 p = frame_of m1 p" for p unfolding frame_of_shared by (simp add: frame_of_def)
  have len: "a_len ?r = 4096 * length (a_mappings ?r)" "a_va ?r + a_len ?r < 2 ^ 63" using x(3) by (auto simp: area_ok_def)
  then have k: "round_up (a_len ?r) 4096 div 4096 = length (a_mappings ?r)" using round_up_exact[of "length (a_mappings ?r)"] by simp
  obtain pt npt where pt: "foldl (fork_page ?m2 ?r) (sp_pt sp1, sp_pt n) [0..<length (a_mappings ?r)] = (pt, npt)"
    by (cases "foldl (fork_page ?m2 ?r) (sp_pt sp1, sp_pt n) [0..<length (a_mappings ?r)]")
  have "a_va ?r + 4096 * length (a_mappings ?r) < 2 ^ 64" using len by simp
  note F = fork_pages[OF this le_refl pt]
  obtain n2 where n2: "add_region ?m2 ?c (n\<lparr>sp_pt := npt\<rparr>) = Some (True, n2)" "space_ok ?m2 n2 (cs @ [?c])" "sp_pt n2 = npt"
    using append_area[of m1 "n\<lparr>sp_pt := npt\<rparr>" cs ?r ?m2, OF _ x(3) b m2] ok(2) by auto
  have "fork_region (m1, sp1, n) x = Some (?m2, sp1\<lparr>sp_pt := pt\<rparr>, n2)"
    using n2(1) pt unfolding fork_region_def shared_def[symmetric] by (simp add: k Let_def)
  moreover have "covers ?r i v \<longrightarrow> i < length (a_mappings ?r)" for i v by (simp add: covers_def)
  ultimately show ?thesis using F n2(2,3) m2 mm_ok_copy[OF ok(1) x(1) tot mb(1-5)] mb(5,6) fr
    by (intro exI[of _ ?m2] exI[of _ n2] exI[of _ pt]) auto
qed


definition npages :: "mm \<Rightarrow> nat list \<Rightarrow> nat" where
  "npages m live = (\<Sum>a\<leftarrow>live. length (a_mappings (areas m a)))"

lemma npages_append [simp]: "npages m (xs @ ys) = npages m xs + npages m ys"
  by (simp add: npages_def)

lemma npages_same: "map (areas m') xs = map (areas m) ys \<Longrightarrow> npages m' xs = npages m ys"
proof -
  assume "map (areas m') xs = map (areas m) ys"
  then have "map (length \<circ> a_mappings) (map (areas m') xs) = map (length \<circ> a_mappings) (map (areas m) ys)" by simp
  then show ?thesis by (simp add: npages_def comp_def)
qed

lemma forked_step:
  assumes ok: "mm_ok m live" "space_ok m sp ns" "set ns \<subseteq> set live" and ns: "ns = xs @ x # ys"
    and f: "forked m sp live xs cs st" and tot: "npages m live + npages m ns < 2 ^ 32"
  shows "\<exists>st' c. fork_region st x = Some st' \<and> forked m sp live (xs @ [x]) (cs @ [c]) st'"
proof -
  obtain m1 sp1 n where st: "st = (m1, sp1, n)" by (cases st)
  note F = f[unfolded forked_def st, simplified]
  have lt: "a < next_area m" if "a \<in> set live" for a using mm_ok_parts(4)[OF ok(1) that] .
  have same: "areas m1 a = areas m a" if "a \<in> set live" for a using F lt[OF that] by blast
  have xl: "x \<in> set live" using ok(3) ns by simp
  have aok: "area_ok (areas m a)" if "a \<in> set ns" for a using ok(2) that by (simp add: space_ok_def)
  have bx: "\<forall>a \<in> set xs. before (areas m a) (areas m x)" using ok(2) ns by (simp add: space_ok_def sorted_wrt_append)
  have cs: "areas m1 ` set cs = areas m ` set xs" using F by (metis list.set_map)
  have b: "\<forall>c \<in> set cs. before (areas m1 c) (areas m1 x)" 
  proof
    fix c assume "c \<in> set cs"
    then obtain a where "a \<in> set xs" "areas m1 c = areas m a" using cs by (metis imageE imageI)
    then show "before (areas m1 c) (areas m1 x)" using bx same[OF xl] by simp
  qed
  have "map (areas m1) live = map (areas m) live" using same by simp
  then have np: "npages m1 live = npages m live" "npages m1 cs = npages m xs" using F npages_same by blast+
  have "npages m1 (live @ cs) + length (a_mappings (areas m1 x)) < 2 ^ 32"
    using tot ns np same[OF xl] by (simp add: npages_def)
  then obtain m2 n2 pt where r: "fork_region (m1, sp1, n) x = Some (m2, sp1\<lparr>sp_pt := pt\<rparr>, n2)"
    "mm_ok m2 ((live @ cs) @ [next_area m1])" "space_ok m2 n2 (cs @ [next_area m1])"
    "areas m2 = (areas m1)(next_area m1 := areas m1 x)" "next_area m2 = next_area m1 + 64"
    "frames m2 = frames m1" "\<forall>p. frame_of m2 p = frame_of m1 p" "km m2 = km m1"
    "\<forall>i v. covers (areas m1 x) i v \<longrightarrow> (\<exists>e. pt v = Some e \<and> sp_pt n2 v = Some e \<and>
      ppn e = frame_of m1 (a_mappings (areas m1 x) ! i) div 4096 \<and> pte_prot e = unset_bit VPROT_WRITE (a_prot (areas m1 x)))"
    "\<forall>v. (\<forall>i. \<not> covers (areas m1 x) i v) \<longrightarrow> pt v = sp_pt sp1 v \<and> sp_pt n2 v = sp_pt n v"
    using fork_region_step[of m1 "live @ cs" n cs x sp1] F xl lt[OF xl] aok[of x] ns b same[OF xl]
    unfolding npages_def by auto
  have prot: "protected m (map (areas m) (xs @ [x])) (sp_pt sp) pt" "protected m (map (areas m) (xs @ [x])) (\<lambda>_. None) (sp_pt n2)"
    using protected_step[of m "map (areas m) xs" "sp_pt sp" "sp_pt sp1" "areas m x" pt]
      protected_step[of m "map (areas m) xs" "\<lambda>_. None" "sp_pt n" "areas m x" "sp_pt n2"]
      F aok ns bx r(9,10) same[OF xl] by (simp_all) metis+
  have fresh: "next_area m1 \<notin> set cs" using F by (auto simp: space_ok_def)
  then have "map (areas m2) (cs @ [next_area m1]) = map (areas m) (xs @ [x])" using F r(4) same[OF xl] by simp
  moreover have "rb_aligned (next_area m2)" using F r(5) by (auto simp: rb_aligned_def)
  ultimately have "forked m sp live (xs @ [x]) (cs @ [next_area m1]) (m2, sp1\<lparr>sp_pt := pt\<rparr>, n2)"
    unfolding forked_def using F r prot same[OF xl] by simp
  then show ?thesis using r(1) st by blast
qed

lemma fork_fold:
  assumes ok: "mm_ok m live" "space_ok m sp ns" "set ns \<subseteq> set live" and tot: "npages m live + npages m ns < 2 ^ 32"
  shows "ns = xs @ ys \<Longrightarrow> forked m sp live xs cs st \<Longrightarrow>
    \<exists>st' cs'. fold_opt fork_region st ys = Some st' \<and> forked m sp live ns cs' st'"
proof (induction ys arbitrary: xs cs st)
  case (Cons y ys)
  obtain st1 c where "fork_region st y = Some st1" "forked m sp live (xs @ [y]) (cs @ [c]) st1"
    using forked_step[OF ok Cons.prems tot] by blast
  then show ?case using Cons.IH[of "xs @ [y]" "cs @ [c]" st1] Cons.prems(1) by simp
qed auto

lemma forked_empty:
  assumes "mm_ok m live" "space_ok m sp ns"
  shows "forked m sp live [] [] (m, sp, new_space (sp_lo sp) (sp_hi sp))"
  using assms rb_holds_empty by (auto simp: forked_def space_ok_def new_space_def protected_def)

lemma fork_ok:
  assumes ok: "mm_ok m live" "space_ok m sp ns" "set ns \<subseteq> set live" and tot: "npages m live + npages m ns < 2 ^ 32"
  shows "\<exists>st cs. fork m sp = Some st \<and> forked m sp live ns cs st"
proof -
  have "rb_forward (regions sp) = Some ns" using ok(2) rbi.walk_held by (simp add: space_ok_def)
  then show ?thesis using fork_fold[OF ok tot _ forked_empty[OF ok(1,2)], of ns] by (auto simp: fork_def)
qed

section \<open>Properties\<close>

lemma forked_parts:
  assumes "forked m sp live ns cs (m', sp', n)" and "mm_ok m live" and "space_ok m sp ns" and "set ns \<subseteq> set live"
  shows "mm_ok m' (live @ cs)" "space_ok m' sp' ns" "space_ok m' n cs" "map (areas m') cs = map (areas m) ns"
    "a \<in> set live \<Longrightarrow> areas m' a = areas m a" "a \<in> set live \<Longrightarrow> view m' a i = view m a i"
    "protected m (map (areas m) ns) (sp_pt sp) (sp_pt sp')" "protected m (map (areas m) ns) (\<lambda>_. None) (sp_pt n)" "km m' = km m"
proof -
  note F = assms(1)[unfolded forked_def, simplified]
  show "mm_ok m' (live @ cs)" "space_ok m' n cs" "map (areas m') cs = map (areas m) ns" "km m' = km m"
    "protected m (map (areas m) ns) (sp_pt sp) (sp_pt sp')" "protected m (map (areas m) ns) (\<lambda>_. None) (sp_pt n)" using F by simp_all
  have same: "areas m' a = areas m a" if "a \<in> set live" for a using F mm_ok_parts(4)[OF assms(2) that] by blast
  then show "a \<in> set live \<Longrightarrow> areas m' a = areas m a" by blast
  show "view m' a i = view m a i" if "a \<in> set live" using F same[OF that] by (simp add: view_def Let_def)
  have "space_ok m' sp ns" using F same assms(4) by (intro space_ok_areas[OF assms(3)]) auto
  then show "space_ok m' sp' ns" using F by (simp add: space_ok_def)
qed

text \<open>
  C8: \<^verbatim>\<open>space::fork\<close>: the child has a copy of every area of the parent, at the same addresses and showing the same
  pages; no area shows other contents than before; in both page tables every populated page is
  mapped to its frame without write permission, and no other entry of the parent's changes; the
  user count of every page is again the number of mappings that hold it.
\<close>

theorem fork_correct:
  assumes "mm_ok m live" and "space_ok m sp ns" and "set ns \<subseteq> set live" and "npages m live + npages m ns < 2 ^ 32"
  shows "\<exists>m' sp' n cs. fork m sp = Some (m', sp', n) \<and> mm_ok m' (live @ cs) \<and> space_ok m' sp' ns \<and> space_ok m' n cs \<and>
    map (areas m') cs = map (areas m) ns \<and> (\<forall>a \<in> set live. \<forall>i. view m' a i = view m a i) \<and>
    protected m (map (areas m) ns) (sp_pt sp) (sp_pt sp') \<and> protected m (map (areas m) ns) (\<lambda>_. None) (sp_pt n)"
proof -
  obtain m' sp' n cs where f: "fork m sp = Some (m', sp', n)" "forked m sp live ns cs (m', sp', n)"
    using fork_ok[OF assms] by (metis prod_cases3)
  then show ?thesis using forked_parts[OF f(2) assms(1-3)] by blast
qed

lemma demo_npages: "areas m 64 = mapped_area ''a'' 0x4000 2 3 2 0 0 0 \<Longrightarrow> npages m [64] = 2"
  by (simp add: npages_def mapped_area_def)

theorem fork_correct_witness:
  "\<exists>m sp m' sp' n c. fork m sp = Some (m', sp', n) \<and> mm_ok m' [64, c] \<and> space_ok m' n [c] \<and> areas m' c = areas m 64"
proof -
  obtain m sp where d: "space_ok m sp [64]" "areas m 64 = mapped_area ''a'' 0x4000 2 3 2 0 0 0" "km m = demo_kmem"
    "pages_of m = (\<lambda>_. new_page)" "next_page m = 1" "next_area m = 128" using demo_mapped by blast
  from fork_correct[OF demo_mm_ok[OF d] d(1)] demo_npages[OF d(2)] obtain m' sp' n cs where
    r: "fork m sp = Some (m', sp', n)" "mm_ok m' ([64] @ cs)" "space_ok m' n cs" "map (areas m') cs = [areas m 64]" by auto
  moreover obtain c where "cs = [c]" using r(4) by (cases cs) auto
  ultimately show ?thesis by (intro exI[of _ m] exI[of _ sp] exI[of _ m'] exI[of _ sp'] exI[of _ n] exI[of _ c]) simp
qed

text \<open>
  C7: fork followed by a write of the child: the child's write fault in its copy of a private anonymous area is handled, and
  whatever the child then stores in the page it was given, every page of every area that existed before
  the fork still shows what it showed before.
\<close>

theorem fork_then_write:
  assumes "mm_ok m live" and "space_ok m sp ns" and "set ns \<subseteq> set live" and "npages m live + npages m ns < 2 ^ 32"
    and "phys_inv (km m) es" and "32 \<le> nfree (km m)" and "a \<in> set ns" and "contains (areas m a) va"
    and "a_obj (areas m a) = 0" and "a_fd (areas m a) = 0"
    and "\<not> bit (a_flags (areas m a)) MAP_SHARED" and "bit (a_flags (areas m a)) MAP_PRIVATE"
    and "bit (a_prot (areas m a)) VPROT_WRITE" and "bit (a_prot (areas m a)) VPROT_READ"
  shows "\<exists>m1 sp1 n m2 n2 p e. fork m sp = Some (m1, sp1, n) \<and> pagefault gs reclaim m1 n va (2 ^ FAULT_WRITE) = Inr (0, m2, n2) \<and>
    sp_pt n2 (va div 4096) = Some e \<and> bit (pte_prot e) VPROT_WRITE \<and> ppn e = frame_of m2 p div 4096 \<and>
    (\<forall>c. \<forall>b \<in> set live. \<forall>j < length (a_mappings (areas m b)). view (with_contents p c m2) b j = view m b j)"
proof -
  obtain m1 sp1 n cs where f: "fork m sp = Some (m1, sp1, n)" "forked m sp live ns cs (m1, sp1, n)"
    using fork_ok[OF assms(1-4)] by (metis prod_cases3)
  note P = forked_parts[OF f(2) assms(1-3)]
  obtain x where x: "x \<in> set cs" "areas m1 x = areas m a"
    using P(4) assms(7) by (metis (no_types, lifting) imageE imageI list.set_map)
  have fl: "bit (2 ^ FAULT_WRITE :: nat) FAULT_WRITE" "\<not> bit (2 ^ FAULT_WRITE :: nat) FAULT_EXEC"
    by (simp_all add: FAULT_WRITE_def FAULT_EXEC_def bit_simps)
  have inv: "phys_inv (km m1) es" "32 \<le> nfree (km m1)" using P(9) assms(5,6) by simp_all
  let ?i = "va div 4096 - a_va (areas m a) div 4096"
  have i: "?i < length (a_mappings (areas m a))" using page_index(2)[OF _ assms(8)] assms(2,7) by (simp add: space_ok_def)
  obtain m2 n2 e where w: "pagefault gs reclaim m1 n va (2 ^ FAULT_WRITE) = Inr (0, m2, n2)" "owned_write m1 (live @ cs) x ?i m2"
    "sp_pt n2 = (sp_pt n)(va div 4096 \<mapsto> e)" "bit (pte_prot e) VPROT_WRITE" "ppn e = frame_of m2 (a_mappings (areas m2 x) ! ?i) div 4096"
    using write_fault[OF P(1) P(3) _ inv x(1) _ _ _ _ _ fl, of va gs reclaim] assms(8-14) unfolding x(2) by auto
  let ?p = "a_mappings (areas m2 x) ! ?i"
  have ow: "mm_ok m2 (live @ cs)" "?p \<noteq> 0" "refs m2 (live @ cs) ?p = 1"
    "\<forall>b \<in> set (live @ cs). \<forall>j < length (a_mappings (areas m1 b)). view m2 b j = view m1 b j" using w(2) by (simp_all add: owned_write_def)
  have len: "length (a_mappings (areas m2 b)) = length (a_mappings (areas m1 b))" for b using w(2) by (auto simp: owned_write_def)
  have "view (with_contents ?p c m2) b j = view m b j" if "b \<in> set live" "j < length (a_mappings (areas m b))" for c b j
  proof -
    have "b \<noteq> x" using mm_ok_parts(1)[OF P(1)] x(1) that(1) by auto
    moreover have "?p \<in> set (a_mappings (areas m2 x))" using i x(2) len[of x] by (intro nth_mem) simp
    moreover have "x \<in> set (live @ cs)" "b \<in> set (live @ cs)" using x(1) that(1) by simp_all
    moreover have j: "j < length (a_mappings (areas m1 b))" using that(2) P(5)[OF that(1)] by simp
    ultimately have "view (with_contents ?p c m2) b j = view m2 b j"
      using write_private[OF ow(1,3,2)] len[of b] by simp
    also have "\<dots> = view m1 b j" using ow(4) \<open>b \<in> set (live @ cs)\<close> j by blast
    finally show ?thesis using P(6)[OF that(1)] by simp
  qed
  moreover have "sp_pt n2 (va div 4096) = Some e" using w(3) by simp
  ultimately show ?thesis using f(1) w(1,4,5) by blast
qed


theorem fork_then_write_witness:
  "\<exists>m sp m1 sp1 n m2 n2. fork m sp = Some (m1, sp1, n) \<and>
     pagefault (\<lambda>_ _ m. Inr (0, m)) (\<lambda>k. k) m1 n 0x5008 (2 ^ FAULT_WRITE) = Inr (0, m2, n2) \<and> sp_pt n2 5 \<noteq> None"
proof -
  obtain m sp where d: "space_ok m sp [64]" "areas m 64 = mapped_area ''a'' 0x4000 2 3 2 0 0 0" "km m = demo_kmem"
    "pages_of m = (\<lambda>_. new_page)" "next_page m = 1" "next_area m = 128" using demo_mapped by blast
  have inv: "phys_inv (km m) [(0x100000, 256)]" "32 \<le> nfree (km m)" using demo_kmem_inv demo_kmem_free d(3) by simp_all
  have "npages m [64] + npages m [64] < 2 ^ 32" using demo_npages[OF d(2)] by simp
  from fork_then_write[where gs = "\<lambda>_ _ m. Inr (0, m)" and reclaim = "\<lambda>k. k" and a = 64 and va = "0x5008",
      OF demo_mm_ok[OF d] d(1) _ this inv]
  show ?thesis using d(2)
    by (simp add: mapped_area_def contains_def MAP_SHARED_def MAP_PRIVATE_def VPROT_WRITE_def VPROT_READ_def bit_simps) blast
qed

end
