(* ===== verification/C_Mem.thy ===== *)
theory C_Mem
  imports Chariot_Prelude
begin

text \<open>
  The memory functions of the C library, \<^verbatim>\<open>libc/src/string/mem.c\<close>. Memory is a function from
  addresses to bytes; \<^verbatim>\<open>size_t\<close> accesses read and write eight of them, least significant first.
  Pointers into an object do not wrap around, so they are natural numbers; where the code
  computes with \<^verbatim>\<open>uintptr_t\<close> on purpose, the 64-bit arithmetic is written out.
\<close>

section \<open>Memory\<close>

type_synonym cmem = "nat \<Rightarrow> byte"

definition load64 :: "cmem \<Rightarrow> nat \<Rightarrow> 64 word" where
  "load64 m a = foldr (\<lambda>i w. or (push_bit (8 * i) (ucast (m (a + i)))) w) [0..<8] 0"

definition store32 :: "nat \<Rightarrow> 32 word \<Rightarrow> cmem \<Rightarrow> cmem" where
  "store32 a w m = foldl (\<lambda>m i. m(a + i := ucast (drop_bit (8 * i) w))) m [0..<4]"

definition store64 :: "nat \<Rightarrow> 64 word \<Rightarrow> cmem \<Rightarrow> cmem" where
  "store64 a w m = foldl (\<lambda>m i. m(a + i := ucast (drop_bit (8 * i) w))) m [0..<8]"

definition WS :: nat where "WS = 8"

section \<open>Copying\<close>

definition memcpy :: "cmem \<Rightarrow> nat \<Rightarrow> nat \<Rightarrow> nat \<Rightarrow> cmem" where
  "memcpy m d s n = foldl (\<lambda>m i. m(d + i := m (s + i))) m [0..<n]"

text \<open>
  The loops of \<^verbatim>\<open>memmove\<close>. The head loops return no count when they use up \<open>n\<close>, which ends the
  function.
\<close>

fun fwd_head :: "cmem \<Rightarrow> nat \<Rightarrow> nat \<Rightarrow> nat \<Rightarrow> cmem \<times> nat \<times> nat \<times> nat option" where
  "fwd_head m d s n =
     (if d mod WS \<noteq> 0
      then (case n of 0 \<Rightarrow> (m, d, s, None) | Suc n' \<Rightarrow> fwd_head (m(d := m s)) (d + 1) (s + 1) n')
      else (m, d, s, Some n))"

function fwd_words :: "cmem \<Rightarrow> nat \<Rightarrow> nat \<Rightarrow> nat \<Rightarrow> cmem \<times> nat \<times> nat \<times> nat" where
  "fwd_words m d s n =
     (if n \<ge> WS then fwd_words (store64 d (load64 m s) m) (d + WS) (s + WS) (n - WS) else (m, d, s, n))"
  by auto
termination by (relation "measure (\<lambda>(m, d, s, n). n)") (auto simp: WS_def)

fun fwd_bytes :: "cmem \<Rightarrow> nat \<Rightarrow> nat \<Rightarrow> nat \<Rightarrow> cmem" where
  "fwd_bytes m d s 0 = m"
| "fwd_bytes m d s (Suc n) = fwd_bytes (m(d := m s)) (d + 1) (s + 1) n"

fun bwd_head :: "cmem \<Rightarrow> nat \<Rightarrow> nat \<Rightarrow> nat \<Rightarrow> cmem \<times> nat option" where
  "bwd_head m d s n =
     (if (d + n) mod WS \<noteq> 0
      then (case n of 0 \<Rightarrow> (m, None) | Suc n' \<Rightarrow> bwd_head (m(d + n' := m (s + n'))) d s n')
      else (m, Some n))"

function bwd_words :: "cmem \<Rightarrow> nat \<Rightarrow> nat \<Rightarrow> nat \<Rightarrow> cmem \<times> nat" where
  "bwd_words m d s n =
     (if n \<ge> WS then bwd_words (store64 (d + (n - WS)) (load64 m (s + (n - WS))) m) d s (n - WS) else (m, n))"
  by auto
termination by (relation "measure (\<lambda>(m, d, s, n). n)") (auto simp: WS_def)

fun bwd_bytes :: "cmem \<Rightarrow> nat \<Rightarrow> nat \<Rightarrow> nat \<Rightarrow> cmem" where
  "bwd_bytes m d s 0 = m"
| "bwd_bytes m d s (Suc n) = bwd_bytes (m(d + n := m (s + n))) d s n"

declare fwd_head.simps [simp del] fwd_words.simps [simp del] bwd_head.simps [simp del] bwd_words.simps [simp del]

definition move_fwd :: "cmem \<Rightarrow> nat \<Rightarrow> nat \<Rightarrow> nat \<Rightarrow> cmem" where
  "move_fwd m d s n =
     (if s mod WS = d mod WS
      then case fwd_head m d s n of
             (m, d, s, None) \<Rightarrow> m
           | (m, d, s, Some n) \<Rightarrow> (case fwd_words m d s n of (m, d, s, n) \<Rightarrow> fwd_bytes m d s n)
      else fwd_bytes m d s n)"

definition move_bwd :: "cmem \<Rightarrow> nat \<Rightarrow> nat \<Rightarrow> nat \<Rightarrow> cmem" where
  "move_bwd m d s n =
     (if s mod WS = d mod WS
      then case bwd_head m d s n of
             (m, None) \<Rightarrow> m
           | (m, Some n) \<Rightarrow> (case bwd_words m d s n of (m, n) \<Rightarrow> bwd_bytes m d s n)
      else bwd_bytes m d s n)"

definition memmove :: "cmem \<Rightarrow> nat \<Rightarrow> nat \<Rightarrow> nat \<Rightarrow> cmem" where
  "memmove m d s n =
     (if d = s then m
      else if sub64 (sub64 s d) n \<le> sub64 0 (2 * n) then memcpy m d s n
      else if d < s then move_fwd m d s n
      else move_bwd m d s n)"

section \<open>Filling\<close>

text \<open>The last loop of \<^verbatim>\<open>memset\<close> fills 32 bytes in each round.\<close>

function memset_loop :: "cmem \<Rightarrow> nat \<Rightarrow> 64 word \<Rightarrow> nat \<Rightarrow> cmem" where
  "memset_loop m s c64 n =
     (if n \<ge> 32
      then memset_loop (store64 (s + 24) c64 (store64 (s + 16) c64 (store64 (s + 8) c64 (store64 (s + 0) c64 m)))) (s + 32) c64 (n - 32)
      else m)"
  by auto
termination by (relation "measure (\<lambda>(m, s, c, n). n)") auto

declare memset_loop.simps [simp del]

text \<open>From the alignment to a 4-byte boundary on; \<open>s\<close> and \<open>n\<close> are aligned.\<close>

definition memset_words :: "cmem \<Rightarrow> nat \<Rightarrow> 32 word \<Rightarrow> nat \<Rightarrow> cmem" where
  "memset_words m s c32 n =
     (let m = store32 (s + n - 4) c32 (store32 (s + 0) c32 m)
      in if n \<le> 8 then m
      else let m = store32 (s + n - 8) c32 (store32 (s + n - 12) c32 (store32 (s + 8) c32 (store32 (s + 4) c32 m)))
      in if n \<le> 24 then m
      else let m = store32 (s + 24) c32 (store32 (s + 20) c32 (store32 (s + 16) c32 (store32 (s + 12) c32 m)));
               m = store32 (s + n - 16) c32 (store32 (s + n - 20) c32 (store32 (s + n - 24) c32 (store32 (s + n - 28) c32 m)));
               k = 24 + (if bit s 2 then 4 else 0);
               c64 = or (ucast c32) (push_bit 32 (ucast c32))
           in memset_loop m (s + k) c64 (n - k))"

definition memset :: "cmem \<Rightarrow> nat \<Rightarrow> int \<Rightarrow> nat \<Rightarrow> cmem" where
  "memset m s c n =
     (let c8 = word_of_int c
      in if n = 0 then m
      else let m = m(s := c8, s + n - 1 := c8)
      in if n \<le> 2 then m
      else let m = m(s + 1 := c8, s + 2 := c8, s + n - 2 := c8, s + n - 3 := c8)
      in if n \<le> 6 then m
      else let m = m(s + 3 := c8, s + n - 4 := c8)
      in if n \<le> 8 then m
      else let k = sub64 0 s mod 4
           in memset_words m (s + k) (0xFFFFFFFF div 255 * ucast c8) (4 * ((n - k) div 4)))"

section \<open>Comparing and searching\<close>

fun memcmp :: "cmem \<Rightarrow> nat \<Rightarrow> nat \<Rightarrow> nat \<Rightarrow> int" where
  "memcmp m l r 0 = 0"
| "memcmp m l r (Suc n) = (if m l = m r then memcmp m (l + 1) (r + 1) n else int (unat (m l)) - int (unat (m r)))"

text \<open>Searches return \<^verbatim>\<open>NULL\<close> as no address.\<close>

fun memrchr :: "cmem \<Rightarrow> nat \<Rightarrow> int \<Rightarrow> nat \<Rightarrow> nat option" where
  "memrchr m s c 0 = None"
| "memrchr m s c (Suc n) = (if m (s + n) = word_of_int c then Some (s + n) else memrchr m s c n)"

fun memchr :: "cmem \<Rightarrow> nat \<Rightarrow> int \<Rightarrow> nat \<Rightarrow> nat option" where
  "memchr m s c 0 = None"
| "memchr m s c (Suc n) = (if m s \<noteq> word_of_int c then memchr m (s + 1) c n else Some s)"

section \<open>Words and bytes\<close>

lemma bit_byte: "bit (b :: byte) k \<Longrightarrow> k < 8"
  using bit_imp_le_length[of b k] by simp

lemma bit_word_of_bytes:
  "bit (foldr (\<lambda>i w. or (push_bit (8 * i) (ucast (f i :: byte))) w) xs (0 :: 64 word)) n \<longleftrightarrow>
    n < 64 \<and> n div 8 \<in> set xs \<and> bit (f (n div 8)) (n mod 8)"
proof (induction xs)
  case (Cons x xs)
  have "bit (push_bit (8 * x) (ucast (f x)) :: 64 word) n \<longleftrightarrow> n < 64 \<and> 8 * x \<le> n \<and> bit (f x) (n - 8 * x)"
    by (auto simp: bit_simps)
  moreover have "8 * x \<le> n \<and> bit (f x) (n - 8 * x) \<longleftrightarrow> n div 8 = x \<and> bit (f x) (n mod 8)"
  proof
    assume h: "8 * x \<le> n \<and> bit (f x) (n - 8 * x)"
    then have "n - 8 * x < 8" using bit_byte by blast
    then have "n div 8 = x" "n mod 8 = n - 8 * x" using h by (auto simp: div_nat_eqI modulo_nat_def)
    then show "n div 8 = x \<and> bit (f x) (n mod 8)" using h by simp
  next
    assume "n div 8 = x \<and> bit (f x) (n mod 8)"
    moreover have "n - 8 * (n div 8) = n mod 8" by (simp add: modulo_nat_def)
    ultimately show "8 * x \<le> n \<and> bit (f x) (n - 8 * x)" by auto
  qed
  ultimately show ?case using Cons by (auto simp: bit_simps)
qed simp

lemma bit_load64: "bit (load64 m a) n \<longleftrightarrow> n < 64 \<and> bit (m (a + n div 8)) (n mod 8)"
  unfolding load64_def using bit_word_of_bytes[of "\<lambda>i. m (a + i)" "[0..<8]" n] by auto

lemma byte_of_load: "i < 8 \<Longrightarrow> ucast (drop_bit (8 * i) (load64 m a)) = m (a + i)"
  by (rule bit_eqI) (auto simp: bit_simps bit_load64 dest: bit_byte)

lemma store_bytes: "foldl (\<lambda>m i. m(a + i := f i)) m [0..<k] = (\<lambda>x. if a \<le> x \<and> x < a + k then f (x - a) else m x)"
  by (induction k) (auto simp: fun_eq_iff)

section \<open>Copies\<close>

definition copied :: "cmem \<Rightarrow> nat \<Rightarrow> nat \<Rightarrow> nat \<Rightarrow> cmem" where
  "copied m d s n = (\<lambda>a. if d \<le> a \<and> a < d + n then m (s + (a - d)) else m a)"

lemma copied_0 [simp]: "copied m d s 0 = m"
  by (auto simp: copied_def fun_eq_iff)

lemma store_load: "store64 d (load64 m s) m = copied m d s 8"
  unfolding store64_def store_bytes copied_def by (auto simp: fun_eq_iff byte_of_load)

lemma copied_one: "m(d := m s) = copied m d s 1"
  by (auto simp: copied_def fun_eq_iff)

lemma copied_fwd: "d \<le> s \<Longrightarrow> copied (copied m d s j) (d + j) (s + j) k = copied m d s (j + k)"
  by (auto simp: copied_def fun_eq_iff)

lemma copied_bwd: "s \<le> d \<Longrightarrow> copied (copied m (d + k) (s + k) j) d s k = copied m d s (k + j)"
  by (auto simp: copied_def fun_eq_iff)

lemma memcpy_step: "memcpy m d s (Suc n) = (memcpy m d s n)(d + n := memcpy m d s n (s + n))"
  by (simp add: memcpy_def)

lemma memcpy_copied:
  assumes "d \<le> s \<or> s + n \<le> d"
  shows "memcpy m d s n = copied m d s n"
  using assms
proof (induction n)
  case 0
  then show ?case by (simp add: memcpy_def)
next
  case (Suc n)
  then have "memcpy m d s n = copied m d s n" by auto
  then show ?case using Suc.prems unfolding memcpy_step by (auto simp: copied_def fun_eq_iff)
qed

lemma fwd_bytes_copied: "d \<le> s \<Longrightarrow> fwd_bytes m d s n = copied m d s n"
proof (induction n arbitrary: m d s)
  case (Suc n)
  have "fwd_bytes m d s (Suc n) = copied (copied m d s 1) (d + 1) (s + 1) n"
    using Suc by (simp add: copied_one)
  then show ?case using copied_fwd[OF Suc.prems, of m 1 n] by simp
qed simp

lemma fwd_words_copied:
  "d \<le> s \<Longrightarrow> \<exists>k \<le> n. fwd_words m d s n = (copied m d s k, d + k, s + k, n - k)"
proof (induction m d s n rule: fwd_words.induct)
  case (1 m d s n)
  show ?case
  proof (cases "n \<ge> WS")
    case True
    have st: "store64 d (load64 m s) m = copied m d s WS" by (simp add: store_load WS_def)
    from "1.IH"[OF True] "1.prems" obtain k where
      k: "k \<le> n - WS" "fwd_words (copied m d s WS) (d + WS) (s + WS) (n - WS) =
        (copied (copied m d s WS) (d + WS) (s + WS) k, d + WS + k, s + WS + k, n - WS - k)" unfolding st by auto
    then show ?thesis using True copied_fwd[OF "1.prems", of m WS k]
      by (intro exI[of _ "WS + k"]) (simp add: fwd_words.simps[of m d s n] st add.assoc)
  next
    case False
    then show ?thesis by (intro exI[of _ 0]) (simp add: fwd_words.simps)
  qed
qed

lemma fwd_head_copied:
  "d \<le> s \<Longrightarrow> \<exists>k \<le> n. (fwd_head m d s n = (copied m d s k, d + k, s + k, Some (n - k))) \<or>
    (k = n \<and> fwd_head m d s n = (copied m d s n, d + n, s + n, None))"
proof (induction n arbitrary: m d s)
  case 0
  then show ?case by (simp add: fwd_head.simps)
next
  case (Suc n)
  show ?case
  proof (cases "d mod WS = 0")
    case True
    then show ?thesis by (intro exI[of _ 0]) (simp add: fwd_head.simps)
  next
    case False
    then have st: "fwd_head m d s (Suc n) = fwd_head (copied m d s 1) (d + 1) (s + 1) n"
      by (subst fwd_head.simps) (simp add: copied_one)
    obtain k where "k \<le> n" "(fwd_head (copied m d s 1) (d + 1) (s + 1) n =
        (copied (copied m d s 1) (d + 1) (s + 1) k, d + 1 + k, s + 1 + k, Some (n - k))) \<or>
      (k = n \<and> fwd_head (copied m d s 1) (d + 1) (s + 1) n = (copied (copied m d s 1) (d + 1) (s + 1) n, d + 1 + n, s + 1 + n, None))"
      using Suc.IH[of "d + 1" "s + 1" "copied m d s 1"] Suc.prems by auto
    then show ?thesis using st copied_fwd[OF Suc.prems, of m 1] by (intro exI[of _ "Suc k"]) auto
  qed
qed

lemma move_fwd_copied:
  assumes "d \<le> s"
  shows "move_fwd m d s n = copied m d s n"
proof (cases "s mod WS = d mod WS")
  case True
  obtain k where k: "k \<le> n" "(fwd_head m d s n = (copied m d s k, d + k, s + k, Some (n - k))) \<or>
    (k = n \<and> fwd_head m d s n = (copied m d s n, d + n, s + n, None))" using fwd_head_copied[OF assms] by blast
  obtain j where j: "j \<le> n - k" "fwd_words (copied m d s k) (d + k) (s + k) (n - k) =
    (copied (copied m d s k) (d + k) (s + k) j, d + k + j, s + k + j, n - k - j)"
    using fwd_words_copied[of "d + k" "s + k" "n - k" "copied m d s k"] assms by auto
  have "fwd_bytes (copied m d s (k + j)) (d + (k + j)) (s + (k + j)) (n - k - j) = copied m d s n"
    using fwd_bytes_copied[of "d + (k + j)" "s + (k + j)"] copied_fwd[OF assms, of m "k + j" "n - k - j"] assms k(1) j(1) by simp
  then show ?thesis using k(2) j(2) True copied_fwd[OF assms, of m k j] by (auto simp: move_fwd_def add.assoc)
qed (simp add: move_fwd_def fwd_bytes_copied[OF assms])

lemma bwd_bytes_copied: "s \<le> d \<Longrightarrow> bwd_bytes m d s n = copied m d s n"
proof (induction n arbitrary: m)
  case (Suc n)
  have "bwd_bytes m d s (Suc n) = copied (copied m (d + n) (s + n) 1) d s n"
    using Suc by (simp add: copied_one)
  then show ?case using copied_bwd[OF Suc.prems, of m n 1] by simp
qed simp

lemma bwd_words_copied:
  "s \<le> d \<Longrightarrow> \<exists>k \<le> n. bwd_words m d s n = (copied m (d + k) (s + k) (n - k), k)"
proof (induction m d s n rule: bwd_words.induct)
  case (1 m d s n)
  show ?case
  proof (cases "n \<ge> WS")
    case True
    have st: "store64 (d + (n - WS)) (load64 m (s + (n - WS))) m = copied m (d + (n - WS)) (s + (n - WS)) WS"
      by (simp add: store_load WS_def)
    from "1.IH"[OF True "1.prems"] obtain k where
      k: "k \<le> n - WS" "bwd_words (copied m (d + (n - WS)) (s + (n - WS)) WS) d s (n - WS) =
        (copied (copied m (d + (n - WS)) (s + (n - WS)) WS) (d + k) (s + k) (n - WS - k), k)" unfolding st by auto
    have "copied (copied m (d + (n - WS)) (s + (n - WS)) WS) (d + k) (s + k) (n - WS - k) = copied m (d + k) (s + k) (n - k)"
      using copied_bwd[of "s + k" "d + k" m "n - WS - k" WS] "1.prems" k(1) True by simp
    moreover have "bwd_words m d s n = bwd_words (copied m (d + (n - WS)) (s + (n - WS)) WS) d s (n - WS)"
      by (subst bwd_words.simps) (simp only: True if_True st)
    ultimately show ?thesis using k by (intro exI[of _ k]) simp
  next
    case False
    then show ?thesis by (intro exI[of _ n]) (simp add: bwd_words.simps)
  qed
qed

lemma bwd_head_copied:
  "s \<le> d \<Longrightarrow> \<exists>k \<le> n. bwd_head m d s n = (copied m (d + k) (s + k) (n - k), Some k) \<or>
    bwd_head m d s n = (copied m d s n, None)"
proof (induction n arbitrary: m)
  case 0
  then show ?case by (simp add: bwd_head.simps)
next
  case (Suc n)
  show ?case
  proof (cases "(d + Suc n) mod WS = 0")
    case True
    then show ?thesis by (intro exI[of _ "Suc n"]) (simp add: bwd_head.simps)
  next
    case False
    then have st: "bwd_head m d s (Suc n) = bwd_head (copied m (d + n) (s + n) 1) d s n"
      by (subst bwd_head.simps) (simp add: copied_one)
    obtain k where k: "k \<le> n" "bwd_head (copied m (d + n) (s + n) 1) d s n =
        (copied (copied m (d + n) (s + n) 1) (d + k) (s + k) (n - k), Some k) \<or>
      bwd_head (copied m (d + n) (s + n) 1) d s n = (copied (copied m (d + n) (s + n) 1) d s n, None)"
      using Suc.IH[OF Suc.prems, of "copied m (d + n) (s + n) 1"] by blast
    have "copied (copied m (d + n) (s + n) 1) (d + k) (s + k) (n - k) = copied m (d + k) (s + k) (Suc n - k)"
      using copied_bwd[of "s + k" "d + k" m "n - k" 1] Suc.prems k(1) by (simp add: Suc_diff_le)
    moreover have "copied (copied m (d + n) (s + n) 1) d s n = copied m d s (Suc n)"
      using copied_bwd[OF Suc.prems, of m n 1] by simp
    ultimately show ?thesis using k st by (intro exI[of _ k]) auto
  qed
qed

lemma move_bwd_copied:
  assumes "s \<le> d"
  shows "move_bwd m d s n = copied m d s n"
proof (cases "s mod WS = d mod WS")
  case True
  obtain k where k: "k \<le> n" "bwd_head m d s n = (copied m (d + k) (s + k) (n - k), Some k) \<or>
    bwd_head m d s n = (copied m d s n, None)" using bwd_head_copied[OF assms] by blast
  let ?m = "copied m (d + k) (s + k) (n - k)"
  obtain j where j: "j \<le> k" "bwd_words ?m d s k = (copied ?m (d + j) (s + j) (k - j), j)"
    using bwd_words_copied[OF assms] by blast
  have "copied ?m (d + j) (s + j) (k - j) = copied m (d + j) (s + j) (n - j)"
    using copied_bwd[of "s + j" "d + j" m "k - j" "n - k"] assms k(1) j(1) by simp
  moreover have "bwd_bytes (copied m (d + j) (s + j) (n - j)) d s j = copied m d s n"
    using bwd_bytes_copied[OF assms] copied_bwd[OF assms, of m j "n - j"] k(1) j(1) by simp
  ultimately show ?thesis using k(2) j(2) True by (auto simp: move_bwd_def)
qed (simp add: move_bwd_def bwd_bytes_copied[OF assms])

text \<open>The unsigned comparison of \<^verbatim>\<open>memmove\<close> holds for disjoint regions only.\<close>

lemma memmove_disjoint:
  assumes "d + n \<le> 2 ^ 64" and "s + n \<le> 2 ^ 64" and "n < 2 ^ 63" and "0 < n"
    and "sub64 (sub64 s d) n \<le> sub64 0 (2 * n)"
  shows "s + n \<le> d \<or> d + n \<le> s"
proof (rule ccontr)
  assume h: "\<not> (s + n \<le> d \<or> d + n \<le> s)"
  have "(int s - int d - int n) mod 2 ^ 64 = int s - int d - int n + 2 ^ 64"
    using mod_pos_pos_trivial[of "int s - int d - int n + 2 ^ 64" "2 ^ 64"] h assms(1-4) by simp
  then have A: "sub64 (sub64 s d) n = nat (int s - int d - int n + 2 ^ 64)"
    by (simp add: sub64_def mod_diff_left_eq)
  have "(- (2 * int n)) mod 2 ^ 64 = 2 ^ 64 - 2 * int n"
    using mod_pos_pos_trivial[of "2 ^ 64 - 2 * int n" "2 ^ 64"] assms(3,4) by simp
  then have B: "sub64 0 (2 * n) = nat (2 ^ 64 - 2 * int n)" by (simp add: sub64_def)
  have "nat (int s - int d - int n + 2 ^ 64) \<le> nat (2 ^ 64 - 2 * int n)" using assms(5) unfolding A B .
  then have "int s - int d - int n + 2 ^ 64 \<le> 2 ^ 64 - 2 * int n" using assms(3) by (subst (asm) nat_le_eq_zle) auto
  then show False using h by linarith
qed

lemma memmove_copied:
  assumes "d + n \<le> 2 ^ 64" and "s + n \<le> 2 ^ 64" and "n < 2 ^ 63"
  shows "memmove m d s n = copied m d s n"
proof (cases "d = s \<or> n = 0")
  case True
  then show ?thesis using move_fwd_copied[of d s m n] move_bwd_copied[of s d m n]
    by (auto simp: memmove_def copied_def fun_eq_iff memcpy_def)
next
  case ne: False
  show ?thesis
  proof (cases "sub64 (sub64 s d) n \<le> sub64 0 (2 * n)")
    case True
    then show ?thesis using memmove_disjoint[OF assms _ True] memcpy_copied[of d s n m] ne by (auto simp: memmove_def)
  next
    case False
    then show ?thesis using move_fwd_copied[of d s m n] move_bwd_copied[of s d m n] ne by (auto simp: memmove_def)
  qed
qed

section \<open>Fills\<close>

definition filled :: "cmem \<Rightarrow> nat \<Rightarrow> byte \<Rightarrow> nat \<Rightarrow> cmem" where
  "filled m s c n = (\<lambda>a. if s \<le> a \<and> a < s + n then c else m a)"

lemma unat_ucast: "unat (ucast w :: 'b :: len word) = unat (w :: 'a :: len word) mod 2 ^ LENGTH('b)"
  by (simp add: unsigned_ucast_eq take_bit_eq_mod)

lemma unat_byte: "unat (c :: byte) < 256"
  using unsigned_less[of c, where ?'a = nat] by simp

lemma unat_c32: "unat (0x1010101 * ucast (c :: byte) :: 32 word) = 0x1010101 * unat c"
  using unat_byte[of c] by (simp add: unat_word_ariths unat_ucast)

text \<open>A byte repeated \<open>k\<close> times is its product with \<open>nones k\<close>.\<close>

fun nones :: "nat \<Rightarrow> nat" where
  "nones 0 = 0"
| "nones (Suc k) = 1 + 256 * nones k"

lemma repeated_byte: "x < 256 \<Longrightarrow> i < k \<Longrightarrow> nones k * x div 256 ^ i mod 256 = (x :: nat)"
proof (induction k arbitrary: i)
  case (Suc k)
  note IH = Suc.IH and x = Suc.prems(1) and i = Suc.prems(2)
  have e: "nones (Suc k) * x = x + 256 * (nones k * x)" by (simp add: algebra_simps)
  have d: "(x + 256 * y) div 256 = y" "(x + 256 * y) mod 256 = x" for y using x by simp_all
  show ?case
  proof (cases i)
    case 0
    show ?thesis unfolding 0 e power_0 div_by_1 by (rule d(2))
  next
    case (Suc j)
    have "(x + 256 * (nones k * x)) div 256 ^ i = nones k * x div 256 ^ j"
      unfolding Suc power_Suc div_mult2_eq d(1) ..
    then show ?thesis unfolding e using IH[OF x, of j] i Suc by simp
  qed
qed simp

lemma nones_4: "nones 4 = 0x1010101"
proof -
  have "nones 4 = nones (Suc (Suc (Suc (Suc 0))))" by (rule arg_cong[where f = nones]) simp
  then show ?thesis by simp
qed

lemma nones_8: "nones 8 = 0x101010101010101"
proof -
  have "nones 8 = nones (Suc (Suc (Suc (Suc 4))))" by (rule arg_cong[where f = nones]) simp
  also have "\<dots> = 0x101010101010101" unfolding nones.simps nones_4 by simp
  finally show ?thesis .
qed

lemma byte_of_c32: "i < 4 \<Longrightarrow> ucast (drop_bit (8 * i) (0x1010101 * ucast c :: 32 word)) = (c :: byte)"
proof -
  assume i: "i < 4"
  have "unat (ucast (drop_bit (8 * i) (0x1010101 * ucast c :: 32 word)) :: byte) = drop_bit (8 * i) (0x1010101 * unat c) mod 256"
    by (simp add: unat_ucast unat_drop_bit_eq unat_c32)
  also have "\<dots> = 0x1010101 * unat c div 256 ^ i mod 256" by (simp add: drop_bit_eq_div power_mult)
  also have "\<dots> = unat c" using repeated_byte[OF unat_byte i] unfolding nones_4 .
  finally show ?thesis by (simp add: unsigned_word_eqI)
qed

lemma bit_c32: "j < 8 \<Longrightarrow> i < 4 \<Longrightarrow> bit (0x1010101 * ucast c :: 32 word) (8 * i + j) = bit (c :: byte) j"
proof -
  assume h: "j < 8" "i < 4"
  have "bit c j = bit (ucast (drop_bit (8 * i) (0x1010101 * ucast c :: 32 word)) :: byte) j" by (simp only: byte_of_c32[OF h(2)])
  then show ?thesis using h by (simp add: bit_simps)
qed

definition c64_of :: "byte \<Rightarrow> 64 word" where
  "c64_of c = or (ucast (0x1010101 * ucast c :: 32 word)) (push_bit 32 (ucast (0x1010101 * ucast c :: 32 word)))"

lemma byte_of_c64: "i < 8 \<Longrightarrow> ucast (drop_bit (8 * i) (c64_of c)) = (c :: byte)"
proof (rule bit_eqI)
  fix j assume i: "i < 8" and "possible_bit TYPE(byte) j"
  then have j: "j < 8" by simp
  show "bit (ucast (drop_bit (8 * i) (c64_of c)) :: byte) j = bit c j"
  proof (cases "i < 4")
    case True
    then have "8 * i + j < 32" using j by linarith
    then show ?thesis using True i j bit_c32[OF j True, of c] by (auto simp: c64_of_def bit_simps)
  next
    case False
    then have "8 * i + j - 32 = 8 * (i - 4) + j" "32 \<le> 8 * i + j" by auto
    then show ?thesis using False i j bit_c32[OF j, of "i - 4" c]
      by (auto simp: c64_of_def bit_simps dest: bit_imp_le_length)
  qed
qed

lemma store32_filled: "store32 a (0x1010101 * ucast c) m = filled m a c 4"
  unfolding store32_def store_bytes filled_def by (auto simp: fun_eq_iff byte_of_c32)

lemma store64_filled: "store64 a (c64_of c) m = filled m a c 8"
  unfolding store64_def store_bytes filled_def by (auto simp: fun_eq_iff byte_of_c64)

lemma filled_one: "m(a := c) = filled m a c 1"
  by (auto simp: filled_def fun_eq_iff)

lemma filled_join: "s \<le> t \<Longrightarrow> t \<le> s + j \<Longrightarrow> filled (filled m s c j) t c k = filled m s c (max j (t - s + k))"
  by (auto simp: filled_def fun_eq_iff)

lemma memset_loop_filled: "memset_loop m s (c64_of c) n = filled m s c (32 * (n div 32))"
proof (induction n arbitrary: m s rule: less_induct)
  case (less n)
  show ?case
  proof (cases "n \<ge> 32")
    case True
    let ?m = "store64 (s + 24) (c64_of c) (store64 (s + 16) (c64_of c) (store64 (s + 8) (c64_of c) (store64 (s + 0) (c64_of c) m)))"
    have m: "?m = filled m s c 32" unfolding store64_filled by (auto simp: filled_def fun_eq_iff)
    have "32 + 32 * ((n - 32) div 32) = 32 * (n div 32)" using True le_div_geq[of 32 n] by simp
    then have "filled (filled m s c 32) (s + 32) c (32 * ((n - 32) div 32)) = filled m s c (32 * (n div 32))"
      using filled_join[of s "s + 32" 32 m c "32 * ((n - 32) div 32)"] by simp
    moreover have "memset_loop m s (c64_of c) n = memset_loop (filled m s c 32) (s + 32) (c64_of c) (n - 32)"
      by (subst memset_loop.simps) (simp only: m True if_True)
    ultimately show ?thesis using less.IH[of "n - 32" "filled m s c 32" "s + 32"] True by simp
  next
    case False
    then show ?thesis by (subst memset_loop.simps) (auto simp: filled_def fun_eq_iff)
  qed
qed

definition fills :: "cmem \<Rightarrow> nat set \<Rightarrow> byte \<Rightarrow> cmem" where
  "fills m S c = (\<lambda>a. if a \<in> S then c else m a)"

lemma filled_fills: "filled m s c n = fills m {s..<s + n} c"
  by (auto simp: filled_def fills_def fun_eq_iff)

lemma fills_fills: "fills (fills m S c) T c = fills m (S \<union> T) c"
  by (auto simp: fills_def fun_eq_iff)

lemma ivl_4: "s \<le> (t :: nat) \<Longrightarrow> {s..<t} \<union> {t..<t + 4} = {s..<t + 4}" by auto

lemma ends_12:
  assumes "12 \<le> n"
  shows "{s..<s + 4} \<union> {s + n - 4..<s + n - 4 + 4} \<union> {s + 4..<s + 4 + 4} \<union> {s + 8..<s + 8 + 4} \<union>
    {s + n - 12..<s + n - 12 + 4} \<union> {s + n - 8..<s + n - 8 + 4} = {s..<s + 12} \<union> {s + n - 12..<s + (n :: nat)}"
  using assms by auto

lemma ends_28:
  assumes "28 \<le> n"
  shows "{s..<s + 12} \<union> {s + n - 12..<s + n} \<union> {s + 12..<s + 12 + 4} \<union> {s + 16..<s + 16 + 4} \<union> {s + 20..<s + 20 + 4} \<union> {s + 24..<s + 24 + 4} \<union>
    {s + n - 28..<s + n - 28 + 4} \<union> {s + n - 24..<s + n - 24 + 4} \<union> {s + n - 20..<s + n - 20 + 4} \<union> {s + n - 16..<s + n - 16 + 4} =
    {s..<s + 28} \<union> {s + n - 28..<s + (n :: nat)}"
  using assms by auto

lemma rest_28:
  assumes n: "4 dvd n" "4 dvd k" "k \<le> n" "k \<le> 28" "28 \<le> (n :: nat)"
  shows "{s..<s + 28} \<union> {s + n - 28..<s + n} \<union> {s + k..<s + k + 32 * ((n - k) div 32)} = {s..<s + n}"
proof -
  let ?q = "32 * ((n - k) div 32)"
  have "4 dvd (n - k) mod 32" using n(1,2) by (simp add: dvd_mod_iff)
  then obtain r where "(n - k) mod 32 = 4 * r" by (auto elim!: dvdE)
  moreover have "(n - k) mod 32 < 32" by simp
  ultimately have "r < 8" by simp
  with \<open>(n - k) mod 32 = 4 * r\<close> have "(n - k) mod 32 \<le> 28" by simp
  then have "n \<le> k + ?q + 28" "?q \<le> n - k" using n(3) mult_div_mod_eq[of 32 "n - k"] by linarith+
  then show ?thesis using n(3-5) by auto
qed

lemma words_12:
  "12 \<le> n \<Longrightarrow> store32 (s + n - 8) w (store32 (s + n - 12) w (store32 (s + 8) w (store32 (s + 4) w (store32 (s + n - 4) w (store32 (s + 0) w m))))) =
    fills m ({s..<s + 12} \<union> {s + n - 12..<s + n}) c" if "w = 0x1010101 * ucast c"
  unfolding that store32_filled filled_fills fills_fills add_0_right by (simp only: Un_assoc[symmetric] ends_12)

lemma words_28:
  "28 \<le> n \<Longrightarrow> store32 (s + n - 16) w (store32 (s + n - 20) w (store32 (s + n - 24) w (store32 (s + n - 28) w
      (store32 (s + 24) w (store32 (s + 20) w (store32 (s + 16) w (store32 (s + 12) w (fills m ({s..<s + 12} \<union> {s + n - 12..<s + n}) c)))))))) =
    fills m ({s..<s + 28} \<union> {s + n - 28..<s + n}) c" if "w = 0x1010101 * ucast c"
  unfolding that store32_filled filled_fills fills_fills by (simp only: Un_assoc[symmetric] ends_28)

lemma memset_words_filled:
  assumes n: "4 dvd n" "0 < n" and w: "w = 0x1010101 * ucast c"
  shows "memset_words m s w n = filled m s c n"
proof -
  obtain q where q: "n = 4 * q" using n(1) by (auto elim!: dvdE)
  show ?thesis
  proof (cases "n \<le> 8")
    case True
    then have "{s + 0..<s + 0 + 4} \<union> {s + n - 4..<s + n - 4 + 4} = {s..<s + n}" using q n(2) by auto
    then show ?thesis using True unfolding memset_words_def Let_def w store32_filled filled_fills fills_fills by simp
  next
    case gt8: False
    then have "3 \<le> q" using q by simp
    then have n12: "12 \<le> n" using q by simp
    note W = words_12[OF w n12, of s m]
    show ?thesis
    proof (cases "n \<le> 24")
      case True
      then have "{s..<s + 12} \<union> {s + n - 12..<s + n} = {s..<s + n}" using n12 by auto
      then show ?thesis using True gt8 unfolding memset_words_def Let_def W filled_fills by simp
    next
      case gt24: False
      then have "7 \<le> q" using q by simp
      then have n28: "28 \<le> n" using q by simp
      define k where "k = 24 + (if bit s 2 then 4 else 0 :: nat)"
      have "4 dvd k" "k \<le> n" "k \<le> 28" using n28 by (auto simp: k_def)
      note R = rest_28[OF n(1) this(1,2,3) n28, of s]
      have "memset_words m s w n = memset_loop (fills m ({s..<s + 28} \<union> {s + n - 28..<s + n}) c) (s + k) (c64_of c) (n - k)"
        using gt8 gt24 unfolding memset_words_def Let_def W words_28[OF w n28] k_def[symmetric] by (simp add: c64_of_def w)
      then show ?thesis unfolding memset_loop_filled filled_fills fills_fills R .
    qed
  qed
qed

lemma ends_small:
  "0 < n \<Longrightarrow> n \<le> 2 \<Longrightarrow> {s..<s + 1} \<union> {s + n - 1..<s + n - 1 + 1} = {s..<s + (n :: nat)}"
  "2 < n \<Longrightarrow> n \<le> 6 \<Longrightarrow> {s..<s + 3} \<union> {s + n - 3..<s + n} = {s..<s + (n :: nat)}"
  "6 < n \<Longrightarrow> n \<le> 8 \<Longrightarrow> {s..<s + 4} \<union> {s + n - 4..<s + n} = {s..<s + (n :: nat)}"
  by auto

lemma ends_3: "2 < n \<Longrightarrow> {s..<s + 1} \<union> {s + n - 1..<s + n - 1 + 1} \<union> {s + 1..<s + 1 + 1} \<union> {s + 2..<s + 2 + 1} \<union>
    {s + n - 2..<s + n - 2 + 1} \<union> {s + n - 3..<s + n - 3 + 1} = {s..<s + 3} \<union> {s + n - 3..<s + (n :: nat)}"
  by auto

lemma ends_4: "6 < n \<Longrightarrow> {s..<s + 3} \<union> {s + n - 3..<s + n} \<union> {s + 3..<s + 3 + 1} \<union> {s + n - 4..<s + n - 4 + 1} =
    {s..<s + 4} \<union> {s + n - 4..<s + (n :: nat)}"
  by auto

lemma memset_filled:
  assumes "s + n \<le> 2 ^ 64"
  shows "memset m s c n = filled m s (word_of_int c) n"
proof -
  let ?c = "word_of_int c :: byte"
  have m3: "2 < n \<Longrightarrow> m(s := ?c, s + n - 1 := ?c, s + 1 := ?c, s + 2 := ?c, s + n - 2 := ?c, s + n - 3 := ?c) =
      fills m ({s..<s + 3} \<union> {s + n - 3..<s + n}) ?c"
    unfolding filled_one filled_fills fills_fills by (simp only: ends_3)
  have "6 < n \<Longrightarrow> (fills m ({s..<s + 3} \<union> {s + n - 3..<s + n}) ?c)(s + 3 := ?c, s + n - 4 := ?c) =
      fills m ({s..<s + 4} \<union> {s + n - 4..<s + n}) ?c"
    unfolding filled_one filled_fills fills_fills by (simp only: ends_4)
  with m3 have m4: "6 < n \<Longrightarrow> m(s := ?c, s + n - 1 := ?c, s + 1 := ?c, s + 2 := ?c, s + n - 2 := ?c, s + n - 3 := ?c, s + 3 := ?c, s + n - 4 := ?c) =
      fills m ({s..<s + 4} \<union> {s + n - 4..<s + n}) ?c" by simp
  show ?thesis
  proof (cases "n \<le> 8")
    case True
    consider "n = 0" | "0 < n" "n \<le> 2" | "2 < n" "n \<le> 6" | "6 < n" "n \<le> 8" using True by linarith
    then show ?thesis
    proof cases
      case 1
      then show ?thesis by (auto simp: memset_def filled_def fun_eq_iff)
    next
      case 2
      then have "m(s := ?c, s + n - 1 := ?c) = fills m {s..<s + n} ?c"
        unfolding filled_one filled_fills fills_fills by (simp only: ends_small(1))
      then show ?thesis using 2 unfolding memset_def Let_def filled_fills by simp
    next
      case 3
      then show ?thesis using m3 unfolding memset_def Let_def filled_fills by (simp add: ends_small)
    next
      case 4
      then show ?thesis using m4 unfolding memset_def Let_def filled_fills by (simp add: ends_small)
    qed
  next
    case False
    define k where "k = sub64 0 s mod 4"
    define l where "l = 4 * ((n - k) div 4)"
    have "k < 4" unfolding k_def by (rule mod_less_divisor) simp
    then have k: "k \<le> 3" by simp
    have l: "4 dvd l" "l \<le> n - k" "n - k < l + 4" unfolding l_def by simp_all
    have l0: "0 < l" using l(3) k False by linarith
    have c32: "(0xFFFFFFFF div 255 :: 32 word) = 0x1010101" by simp
    have "memset m s c n = memset_words (fills m ({s..<s + 4} \<union> {s + n - 4..<s + n}) ?c) (s + k) (0x1010101 * ucast ?c) l"
      using m4 False unfolding memset_def Let_def k_def[symmetric] l_def[symmetric] c32 by simp
    also have "\<dots> = fills m ({s..<s + 4} \<union> {s + n - 4..<s + n} \<union> {s + k..<s + k + l}) ?c"
      unfolding memset_words_filled[OF l(1) l0 refl] filled_fills fills_fills ..
    also have "{s..<s + 4} \<union> {s + n - 4..<s + n} \<union> {s + k..<s + k + l} = {s..<s + n}" using k l(2,3) False by auto
    finally show ?thesis by (simp add: filled_fills)
  qed
qed

section \<open>Properties\<close>

text \<open>
  C29: \<^verbatim>\<open>memmove\<close> copies the \<open>n\<close> bytes at \<open>s\<close> to \<open>d\<close> as they were before the call, however the
  two ranges overlap and whatever their alignment, and changes no other byte.
\<close>

theorem memmove_correct:
  assumes "d + n \<le> 2 ^ 64" and "s + n \<le> 2 ^ 64" and "n < 2 ^ 63"
  shows "memmove m d s n (d + i) = (if i < n then m (s + i) else m (d + i)) \<and> (a < d \<longrightarrow> memmove m d s n a = m a)"
  using memmove_copied[OF assms] by (simp add: copied_def)

theorem memmove_correct_witness:
  "memmove (\<lambda>a. word_of_nat a) 11 3 20 (11 + 19) = (22 :: byte) \<and> memmove (\<lambda>a. word_of_nat a) 11 3 20 10 = (10 :: byte)"
  using memmove_correct[of 11 20 3 "\<lambda>a. word_of_nat a" 19 10] by simp

text \<open>
  C30: \<^verbatim>\<open>memset\<close> writes the low byte of \<open>c\<close> to each of the \<open>n\<close> bytes at \<open>s\<close> and to no other
  byte, on all its paths: the short ones, the head and tail, the aligned middle.
\<close>

theorem memset_correct:
  assumes "s + n \<le> 2 ^ 64"
  shows "memset m s c n a = (if s \<le> a \<and> a < s + n then word_of_int c else m a)"
  using memset_filled[OF assms] by (simp add: filled_def)

theorem memset_correct_witness:
  "memset (\<lambda>a. word_of_nat a) 5 (-1) 70 74 = (255 :: byte) \<and> memset (\<lambda>a. word_of_nat a) 5 (-1) 70 75 = (75 :: byte)"
  using memset_correct[of 5 70 "\<lambda>a. word_of_nat a" "-1" 74] memset_correct[of 5 70 "\<lambda>a. word_of_nat a" "-1" 75] by simp

end
