(* ===== verification/C_String.thy ===== *)
theory C_String
  imports C_Mem
begin

text \<open>
  The string functions of the C library, \<^verbatim>\<open>libc/src/string/string.c\<close>, over the memory of the
  theory \<open>C_Mem\<close>. A loop that looks for the end of a string runs forever when there is none:
  it is a \<open>partial_function\<close> into \<open>option\<close>, and the properties state that it returns.
\<close>

section \<open>Words that contain a zero byte\<close>

definition ONES :: "64 word" where "ONES = (- 1) div 255"
definition HIGHS :: "64 word" where "HIGHS = ONES * (255 div 2 + 1)"
definition HASZERO :: "64 word \<Rightarrow> bool" where "HASZERO x \<longleftrightarrow> and (x - ONES) (and (not x) HIGHS) \<noteq> 0"

definition ALIGN :: nat where "ALIGN = 8"

section \<open>Length and copies\<close>

partial_function (option) strlen_head :: "cmem \<Rightarrow> nat \<Rightarrow> (bool \<times> nat) option" where
  "strlen_head m s = (if s mod ALIGN \<noteq> 0 then if m s = 0 then Some (True, s) else strlen_head m (s + 1) else Some (False, s))"

partial_function (option) skip_words :: "cmem \<Rightarrow> nat \<Rightarrow> nat option" where
  "skip_words m w = (if \<not> HASZERO (load64 m w) then skip_words m (w + 8) else Some w)"

partial_function (option) skip_bytes :: "cmem \<Rightarrow> nat \<Rightarrow> nat option" where
  "skip_bytes m s = (if m s \<noteq> 0 then skip_bytes m (s + 1) else Some s)"

definition strlen :: "cmem \<Rightarrow> nat \<Rightarrow> nat option" where
  "strlen m a =
     Option.bind (strlen_head m a) (\<lambda>(ret, s).
       if ret then Some (s - a)
       else Option.bind (skip_words m s) (\<lambda>s. Option.bind (skip_bytes m s) (\<lambda>s. Some (s - a))))"

text \<open>The loops of \<^verbatim>\<open>stpcpy\<close> and \<^verbatim>\<open>strcpy\<close>, which are the same: both return the end of the copy.\<close>

partial_function (option) cpy_head :: "cmem \<Rightarrow> nat \<Rightarrow> nat \<Rightarrow> (bool \<times> cmem \<times> nat \<times> nat) option" where
  "cpy_head m d s =
     (if s mod ALIGN \<noteq> 0
      then let m = m(d := m s) in if m d = 0 then Some (True, m, d, s) else cpy_head m (d + 1) (s + 1)
      else Some (False, m, d, s))"

partial_function (option) cpy_words :: "cmem \<Rightarrow> nat \<Rightarrow> nat \<Rightarrow> (cmem \<times> nat \<times> nat) option" where
  "cpy_words m d s =
     (if \<not> HASZERO (load64 m s) then cpy_words (store64 d (load64 m s) m) (d + 8) (s + 8) else Some (m, d, s))"

partial_function (option) cpy_bytes :: "cmem \<Rightarrow> nat \<Rightarrow> nat \<Rightarrow> (cmem \<times> nat) option" where
  "cpy_bytes m d s =
     (let m = m(d := m s) in if m d \<noteq> 0 then cpy_bytes m (d + 1) (s + 1) else Some (m, d))"

definition stpcpy :: "cmem \<Rightarrow> nat \<Rightarrow> nat \<Rightarrow> (cmem \<times> nat) option" where
  "stpcpy m d s =
     (if s mod ALIGN = d mod ALIGN
      then Option.bind (cpy_head m d s) (\<lambda>(ret, m, d, s).
             if ret then Some (m, d)
             else Option.bind (cpy_words m d s) (\<lambda>(m, d, s). cpy_bytes m d s))
      else cpy_bytes m d s)"

definition strcpy :: "cmem \<Rightarrow> nat \<Rightarrow> nat \<Rightarrow> (cmem \<times> nat) option" where
  "strcpy m d s =
     (if s mod ALIGN = d mod ALIGN
      then Option.bind (cpy_head m d s) (\<lambda>(ret, m, d, s).
             if ret then Some (m, d)
             else Option.bind (cpy_words m d s) (\<lambda>(m, d, s). cpy_bytes m d s))
      else cpy_bytes m d s)"

text \<open>
  \<^verbatim>\<open>strncpy\<close> tests \<^verbatim>\<open>& ALIGN\<close>, one bit of the address, where the other functions test
  \<^verbatim>\<open>% ALIGN\<close>.
\<close>

fun ncpy_head :: "cmem \<Rightarrow> nat \<Rightarrow> nat \<Rightarrow> nat \<Rightarrow> cmem \<times> nat \<times> nat \<times> nat" where
  "ncpy_head m d s n =
     (if and s ALIGN \<noteq> 0
      then (case n of 0 \<Rightarrow> (m, d, s, 0)
            | Suc n' \<Rightarrow> let m = m(d := m s) in if m d \<noteq> 0 then ncpy_head m (d + 1) (s + 1) n' else (m, d, s, n))
      else (m, d, s, n))"

function ncpy_words :: "cmem \<Rightarrow> nat \<Rightarrow> nat \<Rightarrow> nat \<Rightarrow> cmem \<times> nat \<times> nat \<times> nat" where
  "ncpy_words m d s n =
     (if n \<ge> 8 \<and> \<not> HASZERO (load64 m s) then ncpy_words (store64 d (load64 m s) m) (d + 8) (s + 8) (n - 8) else (m, d, s, n))"
  by auto
termination by (relation "measure (\<lambda>(m, d, s, n). n)") auto

fun ncpy_bytes :: "cmem \<Rightarrow> nat \<Rightarrow> nat \<Rightarrow> nat \<Rightarrow> cmem \<times> nat \<times> nat" where
  "ncpy_bytes m d s 0 = (m, d, 0)"
| "ncpy_bytes m d s (Suc n) = (let m = m(d := m s) in if m d \<noteq> 0 then ncpy_bytes m (d + 1) (s + 1) n else (m, d, Suc n))"

definition ncpy_tail :: "cmem \<times> nat \<times> nat \<Rightarrow> cmem \<times> nat" where
  "ncpy_tail = (\<lambda>(m, d, n). (memset m d 0 n, d))"

definition strncpy :: "cmem \<Rightarrow> nat \<Rightarrow> nat \<Rightarrow> nat \<Rightarrow> cmem \<times> nat" where
  "strncpy m d s n =
     (if and s ALIGN = and d ALIGN
      then case ncpy_head m d s n of (m, d, s, n) \<Rightarrow>
             if n = 0 \<or> m s = 0 then ncpy_tail (m, d, n)
             else case ncpy_words m d s n of (m, d, s, n) \<Rightarrow> ncpy_tail (ncpy_bytes m d s n)
      else ncpy_tail (ncpy_bytes m d s n))"

declare ncpy_head.simps [simp del] ncpy_words.simps [simp del]

definition strcat :: "cmem \<Rightarrow> nat \<Rightarrow> nat \<Rightarrow> (cmem \<times> nat) option" where
  "strcat m dest src =
     Option.bind (strlen m dest) (\<lambda>l. Option.bind (strcpy m (dest + l) src) (\<lambda>(m, _). Some (m, dest)))"

fun ncat_bytes :: "cmem \<Rightarrow> nat \<Rightarrow> nat \<Rightarrow> nat \<Rightarrow> cmem \<times> nat" where
  "ncat_bytes m d s 0 = (m, d)"
| "ncat_bytes m d s (Suc n) = (if m s \<noteq> 0 then ncat_bytes (m(d := m s)) (d + 1) (s + 1) n else (m, d))"

definition strncat :: "cmem \<Rightarrow> nat \<Rightarrow> nat \<Rightarrow> nat \<Rightarrow> (cmem \<times> nat) option" where
  "strncat m a s n =
     Option.bind (strlen m a) (\<lambda>l. case ncat_bytes m (a + l) s n of (m, d) \<Rightarrow> Some (m(d := 0), a))"

text \<open>\<^verbatim>\<open>strnlen\<close> truncates the length to \<^verbatim>\<open>unsigned int\<close>.\<close>

fun nlen_loop :: "cmem \<Rightarrow> nat \<Rightarrow> nat \<Rightarrow> nat" where
  "nlen_loop m s 0 = s"
| "nlen_loop m s (Suc n) = (if m s \<noteq> 0 then nlen_loop m (s + 1) n else s)"

definition strnlen :: "cmem \<Rightarrow> nat \<Rightarrow> nat \<Rightarrow> nat" where
  "strnlen m str maxsize = (nlen_loop m str maxsize - str) mod 2 ^ 32"

definition strdup :: "(nat \<Rightarrow> nat) \<Rightarrow> cmem \<Rightarrow> nat \<Rightarrow> (cmem \<times> nat) option" where
  "strdup malloc m s = Option.bind (strlen m s) (\<lambda>l. Some (memcpy m (malloc (l + 1)) s (l + 1), malloc (l + 1)))"

section \<open>Searching and comparing\<close>

text \<open>A \<^verbatim>\<open>char\<close> is signed when it is promoted to \<^verbatim>\<open>int\<close>, an \<^verbatim>\<open>unsigned char\<close> is not.\<close>

partial_function (option) rchr_loop :: "cmem \<Rightarrow> nat \<Rightarrow> int \<Rightarrow> nat option \<Rightarrow> nat option option" where
  "rchr_loop m str ch found =
     (if m str \<noteq> 0 then rchr_loop m (str + 1) ch (if sint (m str) = ch then Some str else found) else Some found)"

definition strrchr :: "cmem \<Rightarrow> nat \<Rightarrow> int \<Rightarrow> nat option option" where
  "strrchr m str ch = rchr_loop m str ch None"

partial_function (option) chr_loop :: "cmem \<Rightarrow> nat \<Rightarrow> byte \<Rightarrow> nat option" where
  "chr_loop m s c = (if m s \<noteq> 0 \<and> m s \<noteq> c then chr_loop m (s + 1) c else Some s)"

definition strchr :: "cmem \<Rightarrow> nat \<Rightarrow> int \<Rightarrow> nat option option" where
  "strchr m s c =
     (let c = word_of_int c
      in if c = 0 then Option.bind (strlen m s) (\<lambda>l. Some (Some (s + l)))
         else Option.bind (chr_loop m s c) (\<lambda>r. Some (if m r = c then Some r else None)))"

partial_function (option) strcmp :: "cmem \<Rightarrow> nat \<Rightarrow> nat \<Rightarrow> int option" where
  "strcmp m l r = (if m l = m r \<and> m l \<noteq> 0 then strcmp m (l + 1) (r + 1) else Some (uint (m l) - uint (m r)))"

fun ncmp_loop :: "cmem \<Rightarrow> nat \<Rightarrow> nat \<Rightarrow> nat \<Rightarrow> int" where
  "ncmp_loop m l r 0 = uint (m l) - uint (m r)"
| "ncmp_loop m l r (Suc n) = (if m l \<noteq> 0 \<and> m r \<noteq> 0 \<and> m l = m r then ncmp_loop m (l + 1) (r + 1) n else uint (m l) - uint (m r))"

definition strncmp :: "cmem \<Rightarrow> nat \<Rightarrow> nat \<Rightarrow> nat \<Rightarrow> int" where
  "strncmp m l r n = (case n of 0 \<Rightarrow> 0 | Suc n \<Rightarrow> ncmp_loop m l r n)"

definition strcoll :: "cmem \<Rightarrow> nat \<Rightarrow> nat \<Rightarrow> int option" where
  "strcoll m s1 s2 = strcmp m s1 s2"

text \<open>The byte sets of \<^verbatim>\<open>strspn\<close> and \<^verbatim>\<open>strcspn\<close>, four 64-bit words, with \<^verbatim>\<open>BITOP\<close> for \<^verbatim>\<open>|=\<close> and \<^verbatim>\<open>&\<close>.\<close>

definition bitop_or :: "(nat \<Rightarrow> 64 word) \<Rightarrow> byte \<Rightarrow> nat \<Rightarrow> 64 word" where
  "bitop_or bs b = bs(unat b div 64 := or (bs (unat b div 64)) (push_bit (unat b mod 64) 1))"

definition bitop_and :: "(nat \<Rightarrow> 64 word) \<Rightarrow> byte \<Rightarrow> bool" where
  "bitop_and bs b \<longleftrightarrow> and (bs (unat b div 64)) (push_bit (unat b mod 64) 1) \<noteq> 0"

partial_function (option) fill_set :: "cmem \<Rightarrow> nat \<Rightarrow> (nat \<Rightarrow> 64 word) \<Rightarrow> (nat \<Rightarrow> 64 word) option" where
  "fill_set m c bs = (if m c \<noteq> 0 then fill_set m (c + 1) (bitop_or bs (m c)) else Some bs)"

partial_function (option) span_byte :: "cmem \<Rightarrow> nat \<Rightarrow> byte \<Rightarrow> nat option" where
  "span_byte m s c = (if m s = c then span_byte m (s + 1) c else Some s)"

partial_function (option) span_set :: "cmem \<Rightarrow> nat \<Rightarrow> bool \<Rightarrow> (nat \<Rightarrow> 64 word) \<Rightarrow> nat option" where
  "span_set m s inside bs = (if m s \<noteq> 0 \<and> bitop_and bs (m s) = inside then span_set m (s + 1) inside bs else Some s)"

definition strspn :: "cmem \<Rightarrow> nat \<Rightarrow> nat \<Rightarrow> nat option" where
  "strspn m a c =
     (if m c = 0 then Some 0
      else if m (c + 1) = 0 then Option.bind (span_byte m a (m c)) (\<lambda>s. Some (s - a))
      else Option.bind (fill_set m c (\<lambda>_. 0)) (\<lambda>bs. Option.bind (span_set m a True bs) (\<lambda>s. Some (s - a))))"

partial_function (option) chrnul_head :: "cmem \<Rightarrow> nat \<Rightarrow> byte \<Rightarrow> (bool \<times> nat) option" where
  "chrnul_head m s c =
     (if s mod ALIGN \<noteq> 0 then if m s = 0 \<or> m s = c then Some (True, s) else chrnul_head m (s + 1) c else Some (False, s))"

partial_function (option) chrnul_words :: "cmem \<Rightarrow> nat \<Rightarrow> 64 word \<Rightarrow> nat option" where
  "chrnul_words m w k =
     (if \<not> HASZERO (load64 m w) \<and> \<not> HASZERO (xor (load64 m w) k) then chrnul_words m (w + 8) k else Some w)"

definition strchrnul :: "cmem \<Rightarrow> nat \<Rightarrow> int \<Rightarrow> nat option" where
  "strchrnul m s c =
     (let c = word_of_int c :: byte
      in if c = 0 then Option.bind (strlen m s) (\<lambda>l. Some (s + l))
         else Option.bind (chrnul_head m s c) (\<lambda>(ret, s).
           if ret then Some s
           else Option.bind (chrnul_words m s (ONES * ucast c)) (\<lambda>s. chr_loop m s c)))"

definition strcspn :: "cmem \<Rightarrow> nat \<Rightarrow> nat \<Rightarrow> nat option" where
  "strcspn m a c =
     (if m c \<noteq> 0 \<and> m (c + 1) \<noteq> 0
      then Option.bind (fill_set m c (\<lambda>_. 0)) (\<lambda>bs. Option.bind (span_set m a False bs) (\<lambda>s. Some (s - a)))
      else Option.bind (strchrnul m a (sint (m c))) (\<lambda>s. Some (s - a)))"

definition strpbrk :: "cmem \<Rightarrow> nat \<Rightarrow> nat \<Rightarrow> nat option option" where
  "strpbrk m s b = Option.bind (strcspn m s b) (\<lambda>l. Some (if m (s + l) \<noteq> 0 then Some (s + l) else None))"

text \<open>\<^verbatim>\<open>strtok_r\<close> returns the token, if any, with the memory and the saved pointer.\<close>

definition strtok_r :: "cmem \<Rightarrow> nat option \<Rightarrow> nat \<Rightarrow> nat \<Rightarrow> (nat option \<times> cmem \<times> nat) option" where
  "strtok_r m str delim saveptr =
     (let str = (case str of None \<Rightarrow> saveptr | Some s \<Rightarrow> s)
      in Option.bind (strspn m str delim) (\<lambda>k.
        let str = str + k
        in if m str = 0 then Some (None, m, str)
           else let token = str
                in Option.bind (strpbrk m token delim) (\<lambda>str.
                     case str of
                       None \<Rightarrow> Option.bind (strchr m token 0) (\<lambda>e. Some (Some token, m, case e of None \<Rightarrow> 0 | Some e \<Rightarrow> e))
                     | Some str \<Rightarrow> Some (Some token, m(str := 0), str + 1))))"

text \<open>\<^verbatim>\<open>strtok\<close> keeps the saved pointer in a static variable.\<close>

definition strtok :: "cmem \<Rightarrow> nat option \<Rightarrow> nat \<Rightarrow> nat \<Rightarrow> (nat option \<times> cmem \<times> nat) option" where
  "strtok m str delim saveptr =
     (let saveptr = (if str \<noteq> None then 0 else saveptr) in strtok_r m str delim saveptr)"

section \<open>Characters and numbers\<close>

definition isspace :: "int \<Rightarrow> bool" where "isspace c \<longleftrightarrow> c = 12 \<or> c = 10 \<or> c = 13 \<or> c = 9 \<or> c = 11 \<or> c = 32"
definition isdigit :: "int \<Rightarrow> bool" where "isdigit c \<longleftrightarrow> c \<ge> 48 \<and> c \<le> 57"
definition isalpha :: "int \<Rightarrow> bool" where "isalpha c \<longleftrightarrow> (c \<ge> 65 \<and> c \<le> 90) \<or> (c \<ge> 97 \<and> c \<le> 122)"
definition tolower :: "int \<Rightarrow> int" where "tolower c = (if c \<ge> 65 \<and> c \<le> 90 then c - 65 + 97 else c)"
definition toupper :: "int \<Rightarrow> int" where "toupper c = (if c \<ge> 97 \<and> c \<le> 122 then c - 97 + 65 else c)"
definition isblank :: "int \<Rightarrow> bool" where "isblank c \<longleftrightarrow> c = 32 \<or> c = 9"
definition isascii :: "int \<Rightarrow> bool" where "isascii c \<longleftrightarrow> c \<le> 127"
definition isalnum :: "int \<Rightarrow> bool" where "isalnum c \<longleftrightarrow> isalpha c \<or> isdigit c"
definition isupper :: "int \<Rightarrow> bool" where "isupper c \<longleftrightarrow> c \<ge> 65 \<and> c \<le> 90"
definition islower :: "int \<Rightarrow> bool" where "islower c \<longleftrightarrow> c \<ge> 97 \<and> c \<le> 122"
definition isgraph :: "int \<Rightarrow> bool" where "isgraph c \<longleftrightarrow> c \<ge> 33 \<and> c \<le> 126"
definition isprint :: "int \<Rightarrow> bool" where "isprint c \<longleftrightarrow> isgraph c \<or> c = 32"
definition ispunct :: "int \<Rightarrow> bool" where "ispunct c \<longleftrightarrow> isgraph c \<and> \<not> isalnum c"
definition iscntrl :: "int \<Rightarrow> bool" where "iscntrl c \<longleftrightarrow> (c \<ge> 0 \<and> c \<le> 31) \<or> c = 127"
definition isxdigit :: "int \<Rightarrow> bool" where
  "isxdigit c \<longleftrightarrow> (c \<ge> 48 \<and> c \<le> 57) \<or> (c \<ge> 97 \<and> c \<le> 102) \<or> (c \<ge> 65 \<and> c \<le> 70)"

text \<open>The accumulators of \<^verbatim>\<open>atoi\<close> and of \<^verbatim>\<open>atol\<close> are 32-bit \<^verbatim>\<open>int\<close>s; they are computed modulo $2^{32}$.\<close>

definition wrap32 :: "int \<Rightarrow> int" where "wrap32 x = (x + 2 ^ 31) mod 2 ^ 32 - 2 ^ 31"

partial_function (option) skip_space :: "cmem \<Rightarrow> nat \<Rightarrow> nat option" where
  "skip_space m s = (if isspace (sint (m s)) then skip_space m (s + 1) else Some s)"

partial_function (option) atoi_loop :: "cmem \<Rightarrow> nat \<Rightarrow> int \<Rightarrow> int option" where
  "atoi_loop m s n =
     (if isdigit (sint (m s)) then atoi_loop m (s + 1) (wrap32 (10 * n - (sint (m s) - 48))) else Some n)"

definition atoi :: "cmem \<Rightarrow> nat \<Rightarrow> int option" where
  "atoi m s =
     Option.bind (skip_space m s) (\<lambda>s.
       let neg = (m s = 45);
           s = (if m s = 45 \<or> m s = 43 then s + 1 else s)
       in Option.bind (atoi_loop m s 0) (\<lambda>n. Some (if neg then n else wrap32 (- n))))"

definition atol :: "cmem \<Rightarrow> nat \<Rightarrow> int option" where
  "atol m s =
     Option.bind (skip_space m s) (\<lambda>s.
       let neg = (m s = 45);
           s = (if m s = 45 \<or> m s = 43 then s + 1 else s)
       in Option.bind (atoi_loop m s 0) (\<lambda>n. Some (if neg then n else wrap32 (- n))))"

definition foldcase :: "byte \<Rightarrow> byte" where
  "foldcase ch = (if isalpha (sint ch) then word_of_int (tolower (sint ch)) else ch)"

partial_function (option) strcasecmp :: "cmem \<Rightarrow> nat \<Rightarrow> nat \<Rightarrow> int option" where
  "strcasecmp m s1 s2 =
     (if foldcase (m s1) = foldcase (m s2)
      then if m s1 = 0 then Some 0 else strcasecmp m (s1 + 1) (s2 + 1)
      else Some (if sint (foldcase (m s1)) < sint (foldcase (m s2)) then -1 else 1))"

fun strncasecmp :: "cmem \<Rightarrow> nat \<Rightarrow> nat \<Rightarrow> nat \<Rightarrow> int" where
  "strncasecmp m s1 s2 0 = 0"
| "strncasecmp m s1 s2 (Suc n) =
     (if foldcase (m s1) \<noteq> foldcase (m s2) then sint (foldcase (m s1)) - sint (foldcase (m s2))
      else if m s1 = 0 then 0
      else strncasecmp m (s1 + 1) (s2 + 1) n)"

text \<open>The position of the lowest set bit, with a de Bruijn sequence.\<close>

definition debruijn64 :: "nat list" where
  "debruijn64 =
     [0, 1, 2, 53, 3, 7, 54, 27, 4, 38, 41, 8, 34, 55, 48, 28, 62, 5, 39, 46, 44, 42,
      22, 9, 24, 35, 59, 56, 49, 18, 29, 11, 63, 52, 6, 26, 37, 40, 33, 47, 61, 45, 43, 21,
      23, 58, 17, 10, 51, 25, 36, 32, 60, 20, 57, 16, 50, 31, 19, 15, 30, 14, 13, 12]"

definition a_ctz_64 :: "64 word \<Rightarrow> nat" where
  "a_ctz_64 x = debruijn64 ! unat (drop_bit 58 (and x (- x) * 0x022fdd63cc95386d))"

definition debruijn32 :: "nat list" where
  "debruijn32 =
     [0, 1, 23, 2, 29, 24, 19, 3, 30, 27, 25, 11, 20, 8, 4, 13, 31, 22, 28, 18, 26, 10,
      7, 12, 21, 17, 9, 6, 16, 5, 15, 14]"

definition a_ctz_32 :: "32 word \<Rightarrow> nat" where
  "a_ctz_32 x = debruijn32 ! unat (drop_bit 27 (and x (- x) * 0x076be629))"

text \<open>\<^verbatim>\<open>sizeof(long)\<close> is 8.\<close>

definition a_ctz_l :: "64 word \<Rightarrow> nat" where
  "a_ctz_l x = a_ctz_64 x"

definition ffs :: "32 word \<Rightarrow> nat" where
  "ffs i = (if i \<noteq> 0 then a_ctz_l (scast i) + 1 else 0)"

end
