(* ===== verification/C_String_Copy.thy ===== *)
theory C_String_Copy
  imports C_String
begin

text \<open>
  Lengths and copies of strings. The word-at-a-time loops stop at the right word because
  \<^verbatim>\<open>HASZERO\<close> finds exactly the words with a zero byte (\<open>HASZERO_bytes\<close>); \<open>cstring m a xs\<close> says that
  the string \<open>xs\<close> lies at \<open>a\<close>.
\<close>

section \<open>The word trick\<close>

fun ones :: "nat \<Rightarrow> int" where
  "ones 0 = 0"
| "ones (Suc k) = 1 + 256 * ones k"

definition hz :: "nat \<Rightarrow> int \<Rightarrow> int" where
  "hz k x = and (x - ones k) (and (not x) (128 * ones k))"

lemma split_8: "(x :: int) = 0 \<longleftrightarrow> take_bit 8 x = 0 \<and> drop_bit 8 x = 0"
  using bits_ident[of 8 x] by auto

lemma drop_8: "drop_bit 8 (x :: int) = x div 256" by (simp add: drop_bit_eq_div)
lemma take_8: "take_bit 8 (x :: int) = x mod 256" by (simp add: take_bit_eq_mod)

lemma highs_low: "take_bit 8 (128 * ones (Suc k)) = 128"
proof -
  have "128 * ones (Suc k) = 128 + 256 * (128 * ones k)" by simp
  then show ?thesis unfolding take_8 by (simp only: mod_mult_self2) simp
qed

lemma highs_high: "drop_bit 8 (128 * ones (Suc k)) = 128 * ones k"
proof -
  have "128 * ones (Suc k) = 128 + 256 * (128 * ones k)" by simp
  then show ?thesis unfolding drop_8 by simp
qed

lemma drop_not: "drop_bit 8 (not x) = not (drop_bit 8 (x :: int))"
  by (rule bit_eqI) (simp add: bit_simps)

lemma hz_low: "take_bit 8 (hz (Suc k) x) = (if bit (x - ones (Suc k)) 7 \<and> \<not> bit x 7 then 128 else 0)"
proof -
  have "take_bit 8 (hz (Suc k) x) = and (take_bit 8 (x - ones (Suc k))) (and (take_bit 8 (not x)) 128)"
    unfolding hz_def take_bit_and highs_low ..
  also have "\<dots> = (if bit (x - ones (Suc k)) 7 \<and> \<not> bit x 7 then 2 ^ 7 else 0)"
  proof (rule bit_eqI)
    fix n
    have "bit (128 :: int) n \<longleftrightarrow> n = 7" using bit_exp_iff[where ?'a = int, of 7 n] by simp
    then show "bit (and (take_bit 8 (x - ones (Suc k))) (and (take_bit 8 (not x)) 128)) n =
        bit (if bit (x - ones (Suc k)) 7 \<and> \<not> bit x 7 then 2 ^ 7 else 0 :: int) n"
      by (auto simp: bit_simps)
  qed
  finally show ?thesis by simp
qed

lemma bit_7: "bit (x :: int) 7 \<longleftrightarrow> 128 \<le> x mod 256"
proof -
  have "bit x 7 = bit (take_bit 8 x) 7" by (simp add: bit_simps)
  also have "\<dots> \<longleftrightarrow> odd (x mod 256 div 128)" by (simp add: take_8 bit_iff_odd)
  also have "\<dots> \<longleftrightarrow> 128 \<le> x mod 256"
  proof -
    have b: "0 \<le> x mod 256" "x mod 256 < 256" by simp_all
    show ?thesis
    proof (cases "128 \<le> x mod 256")
      case True
      then have "x mod 256 div 128 = 1" using b by (intro int_div_pos_eq[where r = "x mod 256 - 128"]) auto
      then show ?thesis using True by simp
    next
      case False
      then have "x mod 256 div 128 = 0" using b by simp
      then show ?thesis using False by simp
    qed
  qed
  finally show ?thesis .
qed

lemma hz_step: "hz (Suc k) x = 0 \<longleftrightarrow> x mod 256 \<noteq> 0 \<and> hz k (x div 256) = 0"
proof -
  let ?A = "x - ones (Suc k)" and ?b = "x mod 256" and ?y = "x div 256"
  have x: "x = ?b + 256 * ?y" and b: "0 \<le> ?b" "?b < 256" by simp_all
  show ?thesis
  proof (cases "?b = 0")
    case True
    have "?A = 255 + 256 * (?y - ones k - 1)" using x True by simp
    then have "?A mod 256 = 255" by (simp only: mod_mult_self2) simp
    then have "take_bit 8 (hz (Suc k) x) = 128" unfolding hz_low bit_7 using True by simp
    then show ?thesis using True split_8[of "hz (Suc k) x"] by auto
  next
    case False
    have A: "?A = (?b - 1) + 256 * (?y - ones k)" using x by simp
    have "?A mod 256 = (?b - 1) mod 256" unfolding A by (rule mod_mult_self2)
    then have Am: "?A mod 256 = ?b - 1" using b False by simp
    have "?A div 256 = (?y - ones k) + (?b - 1) div 256" unfolding A by (rule div_mult_self2) simp
    then have Ad: "drop_bit 8 ?A = ?y - ones k" using b False by (simp add: drop_8)
    have "take_bit 8 (hz (Suc k) x) = 0" unfolding hz_low bit_7 Am by simp
    moreover have "drop_bit 8 (hz (Suc k) x) = hz k ?y"
      unfolding hz_def drop_bit_and Ad highs_high drop_not by (simp add: drop_8)
    ultimately show ?thesis using False split_8[of "hz (Suc k) x"] by auto
  qed
qed

lemma hz_zero: "hz k x = 0 \<longleftrightarrow> (\<forall>i < k. x div 256 ^ i mod 256 \<noteq> 0)"
proof (induction k arbitrary: x)
  case 0
  then show ?case by (simp add: hz_def)
next
  case (Suc k)
  have "(\<forall>i < Suc k. x div 256 ^ i mod 256 \<noteq> 0) \<longleftrightarrow> x mod 256 \<noteq> 0 \<and> (\<forall>i < k. x div 256 div 256 ^ i mod 256 \<noteq> 0)"
    by (simp add: All_less_Suc2 div_mult2_eq[symmetric] zdiv_zmult2_eq)
  then show ?case using Suc by (simp add: hz_step)
qed

lemma ones_8: "ones 8 = 0x101010101010101"
  by (simp add: eval_nat_numeral)

lemma ONES_eq: "ONES = 0x101010101010101"
  by (simp add: ONES_def)

lemma HIGHS_eq: "HIGHS = 0x8080808080808080"
  by (simp add: HIGHS_def ONES_eq)

lemma take_bit_eq_self_bits: "(\<And>n. bit (x :: int) n \<Longrightarrow> n < k) \<Longrightarrow> take_bit k x = x"
  by (rule bit_eqI) (auto simp: bit_take_bit_iff)

lemma HASZERO_hz: "HASZERO x \<longleftrightarrow> hz 8 (uint x) \<noteq> 0"
proof -
  have H: "take_bit 64 (0x8080808080808080 :: int) = 0x8080808080808080" by simp
  have "uint (and (x - ONES) (and (not x) HIGHS)) =
      and (take_bit 64 (uint x - 0x101010101010101)) (and (take_bit 64 (not (uint x))) 0x8080808080808080)"
    unfolding ONES_eq HIGHS_eq by (simp add: unsigned_and_eq unsigned_not_eq uint_word_ariths take_bit_eq_mod)
  also have "\<dots> = take_bit 64 (and (uint x - 0x101010101010101) (and (not (uint x)) 0x8080808080808080))"
    by (simp only: take_bit_and H)
  also have "\<dots> = and (uint x - 0x101010101010101) (and (not (uint x)) 0x8080808080808080)"
  proof (rule take_bit_eq_self_bits)
    fix n assume "bit (and (uint x - 0x101010101010101) (and (not (uint x)) 0x8080808080808080)) n"
    then have "bit (0x8080808080808080 :: int) n" by (simp add: bit_simps)
    then have "bit (take_bit 64 (0x8080808080808080 :: int)) n" by (simp only: H)
    then show "n < 64" unfolding bit_take_bit_iff by blast
  qed
  finally have "uint (and (x - ONES) (and (not x) HIGHS)) = hz 8 (uint x)" by (simp add: hz_def ones_8)
  then show ?thesis unfolding HASZERO_def using unsigned_eq_0_iff[of "and (x - ONES) (and (not x) HIGHS)", where ?'a = int] by simp
qed

lemma take_uint: "take_bit 64 (uint (w :: 64 word)) = uint w"
  by (rule bit_eqI) (auto simp: bit_take_bit_iff bit_uint_iff)

lemma HASZERO_bytes: "HASZERO (load64 m a) \<longleftrightarrow> (\<exists>i < 8. m (a + i) = 0)"
proof -
  have "uint (load64 m a) div 256 ^ i mod 256 = uint (m (a + i))" if "i < 8" for i
  proof -
    have "uint (m (a + i)) = uint (ucast (drop_bit (8 * i) (load64 m a)) :: byte)" by (simp only: byte_of_load[OF that])
    also have "\<dots> = take_bit 8 (drop_bit (8 * i) (uint (load64 m a)))"
      by (simp add: unsigned_ucast_eq unsigned_drop_bit_eq take_uint)
    also have "\<dots> = uint (load64 m a) div 256 ^ i mod 256" by (simp add: take_bit_eq_mod drop_bit_eq_div power_mult)
    finally show ?thesis by simp
  qed
  then have "HASZERO (load64 m a) \<longleftrightarrow> (\<exists>i < 8. uint (m (a + i)) = 0)" by (auto simp: HASZERO_hz hz_zero)
  then show ?thesis by (simp add: unsigned_eq_0_iff)
qed

section \<open>Strings\<close>

text \<open>The string at an address: its bytes, none of them zero, and the byte that ends it.\<close>

definition cstring :: "cmem \<Rightarrow> nat \<Rightarrow> byte list \<Rightarrow> bool" where
  "cstring m a xs \<longleftrightarrow> (\<forall>i < length xs. m (a + i) = xs ! i) \<and> m (a + length xs) = 0 \<and> 0 \<notin> set xs"

lemma cstring_step: "cstring m a (x # xs) \<longleftrightarrow> m a = x \<and> x \<noteq> 0 \<and> cstring m (a + 1) xs"
  by (auto simp: cstring_def nth_Cons split: nat.splits)

lemma cstring_end: "cstring m a [] \<longleftrightarrow> m a = 0"
  by (simp add: cstring_def)

lemma cstring_drop: "cstring m a xs \<Longrightarrow> k \<le> length xs \<Longrightarrow> cstring m (a + k) (drop k xs)"
  by (auto simp: cstring_def add.assoc dest: in_set_dropD)

lemma cstring_zero: "cstring m a xs \<Longrightarrow> i \<le> length xs \<Longrightarrow> m (a + i) = 0 \<longleftrightarrow> i = length xs"
  unfolding cstring_def le_less by (metis nth_mem)

lemma strlen_head_ok:
  "cstring m s xs \<Longrightarrow> \<exists>k \<le> length xs. strlen_head m s = Some (True, s + length xs) \<or> strlen_head m s = Some (False, s + k)"
proof (induction xs arbitrary: s)
  case Nil
  then show ?case by (subst (1 2) strlen_head.simps) (auto simp: cstring_end)
next
  case (Cons x xs)
  show ?case
  proof (cases "s mod ALIGN = 0")
    case True
    then show ?thesis by (intro exI[of _ 0]) (simp add: strlen_head.simps)
  next
    case False
    have "m s \<noteq> 0" "cstring m (s + 1) xs" using Cons.prems by (auto simp: cstring_step)
    then obtain k where "k \<le> length xs" "strlen_head m (s + 1) = Some (True, s + 1 + length xs) \<or> strlen_head m (s + 1) = Some (False, s + 1 + k)"
      using Cons.IH by blast
    moreover have "strlen_head m s = strlen_head m (s + 1)" using False \<open>m s \<noteq> 0\<close> by (subst strlen_head.simps) simp
    ultimately show ?thesis by (intro exI[of _ "Suc k"]) auto
  qed
qed

lemma word_full: "cstring m s xs \<Longrightarrow> \<not> HASZERO (load64 m s) \<Longrightarrow> 8 \<le> length xs"
  using cstring_zero[of m s xs "length xs"] by (auto simp: HASZERO_bytes not_less[symmetric])

lemma skip_words_ok: "cstring m s xs \<Longrightarrow> \<exists>k \<le> length xs. skip_words m s = Some (s + k)"
proof (induction "length xs" arbitrary: s xs rule: less_induct)
  case less
  show ?case
  proof (cases "HASZERO (load64 m s)")
    case True
    then show ?thesis by (intro exI[of _ 0]) (simp add: skip_words.simps)
  next
    case False
    have l: "8 \<le> length xs" using word_full[OF less.prems False] .
    have "\<exists>k \<le> length (drop 8 xs). skip_words m (s + 8) = Some (s + 8 + k)"
      using less.hyps[of "drop 8 xs" "s + 8"] cstring_drop[OF less.prems l] l by simp
    then obtain k where "k \<le> length xs - 8" "skip_words m (s + 8) = Some (s + 8 + k)" by auto
    then show ?thesis using False l by (intro exI[of _ "8 + k"]) (simp add: skip_words.simps[of m s] add.assoc)
  qed
qed

lemma skip_bytes_ok: "cstring m s xs \<Longrightarrow> skip_bytes m s = Some (s + length xs)"
proof (induction xs arbitrary: s)
  case Nil
  then show ?case by (subst skip_bytes.simps) (simp add: cstring_end)
next
  case (Cons x xs)
  then show ?case by (subst skip_bytes.simps) (simp add: cstring_step)
qed

lemma strlen_ok:
  assumes "cstring m a xs"
  shows "strlen m a = Some (length xs)"
proof -
  obtain k where k: "k \<le> length xs" "strlen_head m a = Some (True, a + length xs) \<or> strlen_head m a = Some (False, a + k)"
    using strlen_head_ok[OF assms] by blast
  obtain j where j: "j \<le> length xs - k" "skip_words m (a + k) = Some (a + k + j)"
    using skip_words_ok[OF cstring_drop[OF assms k(1)]] by auto
  have "skip_bytes m (a + k + j) = Some (a + length xs)"
    using skip_bytes_ok[OF cstring_drop[OF assms, of "k + j"]] k(1) j(1) by (simp add: add.assoc)
  then show ?thesis using k(2) j(2) by (auto simp: strlen_def)
qed

section \<open>Copying strings\<close>

definition apart_by :: "nat \<Rightarrow> nat \<Rightarrow> nat \<Rightarrow> bool" where
  "apart_by d s n \<longleftrightarrow> d + n < s \<or> s + n < d"

lemma copied_apart: "apart_by d s (j + k - 1) \<or> j + k = 0 \<Longrightarrow> copied (copied m d s j) (d + j) (s + j) k = copied m d s (j + k)"
  by (auto simp: apart_by_def copied_def fun_eq_iff)

lemma copied_first [simp]: "copied m d s (Suc n) d = m s"
  by (simp add: copied_def)

lemma cstring_copied:
  assumes "cstring m s xs" and "apart_by d s (length xs)" and "k \<le> length xs + 1"
  shows "cstring (copied m d s k) s xs"
  using assms by (auto simp: cstring_def copied_def apart_by_def)

lemma apart_by_shift: "apart_by d s n \<Longrightarrow> k \<le> n \<Longrightarrow> apart_by (d + k) (s + k) (n - k)"
  by (auto simp: apart_by_def)

text \<open>One step of a copy that moves \<open>j\<close> bytes: what remains is again a string to copy.\<close>

lemma copy_step:
  assumes "cstring m s xs" and "apart_by d s (length xs)" and "j \<le> length xs"
  shows "cstring (copied m d s j) (s + j) (drop j xs)" and "apart_by (d + j) (s + j) (length (drop j xs))"
    and "k \<le> length (drop j xs) + 1 \<Longrightarrow> copied (copied m d s j) (d + j) (s + j) k = copied m d s (j + k)"
proof -
  show "cstring (copied m d s j) (s + j) (drop j xs)"
    using cstring_drop[OF cstring_copied[OF assms(1,2)], of j j] assms(3) by simp
  show "apart_by (d + j) (s + j) (length (drop j xs))" using apart_by_shift[OF assms(2,3)] by simp
  show "copied (copied m d s j) (d + j) (s + j) k = copied m d s (j + k)" if "k \<le> length (drop j xs) + 1"
    using assms(2,3) that by (intro copied_apart) (auto simp: apart_by_def)
qed

lemma cpy_bytes_ok:
  "cstring m s xs \<Longrightarrow> apart_by d s (length xs) \<Longrightarrow> cpy_bytes m d s = Some (copied m d s (length xs + 1), d + length xs)"
proof (induction xs arbitrary: m d s)
  case Nil
  then show ?case using copied_one[of m d s] by (subst cpy_bytes.simps) (simp add: cstring_end Let_def)
next
  case (Cons x xs)
  note st = copy_step[OF Cons.prems, of 1]
  have "m s \<noteq> 0" using Cons.prems(1) by (simp add: cstring_step)
  then have "cpy_bytes m d s = cpy_bytes (copied m d s 1) (d + 1) (s + 1)"
    by (subst cpy_bytes.simps) (simp add: copied_one)
  also have "\<dots> = Some (copied (copied m d s 1) (d + 1) (s + 1) (length xs + 1), d + 1 + length xs)"
    using st(1,2) by (intro Cons.IH) simp_all
  finally show ?case using st(3)[of "length xs + 1"] by simp
qed

lemma shorter: "8 \<le> length xs \<Longrightarrow> length (drop 8 xs) < length xs"
  by (cases xs) auto

lemma cpy_words_ok:
  "cstring m s xs \<Longrightarrow> apart_by d s (length xs) \<Longrightarrow> \<exists>k \<le> length xs. cpy_words m d s = Some (copied m d s k, d + k, s + k)"
proof (induction "length xs" arbitrary: m d s xs rule: less_induct)
  case less
  show ?case
  proof (cases "HASZERO (load64 m s)")
    case True
    then show ?thesis by (intro exI[of _ 0]) (simp add: cpy_words.simps)
  next
    case False
    have l: "8 \<le> length xs" by (rule word_full[OF less.prems(1) False])
    note st = copy_step[OF less.prems l]
    obtain k where k: "k \<le> length (drop 8 xs)"
      "cpy_words (copied m d s 8) (d + 8) (s + 8) = Some (copied (copied m d s 8) (d + 8) (s + 8) k, d + 8 + k, s + 8 + k)"
      using less.hyps[OF shorter[OF l] st(1,2)] by blast
    moreover have "cpy_words m d s = cpy_words (copied m d s 8) (d + 8) (s + 8)"
      using False by (subst cpy_words.simps) (simp add: store_load)
    ultimately show ?thesis using st(3)[of k] l by (intro exI[of _ "8 + k"]) (simp add: add.assoc)
  qed
qed

lemma cpy_head_ok:
  "cstring m s xs \<Longrightarrow> apart_by d s (length xs) \<Longrightarrow> \<exists>k \<le> length xs.
    cpy_head m d s = Some (True, copied m d s (length xs + 1), d + length xs, s + length xs) \<or>
    cpy_head m d s = Some (False, copied m d s k, d + k, s + k)"
proof (induction xs arbitrary: m d s)
  case Nil
  then show ?case using copied_one[of m d s] by (subst (1 2) cpy_head.simps) (simp add: cstring_end Let_def)
next
  case (Cons x xs)
  show ?case
  proof (cases "s mod ALIGN = 0")
    case True
    then show ?thesis by (intro exI[of _ 0]) (simp add: cpy_head.simps)
  next
    case False
    note st = copy_step[OF Cons.prems, of 1]
    have "m s \<noteq> 0" using Cons.prems(1) by (simp add: cstring_step)
    then have e: "cpy_head m d s = cpy_head (copied m d s 1) (d + 1) (s + 1)"
      using False by (subst cpy_head.simps) (simp add: copied_one)
    obtain k where k: "k \<le> length xs" "cpy_head (copied m d s 1) (d + 1) (s + 1) =
        Some (True, copied (copied m d s 1) (d + 1) (s + 1) (length xs + 1), d + 1 + length xs, s + 1 + length xs) \<or>
      cpy_head (copied m d s 1) (d + 1) (s + 1) = Some (False, copied (copied m d s 1) (d + 1) (s + 1) k, d + 1 + k, s + 1 + k)"
      using Cons.IH[of "copied m d s 1" "s + 1" "d + 1"] st(1,2) by auto
    then show ?thesis using e st(3)[of k] st(3)[of "length xs + 1"] by (intro exI[of _ "Suc k"]) auto
  qed
qed

lemma strcpy_ok:
  assumes "cstring m s xs" and "apart_by d s (length xs)"
  shows "strcpy m d s = Some (copied m d s (length xs + 1), d + length xs)"
proof -
  obtain k where k: "k \<le> length xs"
    "cpy_head m d s = Some (True, copied m d s (length xs + 1), d + length xs, s + length xs) \<or>
     cpy_head m d s = Some (False, copied m d s k, d + k, s + k)" using cpy_head_ok[OF assms] by blast
  note st = copy_step[OF assms k(1)]
  obtain j where j: "j \<le> length xs - k" "cpy_words (copied m d s k) (d + k) (s + k) =
      Some (copied m d s (k + j), d + (k + j), s + (k + j))"
    using cpy_words_ok[OF st(1,2)] st(3) by (auto simp: add.assoc)
  have kj: "k + j \<le> length xs" using k(1) j(1) by simp
  note st2 = copy_step[OF assms kj]
  have "cpy_bytes (copied m d s (k + j)) (d + (k + j)) (s + (k + j)) = Some (copied m d s (length xs + 1), d + length xs)"
    using cpy_bytes_ok[OF st2(1,2)] st2(3)[of "length (drop (k + j) xs) + 1"] kj by simp
  then show ?thesis using k(2) j(2) cpy_bytes_ok[OF assms] by (auto simp: strcpy_def)
qed

lemma stpcpy_strcpy: "stpcpy m d s = strcpy m d s"
  by (simp add: stpcpy_def strcpy_def)

lemma cstring_after:
  assumes "cstring m s xs" and "apart_by d s (length xs)"
  shows "cstring (copied m d s (length xs + 1)) d xs"
  using assms by (auto simp: cstring_def copied_def)

section \<open>Bounded copies\<close>

text \<open>After \<open>k\<close> bytes of a bounded copy; at the end of the string its zero may have been stored too.\<close>

definition ncopied :: "cmem \<Rightarrow> nat \<Rightarrow> nat \<Rightarrow> nat \<Rightarrow> nat \<Rightarrow> cmem \<Rightarrow> nat \<Rightarrow> bool" where
  "ncopied m d s len n m' k \<longleftrightarrow> k \<le> n \<and> k \<le> len \<and> (m' = copied m d s k \<or> k = len \<and> k < n \<and> m' = copied m d s (Suc k))"

lemma ncopied_shift:
  assumes "cstring m s xs" and "apart_by d s (length xs)" and "j \<le> length xs" and "j \<le> n"
    and "ncopied (copied m d s j) (d + j) (s + j) (length xs - j) (n - j) m' k"
  shows "ncopied m d s (length xs) n m' (j + k)"
proof -
  have "copied (copied m d s j) (d + j) (s + j) i = copied m d s (j + i)" if "i \<le> length xs - j + 1" for i
    using copy_step(3)[OF assms(1-3)] that by simp
  then show ?thesis using assms(3-5) by (auto simp: ncopied_def)
qed

lemma ncpy_bytes_ok:
  "cstring m s xs \<Longrightarrow> apart_by d s (length xs) \<Longrightarrow> \<exists>k m'. ncpy_bytes m d s n = (m', d + k, n - k) \<and>
    ncopied m d s (length xs) n m' k \<and> (k = n \<or> k = length xs)"
proof (induction n arbitrary: m d s xs)
  case 0
  then show ?case by (auto simp: ncopied_def)
next
  case (Suc n)
  show ?case
  proof (cases xs)
    case Nil
    then have "m s = 0" using Suc.prems(1) by (simp add: cstring_end)
    then show ?thesis using Nil copied_one[of m d s] by (intro exI[of _ 0] exI[of _ "copied m d s 1"]) (simp add: ncopied_def Let_def)
  next
    case (Cons x ys)
    then have j: "1 \<le> length xs" by simp
    note st = copy_step[OF Suc.prems j]
    have "m s \<noteq> 0" using Suc.prems(1) Cons by (simp add: cstring_step)
    then have e: "ncpy_bytes m d s (Suc n) = ncpy_bytes (copied m d s 1) (d + 1) (s + 1) n" by (simp add: copied_one)
    obtain k m' where k: "ncpy_bytes (copied m d s 1) (d + 1) (s + 1) n = (m', d + 1 + k, n - k)"
      "ncopied (copied m d s 1) (d + 1) (s + 1) (length (drop 1 xs)) n m' k" "k = n \<or> k = length (drop 1 xs)"
      using Suc.IH[OF st(1,2)] by blast
    then show ?thesis using e ncopied_shift[OF Suc.prems j, of "Suc n" m' k] j
      by (intro exI[of _ "1 + k"] exI[of _ m']) auto
  qed
qed

lemma ncpy_words_ok:
  "cstring m s xs \<Longrightarrow> apart_by d s (length xs) \<Longrightarrow> \<exists>k. k \<le> length xs \<and> k \<le> n \<and>
    ncpy_words m d s n = (copied m d s k, d + k, s + k, n - k)"
proof (induction m d s n arbitrary: xs rule: ncpy_words.induct)
  case (1 m d s n)
  show ?case
  proof (cases "n \<ge> 8 \<and> \<not> HASZERO (load64 m s)")
    case True
    have l: "8 \<le> length xs" using word_full[OF "1.prems"(1)] True by blast
    note st = copy_step[OF "1.prems" l]
    have m: "store64 d (load64 m s) m = copied m d s 8" by (rule store_load)
    obtain k where k: "k \<le> length (drop 8 xs)" "k \<le> n - 8" "ncpy_words (copied m d s 8) (d + 8) (s + 8) (n - 8) =
        (copied (copied m d s 8) (d + 8) (s + 8) k, d + 8 + k, s + 8 + k, n - 8 - k)"
      using "1.IH"[OF True, of "drop 8 xs"] st(1,2) unfolding m by blast
    moreover have "ncpy_words m d s n = ncpy_words (copied m d s 8) (d + 8) (s + 8) (n - 8)"
      using True by (subst ncpy_words.simps) (simp only: m simp_thms if_True)
    moreover have "8 + k \<le> length xs" "8 + k \<le> n" using True l k(1,2) by auto
    ultimately show ?thesis using st(3)[of k] by (intro exI[of _ "8 + k"]) (simp add: add.assoc)
  next
    case False
    then show ?thesis by (intro exI[of _ 0]) (subst ncpy_words.simps, auto)
  qed
qed

lemma ncpy_head_ok:
  "cstring m s xs \<Longrightarrow> apart_by d s (length xs) \<Longrightarrow> \<exists>k m'. ncpy_head m d s n = (m', d + k, s + k, n - k) \<and>
    ncopied m d s (length xs) n m' k"
proof (induction n arbitrary: m d s xs)
  case 0
  then show ?case by (intro exI[of _ 0] exI[of _ m]) (simp add: ncopied_def ncpy_head.simps)
next
  case (Suc n)
  show ?case
  proof (cases "and s ALIGN = 0")
    case True
    then show ?thesis by (intro exI[of _ 0] exI[of _ m]) (simp add: ncopied_def ncpy_head.simps)
  next
    case al: False
    show ?thesis
    proof (cases xs)
      case Nil
      then have "m s = 0" using Suc.prems(1) by (simp add: cstring_end)
      then show ?thesis using Nil al copied_one[of m d s]
        by (intro exI[of _ 0] exI[of _ "copied m d s 1"]) (simp add: ncopied_def ncpy_head.simps Let_def)
    next
      case (Cons x ys)
      then have j: "1 \<le> length xs" by simp
      note st = copy_step[OF Suc.prems j]
      have "m s \<noteq> 0" using Suc.prems(1) Cons by (simp add: cstring_step)
      then have e: "ncpy_head m d s (Suc n) = ncpy_head (copied m d s 1) (d + 1) (s + 1) n"
        using al by (subst ncpy_head.simps) (simp add: copied_one)
      obtain k m' where k: "ncpy_head (copied m d s 1) (d + 1) (s + 1) n = (m', d + 1 + k, s + 1 + k, n - k)"
        "ncopied (copied m d s 1) (d + 1) (s + 1) (length (drop 1 xs)) n m' k"
        using Suc.IH[OF st(1,2)] by blast
      then show ?thesis using e ncopied_shift[OF Suc.prems j, of "Suc n" m' k] j
        by (intro exI[of _ "1 + k"] exI[of _ m']) auto
    qed
  qed
qed

lemma ncpy_tail_ok:
  assumes "ncopied m d s len n m' k" and "k = n \<or> k = len" and "d + n \<le> 2 ^ 64"
  shows "ncpy_tail (m', d + k, n - k) = (filled (copied m d s (min n len)) (d + min n len) 0 (n - min n len), d + min n len)"
proof -
  have k: "k = min n len" using assms(1,2) by (auto simp: ncopied_def)
  have "filled m' (d + k) 0 (n - k) = filled (copied m d s k) (d + k) 0 (n - k)"
    using assms(1) by (auto simp: ncopied_def filled_def copied_def fun_eq_iff)
  then show ?thesis using assms(1,3) memset_filled[of "d + k" "n - k" m' 0] k by (simp add: ncpy_tail_def ncopied_def)
qed

lemma ncopied_source:
  assumes "cstring m s xs" and "apart_by d s (length xs)" and "ncopied m d s (length xs) n m' k"
  shows "cstring m' s xs"
  using assms cstring_copied[OF assms(1,2)] by (auto simp: ncopied_def)

lemma strncpy_ok:
  assumes "cstring m s xs" and "apart_by d s (length xs)" and "d + n \<le> 2 ^ 64"
  shows "strncpy m d s n = (filled (copied m d s (min n (length xs))) (d + min n (length xs)) 0 (n - min n (length xs)),
    d + min n (length xs))"
proof (cases "and s ALIGN = and d ALIGN")
  case False
  obtain k m' where k: "ncpy_bytes m d s n = (m', d + k, n - k)" "ncopied m d s (length xs) n m' k" "k = n \<or> k = length xs"
    using ncpy_bytes_ok[OF assms(1,2)] by blast
  then show ?thesis using False ncpy_tail_ok[OF k(2,3) assms(3)] by (simp add: strncpy_def)
next
  case True
  obtain k m' where k: "ncpy_head m d s n = (m', d + k, s + k, n - k)" "ncopied m d s (length xs) n m' k"
    using ncpy_head_ok[OF assms(1,2)] by blast
  have kl: "k \<le> length xs" "k \<le> n" using k(2) by (auto simp: ncopied_def)
  have z: "m' (s + k) = 0 \<longleftrightarrow> k = length xs" using cstring_zero[OF ncopied_source[OF assms(1,2) k(2)] kl(1)] .
  show ?thesis
  proof (cases "n - k = 0 \<or> m' (s + k) = 0")
    case stop: True
    then have "k = n \<or> k = length xs" using z kl by auto
    from ncpy_tail_ok[OF k(2) this assms(3)] show ?thesis using True stop k(1) by (simp add: strncpy_def)
  next
    case go: False
    then have m': "m' = copied m d s k" using k(2) z by (auto simp: ncopied_def)
    note st = copy_step[OF assms(1,2) kl(1)]
    obtain j where j: "j \<le> length (drop k xs)" "j \<le> n - k" "ncpy_words m' (d + k) (s + k) (n - k) =
        (copied m d s (k + j), d + (k + j), s + (k + j), n - (k + j))"
      using ncpy_words_ok[OF st(1,2), of "n - k"] st(3) unfolding m' by (auto simp: add.assoc)
    have kj: "k + j \<le> length xs" "k + j \<le> n" using j(1,2) kl by auto
    note st2 = copy_step[OF assms(1,2) kj(1)]
    obtain i m2 where i: "ncpy_bytes (copied m d s (k + j)) (d + (k + j)) (s + (k + j)) (n - (k + j)) = (m2, d + (k + j) + i, n - (k + j) - i)"
      "ncopied (copied m d s (k + j)) (d + (k + j)) (s + (k + j)) (length (drop (k + j) xs)) (n - (k + j)) m2 i"
      "i = n - (k + j) \<or> i = length (drop (k + j) xs)" using ncpy_bytes_ok[OF st2(1,2)] by blast
    have n: "ncopied m d s (length xs) n m2 (k + j + i)" using ncopied_shift[OF assms(1,2) kj] i(2) by simp
    have "k + j + i = n \<or> k + j + i = length xs" using i(3) kj by auto
    from ncpy_tail_ok[OF n this assms(3)] show ?thesis using True go k(1) j(3) i(1) by (simp add: strncpy_def add.assoc)
  qed
qed

section \<open>Properties\<close>

text \<open>
  C31: \<^verbatim>\<open>strlen\<close> returns, on every string and every alignment, the number of bytes before the
  zero, although its main loop reads eight bytes at a time.
\<close>

theorem strlen_correct: "cstring m a xs \<Longrightarrow> strlen m a = Some (length xs)"
  by (rule strlen_ok)

theorem strlen_correct_witness: "strlen (\<lambda>a. if a < 6 then 7 else 0) 3 = Some 3"
  using strlen_correct[of "\<lambda>a. if a < 6 then 7 else 0" 3 "[7, 7, 7]"] by (simp add: cstring_step cstring_end)

text \<open>
  C33: \<^verbatim>\<open>strcpy\<close> puts the string and its zero at \<open>d\<close> and changes nothing else. It returns the end
  of the copy, so the destination only for an empty string.
\<close>

theorem strcpy_correct:
  assumes "cstring m s xs" and "apart_by d s (length xs)"
  shows "\<exists>m'. strcpy m d s = Some (m', d + length xs) \<and> cstring m' d xs \<and> cstring m' s xs \<and>
    (a < d \<or> d + length xs < a \<longrightarrow> m' a = m a)"
proof (intro exI conjI)
  show "strcpy m d s = Some (copied m d s (length xs + 1), d + length xs)" by (rule strcpy_ok[OF assms])
  show "cstring (copied m d s (length xs + 1)) d xs" by (rule cstring_after[OF assms])
  show "cstring (copied m d s (length xs + 1)) s xs" using assms by (auto simp: cstring_def copied_def apart_by_def)
qed (auto simp: copied_def)

theorem strcpy_correct_witness:
  "\<exists>m'. strcpy (\<lambda>a. if a < 6 then 7 else 0) 19 3 = Some (m', 22) \<and> cstring m' 19 [7, 7, 7]"
  using strcpy_correct[of "\<lambda>a. if a < 6 then 7 else 0" 3 "[7, 7, 7]" 19 0] by (auto simp: cstring_step cstring_end apart_by_def)

text \<open>
  \<^verbatim>\<open>strncpy\<close> copies at most \<open>n\<close> bytes of the string, fills the rest of the \<open>n\<close> bytes with
  zeros and changes nothing else, although it tests one bit of the addresses instead of their
  alignment. It returns the end of the copied bytes, not the destination.
\<close>

theorem strncpy_correct:
  assumes "cstring m s xs" and "apart_by d s (length xs)" and "d + n \<le> 2 ^ 64"
  shows "snd (strncpy m d s n) = d + min n (length xs) \<and> fst (strncpy m d s n) a =
      (if d \<le> a \<and> a < d + n then if a - d < length xs then xs ! (a - d) else 0 else m a)"
  using assms(1) by (auto simp: strncpy_ok[OF assms] filled_def copied_def cstring_def)

theorem strncpy_correct_witness:
  "snd (strncpy (\<lambda>a. if a < 6 then 7 else 0) 19 3 8) = 22 \<and> fst (strncpy (\<lambda>a. if a < 6 then 7 else 0) 19 3 8) 21 = 7"
  using strncpy_correct[of "\<lambda>a. if a < 6 then 7 else 0" 3 "[7, 7, 7]" 19 8 21]
  by (simp add: cstring_step cstring_end apart_by_def)

end
