(* ===== verification/C_String_Scan.thy ===== *)
theory C_String_Scan
  imports C_String_Copy
begin

text \<open>
  Searches in strings: spans of byte sets, which the code keeps as bits of four words, the
  first byte of a set, and the tokens \<^verbatim>\<open>strtok_r\<close> cuts a string into.
\<close>

section \<open>Byte sets\<close>

lemma bitop_or_and: "bitop_and (bitop_or bs b) x \<longleftrightarrow> x = b \<or> bitop_and bs x"
proof -
  have bit: "bitop_and bs x \<longleftrightarrow> bit (bs (unat x div 64)) (unat x mod 64)" for bs x
    unfolding bitop_and_def by (simp add: bit_iff_and_push_bit_not_eq_0)
  have "unat x div 64 = unat b div 64 \<and> unat x mod 64 = unat b mod 64 \<longleftrightarrow> x = b"
    by (metis div_mult_mod_eq unsigned_word_eqI)
  moreover have "unat b mod 64 < 64" by simp
  ultimately show ?thesis unfolding bit bitop_or_def
    by (auto simp: bit_simps bit_push_bit_iff)
qed

lemma fill_set_ok: "cstring m c cs \<Longrightarrow> \<exists>bs'. fill_set m c bs = Some bs' \<and> (\<forall>x. bitop_and bs' x \<longleftrightarrow> x \<in> set cs \<or> bitop_and bs x)"
proof (induction cs arbitrary: c bs)
  case Nil
  then show ?case by (subst fill_set.simps) (simp add: cstring_end)
next
  case (Cons x cs)
  then have "m c = x" "x \<noteq> 0" "cstring m (c + 1) cs" by (simp_all add: cstring_step)
  moreover have "fill_set m c bs = fill_set m (c + 1) (bitop_or bs x)"
    using calculation(1,2) by (subst fill_set.simps) simp
  ultimately show ?case using Cons.IH[of "c + 1" "bitop_or bs x"] by (auto simp: bitop_or_and)
qed

lemma span_set_ok:
  "cstring m s xs \<Longrightarrow> span_set m s inside bs = Some (s + length (takeWhile (\<lambda>x. bitop_and bs x = inside) xs))"
proof (induction xs arbitrary: s)
  case Nil
  then show ?case by (subst span_set.simps) (simp add: cstring_end)
next
  case (Cons x xs)
  then show ?case by (subst span_set.simps) (simp add: cstring_step)
qed

lemma span_byte_ok:
  "cstring m s xs \<Longrightarrow> c \<noteq> 0 \<Longrightarrow> span_byte m s c = Some (s + length (takeWhile (\<lambda>x. x = c) xs))"
proof (induction xs arbitrary: s)
  case Nil
  then show ?case by (subst span_byte.simps) (simp add: cstring_end)
next
  case (Cons x xs)
  then show ?case by (subst span_byte.simps) (simp add: cstring_step)
qed

lemma takeWhile_same: "(\<And>x. P x = Q x) \<Longrightarrow> takeWhile P xs = takeWhile Q xs"
  by (induction xs) auto

lemma strspn_ok:
  assumes "cstring m s xs" and "cstring m c cs"
  shows "strspn m s c = Some (length (takeWhile (\<lambda>x. x \<in> set cs) xs))"
proof -
  have z: "bitop_and (\<lambda>_. 0) x = False" for x by (simp add: bitop_and_def)
  obtain bs where bs: "fill_set m c (\<lambda>_. 0) = Some bs" "\<And>x. bitop_and bs x \<longleftrightarrow> x \<in> set cs"
    using fill_set_ok[OF assms(2), of "\<lambda>_. 0"] z by auto
  consider "cs = []" | x where "cs = [x]" | x y zs where "cs = x # y # zs" by (metis list.exhaust)
  then show ?thesis
  proof cases
    case 1
    then show ?thesis using assms(2) by (cases xs) (simp_all add: strspn_def cstring_end)
  next
    case 2
    then have "m c = x" "x \<noteq> 0" "m (c + 1) = 0" using assms(2) by (auto simp: cstring_step cstring_end)
    then show ?thesis using 2 span_byte_ok[OF assms(1)] by (simp add: strspn_def)
  next
    case 3
    then have "m c \<noteq> 0" "m (c + 1) \<noteq> 0" using assms(2) by (auto simp: cstring_step)
    then show ?thesis using bs span_set_ok[OF assms(1), of True bs] by (simp add: strspn_def)
  qed
qed

section \<open>Searching\<close>

lemma chr_loop_ok: "cstring m s xs \<Longrightarrow> chr_loop m s c = Some (s + length (takeWhile (\<lambda>x. x \<noteq> c) xs))"
proof (induction xs arbitrary: s)
  case Nil
  then show ?case by (subst chr_loop.simps) (simp add: cstring_end)
next
  case (Cons x xs)
  then show ?case by (subst chr_loop.simps) (simp add: cstring_step)
qed

lemma takeWhile_drop: "k \<le> length (takeWhile P xs) \<Longrightarrow> takeWhile P (drop k xs) = drop k (takeWhile P xs)"
proof (induction xs arbitrary: k)
  case (Cons x xs)
  then show ?case by (cases k) auto
qed simp

lemma chr_loop_later:
  assumes "cstring m s xs" and "k \<le> length (takeWhile (\<lambda>x. x \<noteq> c) xs)"
  shows "chr_loop m (s + k) c = Some (s + length (takeWhile (\<lambda>x. x \<noteq> c) xs))"
proof -
  have k: "k \<le> length xs" using assms(2) length_takeWhile_le[of "\<lambda>x. x \<noteq> c" xs] by simp
  show ?thesis using chr_loop_ok[OF cstring_drop[OF assms(1) k], of c] takeWhile_drop[OF assms(2)] assms(2) by simp
qed

lemma ones_byte: "i < 8 \<Longrightarrow> ucast (drop_bit (8 * i) (ONES * ucast c)) = (c :: byte)"
proof -
  assume i: "i < 8"
  have u: "unat (ONES * ucast c) = nones 8 * unat c"
    using unat_byte[of c] unfolding nones_8 ONES_eq by (simp add: unat_word_ariths unat_ucast)
  have "unat (ucast (drop_bit (8 * i) (ONES * ucast c)) :: byte) = drop_bit (8 * i) (nones 8 * unat c) mod 256"
    by (simp add: unat_ucast unat_drop_bit_eq u)
  also have "\<dots> = nones 8 * unat c div 256 ^ i mod 256" by (simp add: drop_bit_eq_div power_mult)
  also have "\<dots> = unat c" by (rule repeated_byte[OF unat_byte i])
  finally show ?thesis by (simp add: unsigned_word_eqI)
qed

lemma xor_zero: "xor a b = 0 \<longleftrightarrow> a = (b :: byte)"
  by (auto simp: bit_eq_iff bit_simps)

lemma xor_haszero: "HASZERO (xor (load64 m a) (ONES * ucast c)) \<longleftrightarrow> (\<exists>i < 8. m (a + i) = c)"
proof -
  let ?m = "\<lambda>x. xor (m x) c"
  have "load64 ?m a = xor (load64 m a) (ONES * ucast c)"
  proof (rule bit_eqI)
    fix n assume "possible_bit TYPE(64 word) n"
    then have n: "n < 64" by simp
    have "bit (ONES * ucast c :: 64 word) n = bit (ucast (drop_bit (8 * (n div 8)) (ONES * ucast c)) :: byte) (n mod 8)"
      using n by (simp add: bit_simps)
    also have "\<dots> = bit c (n mod 8)" using n by (simp only: ones_byte)
    finally show "bit (load64 ?m a) n = bit (xor (load64 m a) (ONES * ucast c)) n"
      using n by (simp add: bit_load64 bit_simps)
  qed
  then have "HASZERO (xor (load64 m a) (ONES * ucast c)) \<longleftrightarrow> (\<exists>i < 8. xor (m (a + i)) c = 0)"
    using HASZERO_bytes[of ?m a] by simp
  then show ?thesis by (simp add: xor_zero)
qed

lemma chrnul_head_ok:
  "cstring m s xs \<Longrightarrow> c \<noteq> 0 \<Longrightarrow> \<exists>k \<le> length (takeWhile (\<lambda>x. x \<noteq> c) xs).
    chrnul_head m s c = Some (True, s + length (takeWhile (\<lambda>x. x \<noteq> c) xs)) \<or> chrnul_head m s c = Some (False, s + k)"
proof (induction xs arbitrary: s)
  case Nil
  then show ?case by (subst (1 2) chrnul_head.simps) (simp add: cstring_end)
next
  case (Cons x xs)
  have x: "m s = x" "x \<noteq> 0" "cstring m (s + 1) xs" using Cons.prems(1) by (simp_all add: cstring_step)
  show ?case
  proof (cases "s mod ALIGN = 0 \<or> x = c")
    case True
    then show ?thesis using x by (intro exI[of _ 0]) (subst (1 2) chrnul_head.simps, auto)
  next
    case False
    obtain k where "k \<le> length (takeWhile (\<lambda>x. x \<noteq> c) xs)" "chrnul_head m (s + 1) c = Some (True, s + 1 + length (takeWhile (\<lambda>x. x \<noteq> c) xs)) \<or>
        chrnul_head m (s + 1) c = Some (False, s + 1 + k)" using Cons.IH[OF x(3) Cons.prems(2)] by blast
    moreover have "chrnul_head m s c = chrnul_head m (s + 1) c" using False x by (subst chrnul_head.simps) simp
    ultimately show ?thesis using False by (intro exI[of _ "Suc k"]) auto
  qed
qed

lemma takeWhile_ge:
  assumes "cstring m s xs" and "\<forall>i < 8. m (s + i) \<noteq> 0 \<and> m (s + i) \<noteq> c"
  shows "8 \<le> length (takeWhile (\<lambda>x. x \<noteq> c) xs)"
proof (rule ccontr)
  let ?k = "length (takeWhile (\<lambda>x. x \<noteq> c) xs)"
  assume "\<not> 8 \<le> ?k"
  then have "m (s + ?k) \<noteq> 0" "m (s + ?k) \<noteq> c" using assms(2) by auto
  moreover have "?k \<le> length xs" by (rule length_takeWhile_le)
  moreover have "?k \<noteq> length xs" using calculation(1) cstring_zero[OF assms(1), of ?k] by auto
  moreover have "m (s + ?k) = xs ! ?k" using assms(1) calculation(3,4) by (simp add: cstring_def)
  ultimately show False using nth_length_takeWhile[of "\<lambda>x. x \<noteq> c" xs] by simp
qed

lemma chrnul_words_ok:
  "cstring m s xs \<Longrightarrow> \<exists>k \<le> length (takeWhile (\<lambda>x. x \<noteq> c) xs). chrnul_words m s (ONES * ucast c) = Some (s + k)"
proof (induction "length xs" arbitrary: s xs rule: less_induct)
  case less
  show ?case
  proof (cases "\<not> HASZERO (load64 m s) \<and> \<not> HASZERO (xor (load64 m s) (ONES * ucast c))")
    case False
    then show ?thesis by (intro exI[of _ 0]) (subst chrnul_words.simps, auto)
  next
    case True
    then have "\<forall>i < 8. m (s + i) \<noteq> 0 \<and> m (s + i) \<noteq> c" by (auto simp: HASZERO_bytes xor_haszero)
    note l = takeWhile_ge[OF less.prems this]
    then have l2: "8 \<le> length xs" using length_takeWhile_le[of "\<lambda>x. x \<noteq> c" xs] by linarith
    obtain k where "k \<le> length (takeWhile (\<lambda>x. x \<noteq> c) (drop 8 xs))" "chrnul_words m (s + 8) (ONES * ucast c) = Some (s + 8 + k)"
      using less.hyps[OF shorter[OF l2] cstring_drop[OF less.prems l2]] by blast
    moreover have "chrnul_words m s (ONES * ucast c) = chrnul_words m (s + 8) (ONES * ucast c)"
      using True by (subst chrnul_words.simps) simp
    ultimately show ?thesis using l takeWhile_drop[OF l] by (intro exI[of _ "8 + k"]) auto
  qed
qed

lemma strchrnul_ok:
  assumes "cstring m s xs"
  shows "strchrnul m s c = Some (s + length (takeWhile (\<lambda>x. x \<noteq> word_of_int c) xs))"
proof (cases "word_of_int c = (0 :: byte)")
  case True
  have "0 \<notin> set xs" using assms by (simp add: cstring_def)
  then have "takeWhile (\<lambda>x. x \<noteq> 0) xs = xs" by (auto simp: takeWhile_eq_all_conv)
  then have l: "length (takeWhile (\<lambda>x. x \<noteq> 0) xs) = length xs" by (rule arg_cong)
  show ?thesis using True strlen_ok[OF assms] by (simp add: strchrnul_def l)
next
  case False
  let ?c = "word_of_int c :: byte" and ?n = "length (takeWhile (\<lambda>x. x \<noteq> word_of_int c) xs)"
  obtain k where k: "k \<le> ?n" "chrnul_head m s ?c = Some (True, s + ?n) \<or> chrnul_head m s ?c = Some (False, s + k)"
    using chrnul_head_ok[OF assms False] by blast
  have kx: "k \<le> length xs" using k(1) length_takeWhile_le order_trans by blast
  obtain j where j: "j \<le> length (takeWhile (\<lambda>x. x \<noteq> ?c) (drop k xs))" "chrnul_words m (s + k) (ONES * ucast ?c) = Some (s + k + j)"
    using chrnul_words_ok[OF cstring_drop[OF assms kx]] by blast
  have "k + j \<le> ?n" using j(1) takeWhile_drop[OF k(1)] k(1) by simp
  from chr_loop_later[OF assms this] show ?thesis using False k(2) j(2) by (auto simp: strchrnul_def Let_def add.assoc)
qed

lemma word_of_sint: "word_of_int (sint b) = (b :: byte)"
  by simp

lemma strcspn_ok:
  assumes "cstring m s xs" and "cstring m c cs"
  shows "strcspn m s c = Some (length (takeWhile (\<lambda>x. x \<notin> set cs) xs))"
proof -
  have z: "bitop_and (\<lambda>_. 0) x = False" for x by (simp add: bitop_and_def)
  obtain bs where bs: "fill_set m c (\<lambda>_. 0) = Some bs" "\<And>x. bitop_and bs x \<longleftrightarrow> x \<in> set cs"
    using fill_set_ok[OF assms(2), of "\<lambda>_. 0"] z by auto
  consider "cs = []" | x where "cs = [x]" | x y zs where "cs = x # y # zs" by (metis list.exhaust)
  then show ?thesis
  proof cases
    case 1
    then have "m c = 0" using assms(2) by (simp add: cstring_end)
    moreover have "takeWhile (\<lambda>x. x \<noteq> 0) xs = takeWhile (\<lambda>x. x \<notin> set cs) xs"
      using assms(1) 1 by (intro takeWhile_cong) (auto simp: cstring_def)
    ultimately show ?thesis using strchrnul_ok[OF assms(1), of 0] by (simp add: strcspn_def)
  next
    case 2
    then have "m c = x" "m (c + 1) = 0" using assms(2) by (auto simp: cstring_step cstring_end)
    then show ?thesis using 2 strchrnul_ok[OF assms(1), of "sint x"] by (simp add: strcspn_def)
  next
    case 3
    then have "m c \<noteq> 0" "m (c + 1) \<noteq> 0" using assms(2) by (auto simp: cstring_step)
    then show ?thesis using bs span_set_ok[OF assms(1), of False bs] by (simp add: strcspn_def)
  qed
qed

lemma strpbrk_ok:
  assumes "cstring m s xs" and "cstring m c cs"
  shows "strpbrk m s c = Some (let k = length (takeWhile (\<lambda>x. x \<notin> set cs) xs) in if k = length xs then None else Some (s + k))"
  using strcspn_ok[OF assms] cstring_zero[OF assms(1) length_takeWhile_le] by (simp add: strpbrk_def Let_def)

section \<open>Tokens\<close>

text \<open>The tokens of a string: its maximal runs of bytes that are not delimiters.\<close>

function tokens :: "byte set \<Rightarrow> byte list \<Rightarrow> byte list list" where
  "tokens D xs =
     (case dropWhile (\<lambda>x. x \<in> D) xs of
        [] \<Rightarrow> []
      | y # ys \<Rightarrow> (y # takeWhile (\<lambda>x. x \<notin> D) ys) # tokens D (dropWhile (\<lambda>x. x \<notin> D) ys))"
  by auto
termination
proof (relation "measure (\<lambda>(D, xs). length xs)", goal_cases)
  case (2 D xs y ys)
  have "length (y # ys) \<le> length xs" using length_dropWhile_le[of "\<lambda>x. x \<in> D" xs] 2 by simp
  then show ?case using length_dropWhile_le[of "\<lambda>x. x \<notin> D" ys] by simp
qed simp

declare tokens.simps [simp del]

lemma tokens_delim: "z \<in> D \<Longrightarrow> tokens D (z # zs) = tokens D zs"
  by (simp add: tokens.simps[of D "z # zs"] tokens.simps[of D zs])

lemma tokens_Nil: "tokens D [] = []"
  by (simp add: tokens.simps)

lemma strchr_end: "cstring m s xs \<Longrightarrow> strchr m s 0 = Some (Some (s + length xs))"
  by (simp add: strchr_def strlen_ok)

lemma cstring_cut:
  assumes "cstring m s xs" and "j < length xs"
  shows "cstring (m(s + j := 0)) s (take j xs)" and "cstring (m(s + j := 0)) (s + j + 1) (drop (Suc j) xs)"
proof -
  show "cstring (m(s + j := 0)) s (take j xs)" using assms by (auto simp: cstring_def dest: in_set_takeD)
  have "cstring m (s + Suc j) (drop (Suc j) xs)" using cstring_drop[OF assms(1), of "Suc j"] assms(2) by simp
  then show "cstring (m(s + j := 0)) (s + j + 1) (drop (Suc j) xs)" by (auto simp: cstring_def)
qed

lemma cstring_outside: "cstring m a xs \<Longrightarrow> x < a \<or> a + length xs < x \<Longrightarrow> cstring (m(x := v)) a xs"
  by (auto simp: cstring_def)

lemma tokens_split:
  assumes "tokens D xs = t # ts"
  shows "\<exists>sk us. xs = sk @ t @ us \<and> set sk \<subseteq> D \<and> t \<noteq> [] \<and> set t \<inter> D = {} \<and>
    (us = [] \<and> ts = [] \<or> (\<exists>w ws. us = w # ws \<and> w \<in> D \<and> tokens D ws = ts))"
proof -
  let ?sk = "takeWhile (\<lambda>x. x \<in> D) xs"
  obtain y ys where r: "dropWhile (\<lambda>x. x \<in> D) xs = y # ys"
    using assms by (cases "dropWhile (\<lambda>x. x \<in> D) xs") (simp_all add: tokens.simps)
  have y: "y \<notin> D" using hd_dropWhile[of "\<lambda>x. x \<in> D" xs] r by simp
  let ?us = "dropWhile (\<lambda>x. x \<notin> D) ys"
  have t: "t = y # takeWhile (\<lambda>x. x \<notin> D) ys" "ts = tokens D ?us" using assms r by (simp_all add: tokens.simps[of D xs])
  have "xs = ?sk @ y # ys" using takeWhile_dropWhile_id[of "\<lambda>x. x \<in> D" xs] r by simp
  then have "xs = ?sk @ t @ ?us" using t(1) by simp
  moreover have "set ?sk \<subseteq> D" "set t \<inter> D = {}" using y t(1) by (auto dest: set_takeWhileD)
  moreover have "?us = [] \<and> ts = [] \<or> (\<exists>w ws. ?us = w # ws \<and> w \<in> D \<and> tokens D ws = ts)"
  proof (cases ?us)
    case Nil
    then show ?thesis using t(2) tokens_Nil by (simp only:) simp
  next
    case (Cons w ws)
    then have "w \<in> D" using hd_dropWhile[of "\<lambda>x. x \<notin> D" ys] by simp
    then show ?thesis using Cons t(2) tokens_delim by auto
  qed
  ultimately show ?thesis using t(1) by blast
qed

lemma tokens_none: "tokens D xs = [] \<Longrightarrow> set xs \<subseteq> D"
  by (auto simp: tokens.simps[of D xs] split: list.splits)

lemma strtok_r_none:
  assumes s: "cstring m p xs" and d: "cstring m delim ds" and str: "str = Some p \<or> str = None \<and> save = p" and t: "set xs \<subseteq> set ds"
  shows "strtok_r m str delim save = Some (None, m, p + length xs)"
proof -
  have "takeWhile (\<lambda>x. x \<in> set ds) xs = xs" using t by (auto simp: takeWhile_eq_all_conv)
  then have "strspn m p delim = Some (length xs)" using strspn_ok[OF s d] by (simp only:)
  moreover have "m (p + length xs) = 0" using s by (simp add: cstring_def)
  ultimately show ?thesis using str by (auto simp: strtok_r_def Let_def)
qed

lemma strtok_r_some:
  assumes s: "cstring m p (sk @ t @ us)" and d: "cstring m delim ds" and str: "str = Some p \<or> str = None \<and> save = p"
    and sk: "set sk \<subseteq> set ds" and t: "t \<noteq> []" "set t \<inter> set ds = {}" and us: "us = [] \<or> hd us \<in> set ds"
  shows "strtok_r m str delim save =
    (if us = [] then Some (Some (p + length sk), m, p + length sk + length t)
     else Some (Some (p + length sk), m(p + length sk + length t := 0), p + length sk + length t + 1))"
proof -
  let ?q = "p + length sk"
  have q: "cstring m ?q (t @ us)" using cstring_drop[OF s, of "length sk"] by simp
  have "hd t \<notin> set ds" using t by (cases t) auto
  then have "takeWhile (\<lambda>x. x \<in> set ds) (sk @ t @ us) = sk" using sk t(1) by (cases t) (auto simp: takeWhile_append subset_iff)
  then have sp: "strspn m p delim = Some (length sk)" using strspn_ok[OF s d] by simp
  have "takeWhile (\<lambda>x. x \<notin> set ds) (t @ us) = t" using t(2) us by (cases us) (auto simp: takeWhile_append)
  then have pb: "strpbrk m ?q delim = Some (if us = [] then None else Some (?q + length t))"
    using strpbrk_ok[OF q d] by (simp add: Let_def)
  have "m ?q \<noteq> 0" using cstring_zero[OF q, of 0] t(1) by simp
  then show ?thesis using str sp pb strchr_end[OF q] by (auto simp: strtok_r_def Let_def add.assoc)
qed

lemma strtok_r_ok:
  assumes s: "cstring m p xs" and d: "cstring m delim ds" and ap: "delim + length ds < p \<or> p + length xs < delim"
    and str: "str = Some p \<or> str = None \<and> save = p" and tk: "tokens (set ds) xs = t # ts"
  shows "\<exists>q m' p' ys. strtok_r m str delim save = Some (Some q, m', p') \<and> cstring m' q t \<and> cstring m' p' ys \<and>
    tokens (set ds) ys = ts \<and> cstring m' delim ds \<and> p \<le> p' \<and> p' + length ys = p + length xs"
proof -
  obtain sk us where x: "xs = sk @ t @ us" "set sk \<subseteq> set ds" "t \<noteq> []" "set t \<inter> set ds = {}"
    and us: "us = [] \<and> ts = [] \<or> (\<exists>w ws. us = w # ws \<and> w \<in> set ds \<and> tokens (set ds) ws = ts)"
    using tokens_split[OF tk] by blast
  have hd: "us = [] \<or> hd us \<in> set ds" using us by auto
  let ?q = "p + length sk"
  have q: "cstring m ?q (t @ us)" using cstring_drop[of m p xs "length sk"] s x(1) by simp
  note r = strtok_r_some[OF s[unfolded x(1)] d str x(2-4) hd]
  show ?thesis
  proof (cases us)
    case Nil
    have "cstring m (?q + length t) []" using cstring_drop[OF q, of "length t"] Nil by simp
    then show ?thesis using r Nil q us d x(1) tokens_Nil
      by (intro exI[of _ ?q] exI[of _ m] exI[of _ "?q + length t"] exI[of _ "[]"]) auto
  next
    case (Cons w ws)
    have cut: "cstring (m(?q + length t := 0)) ?q t" "cstring (m(?q + length t := 0)) (?q + length t + 1) ws"
      using cstring_cut[OF q, of "length t"] Cons by simp_all
    have "cstring (m(?q + length t := 0)) delim ds" using ap x(1) Cons by (intro cstring_outside[OF d]) auto
    then show ?thesis using r Cons cut us x(1)
      by (intro exI[of _ ?q] exI[of _ "m(?q + length t := 0)"] exI[of _ "?q + length t + 1"] exI[of _ ws]) auto
  qed
qed

section \<open>Properties\<close>

text \<open>
  C36: \<^verbatim>\<open>strspn\<close> returns the length of the longest prefix with bytes of the second string only,
  \<^verbatim>\<open>strcspn\<close> of the longest one with none of them, \<^verbatim>\<open>strpbrk\<close> the first byte of the set if
  there is one.
\<close>

theorem str_spans_correct:
  assumes "cstring m s xs" and "cstring m c cs"
  shows "strspn m s c = Some (length (takeWhile (\<lambda>x. x \<in> set cs) xs)) \<and>
    strcspn m s c = Some (length (takeWhile (\<lambda>x. x \<notin> set cs) xs)) \<and>
    strpbrk m s c = Some (if set xs \<inter> set cs = {} then None else Some (s + length (takeWhile (\<lambda>x. x \<notin> set cs) xs)))"
proof -
  have "length (takeWhile (\<lambda>x. x \<notin> set cs) xs) = length xs \<longleftrightarrow> set xs \<inter> set cs = {}"
    by (metis takeWhile_eq_all_conv takeWhile_eq_take take_all_iff order_refl disjoint_iff)
  then show ?thesis using strspn_ok[OF assms] strcspn_ok[OF assms] strpbrk_ok[OF assms] by (simp add: Let_def)
qed

theorem str_spans_correct_witness:
  "strspn (\<lambda>a. if a = 0 then 1 else if a = 1 then 2 else if a = 3 then 1 else 0) 0 3 = Some 1"
  using str_spans_correct[of "\<lambda>a. if a = 0 then 1 else if a = 1 then 2 else if a = 3 then 1 else 0" 0 "[1, 2]" 3 "[1]"]
  by (simp add: cstring_step cstring_end)

text \<open>
  C32: \<^verbatim>\<open>strtok_r\<close> returns the first token of the string, the maximal runs of bytes that are no
  delimiters, terminated in place; the pointer it saves leads the next call to the remaining
  tokens. It returns \<^verbatim>\<open>NULL\<close> when there is none.
\<close>

theorem strtok_r_correct:
  assumes s: "cstring m p xs" and d: "cstring m delim ds" and ap: "delim + length ds < p \<or> p + length xs < delim"
    and str: "str = Some p \<or> str = None \<and> save = p"
  shows "case tokens (set ds) xs of
      [] \<Rightarrow> strtok_r m str delim save = Some (None, m, p + length xs)
    | t # ts \<Rightarrow> \<exists>q m' p' ys. strtok_r m str delim save = Some (Some q, m', p') \<and> cstring m' q t \<and>
        cstring m' p' ys \<and> tokens (set ds) ys = ts \<and> cstring m' delim ds \<and> p \<le> p' \<and> p' + length ys = p + length xs"
proof (cases "tokens (set ds) xs")
  case Nil
  then have "set xs \<subseteq> set ds" by (subst (asm) tokens.simps) (auto split: list.splits)
  then show ?thesis using strtok_r_none[OF s d str] Nil by simp
next
  case (Cons t ts)
  then show ?thesis using strtok_r_ok[OF s d ap str] by simp
qed

theorem strtok_r_correct_witness:
  "\<exists>q m' p'. strtok_r (\<lambda>a. if a < 2 then 5 else if a = 9 then 1 else 0) (Some 0) 9 0 = Some (Some q, m', p') \<and> cstring m' q [5, 5]"
proof -
  have "tokens {1} [5, 5] = [[5, 5 :: byte]]" by (simp add: tokens.simps)
  then show ?thesis
    using strtok_r_correct[of "\<lambda>a. if a < 2 then 5 else if a = 9 then 1 else 0" 0 "[5, 5]" 9 "[1]" "Some 0" 0]
    by (auto simp: cstring_step cstring_end)
qed

end
