(* ===== verification/C_String_Num.thy ===== *)
theory C_String_Num
  imports C_String_Scan
begin

text \<open>
  Comparison of strings, bit scans with a de Bruijn sequence, and decimal numbers.
\<close>

section \<open>Comparison\<close>

lemma strcmp_ok:
  "cstring m l xs \<Longrightarrow> cstring m r ys \<Longrightarrow> \<exists>v. strcmp m l r = Some v \<and> (v = 0 \<longleftrightarrow> xs = ys) \<and>
    (v < 0 \<longleftrightarrow> (xs, ys) \<in> lexord {(a, b). a < b})"
proof (induction xs arbitrary: l r ys)
  case Nil
  then have l: "m l = 0" by (simp add: cstring_end)
  then have "strcmp m l r = Some (- uint (m r))" by (subst strcmp.simps) auto
  moreover have "m r = 0 \<longleftrightarrow> ys = []" using Nil.prems(2) by (cases ys) (auto simp: cstring_end cstring_step)
  ultimately show ?case by (cases ys) (auto simp: unsigned_eq_0_iff less_le)
next
  case (Cons x xs)
  have x: "m l = x" "x \<noteq> 0" "cstring m (l + 1) xs" using Cons.prems(1) by (simp_all add: cstring_step)
  show ?case
  proof (cases ys)
    case Nil
    then have "m r = 0" using Cons.prems(2) by (simp add: cstring_end)
    then have "strcmp m l r = Some (uint x)" using x by (subst strcmp.simps) auto
    then show ?thesis using Nil x(2) by (auto simp: unsigned_eq_0_iff)
  next
    case (Cons y zs)
    have y: "m r = y" "cstring m (r + 1) zs" using Cons.prems(2) \<open>ys = y # zs\<close> by (simp_all add: cstring_step)
    show ?thesis
    proof (cases "x = y")
      case True
      then have "strcmp m l r = strcmp m (l + 1) (r + 1)" using x y by (subst strcmp.simps) simp
      then show ?thesis using Cons.IH[OF x(3) y(2)] True \<open>ys = y # zs\<close> by simp
    next
      case False
      then have "strcmp m l r = Some (uint x - uint y)" using x y by (subst strcmp.simps) auto
      then show ?thesis using False \<open>ys = y # zs\<close> by (auto simp: word_less_def dest: unsigned_word_eqI)
    qed
  qed
qed

section \<open>The lowest set bit\<close>

lemma odd_and_minus: "odd a \<Longrightarrow> and a (- a) = (1 :: int)"
proof (rule bit_eqI)
  fix n assume "odd a"
  then obtain b where b: "a = 2 * b + 1" by (rule oddE)
  have "- a = not (a - 1)" by (rule minus_eq_not_minus_1)
  then have m: "- a = not (2 * b)" using b by simp
  have "bit (and a (- a)) n \<longleftrightarrow> bit (2 * b + 1) n \<and> \<not> bit (2 * b) n" unfolding bit_and_iff m bit_not_int_iff unfolding b ..
  also have "\<dots> \<longleftrightarrow> bit (1 :: int) n" by (cases n) (auto simp: bit_Suc bit_0)
  finally show "bit (and a (- a)) n = bit (1 :: int) n" .
qed

lemma and_minus_int: "odd y \<Longrightarrow> and (2 ^ k * y) (- (2 ^ k * y)) = (2 ^ k :: int)"
proof -
  assume y: "odd y"
  have "2 ^ k * y = push_bit k y" "- (2 ^ k * y) = push_bit k (- y)" by (simp_all add: push_bit_eq_mult)
  then have "and (2 ^ k * y) (- (2 ^ k * y)) = push_bit k (and y (- y))" by (simp add: push_bit_and)
  then show ?thesis using odd_and_minus[OF y] by (simp add: push_bit_eq_mult)
qed

lemma lowest_bit:
  fixes x :: "'a :: len word"
  assumes "bit x k" and "\<forall>i < k. \<not> bit x i"
  shows "and x (- x) = 2 ^ k"
proof -
  have k: "k < LENGTH('a)" using bit_imp_le_length[OF assms(1)] .
  have "take_bit k x = 0" by (rule bit_eqI) (use assms(2) in \<open>auto simp: bit_simps\<close>)
  then have "take_bit k (uint x) = 0" by (metis unsigned_0 unsigned_take_bit_eq)
  then obtain y where y: "uint x = 2 ^ k * y" by (metis dvdE take_bit_eq_0_iff)
  have "bit (uint x) k" using assms(1) k by (simp add: bit_uint_iff)
  then have "odd y" unfolding y by (simp add: bit_iff_odd)
  then have e: "and (uint x) (- uint x) = 2 ^ k" unfolding y by (rule and_minus_int)
  have tx: "take_bit LENGTH('a) (uint x) = uint x" by (rule bit_eqI) (auto simp: bit_take_bit_iff bit_uint_iff)
  have "uint (and x (- x)) = take_bit LENGTH('a) (and (uint x) (- uint x))"
    by (simp add: unsigned_and_eq uint_word_ariths take_bit_eq_mod[symmetric] take_bit_and tx)
  also have "\<dots> = uint (2 ^ k :: 'a word)" unfolding e using k uint_2p[of k, where ?'a = 'a] by (simp add: take_bit_eq_mod word_gt_0 exp_eq_zero_iff)
  finally show ?thesis by (simp add: unsigned_word_eqI)
qed

lemma debruijn64_list: "list_all (\<lambda>k. debruijn64 ! (2 ^ k * 0x022fdd63cc95386d mod 2 ^ 64 div 2 ^ 58) = k) [0..<64]"
  by (simp add: upt_conv_Cons debruijn64_def)

lemma debruijn32_list: "list_all (\<lambda>k. debruijn32 ! (2 ^ k * 0x076be629 mod 2 ^ 32 div 2 ^ 27) = k) [0..<32]"
  by (simp add: upt_conv_Cons debruijn32_def)

lemma unat_pow_mult: "unat (2 ^ k * w :: 'a :: len word) = 2 ^ k * unat w mod 2 ^ LENGTH('a)"
  by (metis push_bit_eq_mult unsigned_push_bit_eq mult.commute take_bit_eq_mod)

lemma ctz_64_pow: "k < 64 \<Longrightarrow> debruijn64 ! unat (drop_bit 58 (2 ^ k * 0x022fdd63cc95386d :: 64 word)) = k"
proof -
  assume k: "k < 64"
  have "unat (drop_bit 58 (2 ^ k * 0x022fdd63cc95386d :: 64 word)) = 2 ^ k * 0x022fdd63cc95386d mod 2 ^ 64 div 2 ^ 58"
    unfolding unat_drop_bit_eq unat_pow_mult by (simp add: drop_bit_eq_div)
  then show ?thesis using debruijn64_list k unfolding list_all_iff by simp
qed

lemma ctz_32_pow: "k < 32 \<Longrightarrow> debruijn32 ! unat (drop_bit 27 (2 ^ k * 0x076be629 :: 32 word)) = k"
proof -
  assume k: "k < 32"
  have "unat (drop_bit 27 (2 ^ k * 0x076be629 :: 32 word)) = 2 ^ k * 0x076be629 mod 2 ^ 32 div 2 ^ 27"
    unfolding unat_drop_bit_eq unat_pow_mult by (simp add: drop_bit_eq_div)
  then show ?thesis using debruijn32_list k unfolding list_all_iff by simp
qed

lemma lowest_exists: "x \<noteq> 0 \<Longrightarrow> \<exists>k. bit x k \<and> (\<forall>i < k. \<not> bit (x :: 'a :: len word) i)"
proof -
  assume "x \<noteq> 0"
  then have "\<exists>k. bit x k" by (metis bit_eqI bit_0_eq bot_apply bot_bool_def)
  then show ?thesis using exists_least_iff[of "bit x"] by blast
qed

lemma a_ctz_64_ok:
  assumes "x \<noteq> 0"
  shows "bit x (a_ctz_64 x)" and "\<forall>i < a_ctz_64 x. \<not> bit x i"
proof -
  obtain k where k: "bit x k" "\<forall>i < k. \<not> bit x i" using lowest_exists[OF assms] by blast
  have "k < 64" using bit_imp_le_length[OF k(1)] by simp
  then have "a_ctz_64 x = k" unfolding a_ctz_64_def lowest_bit[OF k] by (rule ctz_64_pow)
  then show "bit x (a_ctz_64 x)" "\<forall>i < a_ctz_64 x. \<not> bit x i" using k by simp_all
qed

lemma a_ctz_32_ok:
  assumes "x \<noteq> 0"
  shows "bit x (a_ctz_32 x)" and "\<forall>i < a_ctz_32 x. \<not> bit x i"
proof -
  obtain k where k: "bit x k" "\<forall>i < k. \<not> bit x i" using lowest_exists[OF assms] by blast
  have "k < 32" using bit_imp_le_length[OF k(1)] by simp
  then have "a_ctz_32 x = k" unfolding a_ctz_32_def lowest_bit[OF k] by (rule ctz_32_pow)
  then show "bit x (a_ctz_32 x)" "\<forall>i < a_ctz_32 x. \<not> bit x i" using k by simp_all
qed

lemma ffs_ok:
  "ffs i = (if i = 0 then 0 else Suc (LEAST k. bit i k))"
proof (cases "i = 0")
  case False
  obtain k where k: "bit i k" "\<forall>j < k. \<not> bit i j" using lowest_exists[OF False] by blast
  have kl: "k < 32" using bit_imp_le_length[OF k(1)] by simp
  have sc: "bit (scast i :: 64 word) j \<longleftrightarrow> j < 64 \<and> (if j < 32 then bit i j else bit i 31)" for j
    by (cases "j = 31") (auto simp: bit_simps bit_signed_iff min_def not_less dest: bit_imp_le_length)
  have c: "bit (scast i :: 64 word) k" "\<forall>j < k. \<not> bit (scast i :: 64 word) j" using k kl sc by auto
  have "a_ctz_64 (scast i) = k" unfolding a_ctz_64_def lowest_bit[OF c] by (rule ctz_64_pow) (use kl in simp)
  moreover have "(LEAST j. bit i j) = k" using k by (intro Least_equality) (auto simp: not_less[symmetric])
  ultimately show ?thesis using False by (simp add: ffs_def a_ctz_l_def)
qed (simp add: ffs_def)

section \<open>Numbers\<close>

lemma wrap32_cong: "a mod 2 ^ 32 = b mod 2 ^ 32 \<Longrightarrow> wrap32 a = wrap32 b"
  unfolding wrap32_def by (metis mod_add_left_eq)

lemma wrap32_mod: "wrap32 a mod 2 ^ 32 = a mod 2 ^ 32"
  unfolding wrap32_def by (simp add: mod_diff_left_eq)

lemma wrap32_id: "- (2 ^ 31) \<le> a \<Longrightarrow> a < 2 ^ 31 \<Longrightarrow> wrap32 a = a"
  by (simp add: wrap32_def)

definition dec_val :: "int \<Rightarrow> byte list \<Rightarrow> int" where
  "dec_val v ds = foldl (\<lambda>v d. 10 * v + (sint d - 48)) v ds"

lemma wrap32_idem: "wrap32 (wrap32 a) = wrap32 a"
  by (rule wrap32_cong) (rule wrap32_mod)

lemma wrap32_step: "wrap32 (10 * wrap32 a - c) = wrap32 (10 * a - c)"
proof (rule wrap32_cong)
  have "(10 * wrap32 a) mod 2 ^ 32 = (10 * a) mod 2 ^ 32" by (rule mod_mult_cong) (simp_all only: wrap32_mod)
  then show "(10 * wrap32 a - c) mod 2 ^ 32 = (10 * a - c) mod 2 ^ 32" by (rule mod_diff_cong) simp
qed

lemma wrap32_minus: "wrap32 (- wrap32 a) = wrap32 (- a)"
proof (rule wrap32_cong)
  show "(- wrap32 a) mod 2 ^ 32 = (- a) mod 2 ^ 32" using wrap32_mod[of a] by (metis mod_minus_eq)
qed

lemma atoi_loop_ok:
  "cstring m s (ds @ rest) \<Longrightarrow> \<forall>d \<in> set ds. isdigit (sint d) \<Longrightarrow> rest = [] \<or> \<not> isdigit (sint (hd rest)) \<Longrightarrow>
    atoi_loop m s (wrap32 (- v)) = Some (wrap32 (- dec_val v ds))"
proof (induction ds arbitrary: s v)
  case Nil
  have "\<not> isdigit (sint (m s))"
    using Nil.prems(1,3) by (cases rest) (auto simp: cstring_end cstring_step isdigit_def)
  then show ?case by (subst atoi_loop.simps) (simp add: dec_val_def)
next
  case (Cons d ds)
  have d: "m s = d" "isdigit (sint d)" "cstring m (s + 1) (ds @ rest)" using Cons.prems(1,2) by (simp_all add: cstring_step)
  have w: "wrap32 (10 * wrap32 (- v) - (sint d - 48)) = wrap32 (- (10 * v + (sint d - 48)))"
    unfolding wrap32_step by (simp add: algebra_simps)
  have "atoi_loop m s (wrap32 (- v)) = atoi_loop m (s + 1) (wrap32 (- (10 * v + (sint d - 48))))"
    using d(1,2) by (subst atoi_loop.simps) (simp only: w if_True)
  also have "\<dots> = Some (wrap32 (- dec_val (10 * v + (sint d - 48)) ds))"
    using Cons.prems(2) by (intro Cons.IH[OF d(3) _ Cons.prems(3)]) simp
  also have "dec_val (10 * v + (sint d - 48)) ds = dec_val v (d # ds)" by (simp add: dec_val_def)
  finally show ?case .
qed

lemma skip_space_ok:
  "cstring m s (sp @ rest) \<Longrightarrow> \<forall>c \<in> set sp. isspace (sint c) \<Longrightarrow> rest = [] \<or> \<not> isspace (sint (hd rest)) \<Longrightarrow>
    skip_space m s = Some (s + length sp)"
proof (induction sp arbitrary: s)
  case Nil
  have "\<not> isspace (sint (m s))"
    using Nil.prems(1,3) by (cases rest) (auto simp: cstring_end cstring_step isspace_def)
  then show ?case by (subst skip_space.simps) simp
next
  case (Cons c sp)
  have "skip_space m s = skip_space m (s + 1)" using Cons.prems by (subst skip_space.simps) (simp add: cstring_step)
  then show ?case using Cons.IH[of "s + 1"] Cons.prems by (simp add: cstring_step)
qed

lemma atoi_ok:
  assumes m: "cstring m s (sp @ sg @ ds @ rest)"
    and sp: "\<forall>c \<in> set sp. isspace (sint c)" and sg: "sg \<in> {[], [43], [45]}"
    and ds: "\<forall>d \<in> set ds. isdigit (sint d)" "ds \<noteq> []" and rest: "rest = [] \<or> \<not> isdigit (sint (hd rest))"
  shows "atoi m s = Some (wrap32 (if sg = [45] then - dec_val 0 ds else dec_val 0 ds))"
proof -
  let ?s = "s + length sp"
  have m1: "cstring m ?s (sg @ ds @ rest)" and m2: "cstring m (?s + length sg) (ds @ rest)"
    using cstring_drop[OF m, of "length sp"] cstring_drop[OF m, of "length (sp @ sg)"] by (simp_all add: add.assoc)
  have "\<not> isspace (sint (hd (sg @ ds @ rest)))" using sg ds by (cases ds) (auto simp: isdigit_def isspace_def)
  then have k: "skip_space m s = Some ?s" using skip_space_ok[OF m sp] by blast
  have l: "atoi_loop m (?s + length sg) 0 = Some (wrap32 (- dec_val 0 ds))"
    using atoi_loop_ok[OF m2 ds(1) rest, of 0] by (simp add: wrap32_def)
  have h: "m (?s + length sg) \<noteq> 45" "m (?s + length sg) \<noteq> 43"
    using m2 ds by (cases ds; auto simp: cstring_step isdigit_def)+
  consider "sg = []" | "sg = [43]" | "sg = [45]" using sg by blast
  then show ?thesis
  proof cases
    case 1
    then show ?thesis using l h by (simp add: atoi_def k wrap32_minus)
  next
    case 2
    then have "m ?s = 43" using m1 by (simp add: cstring_step)
    then show ?thesis using l 2 by (simp add: atoi_def k wrap32_minus)
  next
    case 3
    then have "m ?s = 45" using m1 by (simp add: cstring_step)
    then show ?thesis using l 3 by (simp add: atoi_def k)
  qed
qed

lemma atol_atoi: "atol m s = atoi m s"
  by (simp add: atol_def atoi_def)

section \<open>Properties\<close>

text \<open>
  C35: \<^verbatim>\<open>strcmp\<close> returns zero exactly for equal strings and a negative number exactly when the
  first one comes first in the lexicographic order of unsigned bytes.
\<close>

theorem strcmp_correct:
  assumes "cstring m l xs" and "cstring m r ys"
  shows "\<exists>v. strcmp m l r = Some v \<and> (v = 0 \<longleftrightarrow> xs = ys) \<and> (v < 0 \<longleftrightarrow> (xs, ys) \<in> lexord {(a, b). a < b})"
  by (rule strcmp_ok[OF assms])

theorem strcmp_correct_witness:
  "\<exists>v. strcmp (\<lambda>a. if a = 0 then 1 else if a = 2 then 200 else 0) 0 2 = Some v \<and> v < 0"
  using strcmp_correct[of "\<lambda>a. if a = 0 then 1 else if a = 2 then 200 else 0" 0 "[1]" 2 "[200]"]
  by (auto simp: cstring_step cstring_end)


text \<open>
  C38: \<^verbatim>\<open>atoi\<close> reads blanks, a sign and digits and returns the value, reduced to 32 bits.
  \<^verbatim>\<open>atol\<close> returns the same number, so it loses the upper half of a \<^verbatim>\<open>long\<close>.
\<close>

theorem atoi_correct:
  assumes "cstring m s (sp @ sg @ ds @ rest)" and "\<forall>c \<in> set sp. isspace (sint c)" and "sg \<in> {[], [43], [45]}"
    and "\<forall>d \<in> set ds. isdigit (sint d)" and "ds \<noteq> []" and "rest = [] \<or> \<not> isdigit (sint (hd rest))"
  shows "atoi m s = Some (wrap32 (if sg = [45] then - dec_val 0 ds else dec_val 0 ds)) \<and> atol m s = atoi m s"
  using atoi_ok[OF assms] by (simp add: atol_atoi)

theorem atoi_correct_witness:
  "atoi (\<lambda>a. if a = 0 then 32 else if a = 1 then 45 else if a = 2 then 52 else if a = 3 then 50 else 0) 0 = Some (-42)"
  using atoi_correct[of "\<lambda>a. if a = 0 then 32 else if a = 1 then 45 else if a = 2 then 52 else if a = 3 then 50 else 0" 0 "[32]" "[45]" "[52, 50]" "[]"]
  by (simp add: cstring_step cstring_end isspace_def isdigit_def dec_val_def wrap32_def)

end
