(* ===== verification/C_Sort.thy ===== *)
theory C_Sort
  imports C_String_Num
begin

text \<open>
  Sorting and searching of \<^verbatim>\<open>libc/src/stdlib/stdlib.c\<close>. An array is a range of bytes, an element
  \<open>sz\<close> of them, and the comparison function an argument that reads the memory at two
  addresses. Pointer arithmetic is modulo 64 bits, as compiled.
\<close>

section \<open>Insertion sort\<close>

type_synonym compar = "cmem \<Rightarrow> nat \<Rightarrow> nat \<Rightarrow> int"

text \<open>The search for the place of the element at \<open>t1\<close>, from the right.\<close>

partial_function (option) sort_find :: "compar \<Rightarrow> cmem \<Rightarrow> nat \<Rightarrow> nat \<Rightarrow> nat \<Rightarrow> nat \<Rightarrow> nat option" where
  "sort_find compar m lo sz t1 t2 =
     (let t2 = sub64 t2 sz
      in if lo \<le> t2 \<and> compar m t1 t2 < 0 then sort_find compar m lo sz t1 t2 else Some t2)"

text \<open>One byte of each element from \<open>t2\<close> on moves to the next element; \<open>s1\<close> and \<open>s2\<close> of the code are equal between rounds.\<close>

partial_function (option) sort_shift :: "cmem \<Rightarrow> nat \<Rightarrow> nat \<Rightarrow> nat \<Rightarrow> (cmem \<times> nat) option" where
  "sort_shift m sz t2 s1 =
     (let s2 = sub64 s1 sz in if t2 \<le> s2 then sort_shift (m(s1 := m s2)) sz t2 s2 else Some (m, s1))"

text \<open>The counter \<^verbatim>\<open>cnt\<close> is an \<^verbatim>\<open>int\<close>.\<close>

primrec sort_move :: "nat \<Rightarrow> cmem \<Rightarrow> nat \<Rightarrow> nat \<Rightarrow> nat \<Rightarrow> (cmem \<times> nat) option" where
  "sort_move 0 m sz t2 t1 = Some (m, t1)"
| "sort_move (Suc cnt) m sz t2 t1 =
     Option.bind (sort_shift m sz t2 t1) (\<lambda>(m', s1). sort_move cnt (m'(s1 := m t1)) sz t2 (add64 t1 1))"

partial_function (option) sort_loop :: "compar \<Rightarrow> cmem \<Rightarrow> nat \<Rightarrow> nat \<Rightarrow> nat \<Rightarrow> nat \<Rightarrow> cmem option" where
  "sort_loop compar m lo sz bound t1 =
     (if t1 < bound
      then Option.bind (sort_find compar m lo sz t1 t1) (\<lambda>t2.
             let t2 = add64 t2 sz
             in if t1 \<noteq> t2
                then Option.bind (sort_move (sz mod 2 ^ 32) m sz t2 t1) (\<lambda>(m, t1). sort_loop compar m lo sz bound t1)
                else sort_loop compar m lo sz bound (add64 t1 sz))
      else Some m)"

definition insertion_sort :: "compar \<Rightarrow> cmem \<Rightarrow> nat \<Rightarrow> nat \<Rightarrow> nat \<Rightarrow> cmem option" where
  "insertion_sort compar m lo nmemb sz =
     sort_loop compar m lo sz (add64 lo (nmemb * sz mod 2 ^ 64)) (add64 lo sz)"

definition insertion_sort_r :: "(cmem \<Rightarrow> nat \<Rightarrow> nat \<Rightarrow> nat \<Rightarrow> int) \<Rightarrow> cmem \<Rightarrow> nat \<Rightarrow> nat \<Rightarrow> nat \<Rightarrow> nat \<Rightarrow> cmem option" where
  "insertion_sort_r compar m lo nmemb sz arg =
     sort_loop (\<lambda>m a b. compar m a b arg) m lo sz (add64 lo (nmemb * sz mod 2 ^ 64)) (add64 lo sz)"

definition qsort :: "compar \<Rightarrow> cmem \<Rightarrow> nat \<Rightarrow> nat \<Rightarrow> nat \<Rightarrow> cmem option" where
  "qsort compar m lo nmemb sz = (if nmemb \<le> 1 then Some m else insertion_sort compar m lo nmemb sz)"

definition qsort_r :: "(cmem \<Rightarrow> nat \<Rightarrow> nat \<Rightarrow> nat \<Rightarrow> int) \<Rightarrow> cmem \<Rightarrow> nat \<Rightarrow> nat \<Rightarrow> nat \<Rightarrow> nat \<Rightarrow> cmem option" where
  "qsort_r compar m lo nmemb sz arg = (if nmemb \<le> 1 then Some m else insertion_sort_r compar m lo nmemb sz arg)"

section \<open>Binary search\<close>

function bsearch :: "compar \<Rightarrow> cmem \<Rightarrow> nat \<Rightarrow> nat \<Rightarrow> nat \<Rightarrow> nat \<Rightarrow> nat option" where
  "bsearch cmp m key base nel width =
     (if nel > 0
      then let try = base + width * (nel div 2);
               sign = cmp m key try
           in if sign < 0 then bsearch cmp m key base (nel div 2) width
              else if sign > 0 then bsearch cmp m key (try + width) (nel - (nel div 2 + 1)) width
              else Some try
      else None)"
  by auto
termination by (relation "measure (\<lambda>(cmp, m, key, base, nel, width). nel)") auto

declare bsearch.simps [simp del]

section \<open>Insertion, on lists\<close>

fun ins_rev :: "('a \<Rightarrow> 'a \<Rightarrow> int) \<Rightarrow> 'a \<Rightarrow> 'a list \<Rightarrow> 'a list" where
  "ins_rev f x [] = [x]"
| "ins_rev f x (y # ys) = (if f x y < 0 then y # ins_rev f x ys else x # y # ys)"

definition sort_ins :: "('a \<Rightarrow> 'a \<Rightarrow> int) \<Rightarrow> 'a list \<Rightarrow> 'a \<Rightarrow> 'a list" where
  "sort_ins f xs x = rev (ins_rev f x (rev xs))"

lemma ins_rev_split:
  "\<forall>y \<in> set as. f x y < 0 \<Longrightarrow> bs = [] \<or> \<not> f x (hd bs) < 0 \<Longrightarrow> ins_rev f x (as @ bs) = as @ x # bs"
proof (induction as)
  case Nil
  then show ?case by (cases bs) auto
qed simp

lemma sort_ins_split:
  assumes "j \<le> length xs" and "\<forall>k. j \<le> k \<and> k < length xs \<longrightarrow> f x (xs ! k) < 0" and "j = 0 \<or> \<not> f x (xs ! (j - 1)) < 0"
  shows "sort_ins f xs x = take j xs @ x # drop j xs"
proof -
  have r: "rev xs = rev (drop j xs) @ rev (take j xs)" by (simp flip: rev_append)
  have a: "\<forall>y \<in> set (rev (drop j xs)). f x y < 0"
    using assms(2) by (auto simp: in_set_conv_nth)
  have b: "rev (take j xs) = [] \<or> \<not> f x (hd (rev (take j xs))) < 0"
  proof (cases "j = 0")
    case False
    then have ne: "take j xs \<noteq> []" using assms(1) by auto
    have "last (take j xs) = xs ! (j - 1)"
      unfolding last_conv_nth[OF ne] using False assms(1) by (simp add: min_def)
    then show ?thesis using False assms(3) by (simp add: hd_rev)
  qed simp
  have "ins_rev f x (rev xs) = rev (drop j xs) @ x # rev (take j xs)" using ins_rev_split[of "rev (drop j xs)" f x "rev (take j xs)", OF a b] r by simp
  then show ?thesis by (simp add: sort_ins_def)
qed

lemma mset_sort_ins: "mset (sort_ins f xs x) = mset xs + {#x#}"
proof -
  have "mset (ins_rev f x ys) = mset ys + {#x#}" for ys by (induction ys) auto
  then show ?thesis by (simp add: sort_ins_def)
qed

locale preorder_cmp =
  fixes f :: "'a \<Rightarrow> 'a \<Rightarrow> int"
  assumes asym: "f x y < 0 \<Longrightarrow> \<not> f y x < 0"
    and negtrans: "\<not> f y x < 0 \<Longrightarrow> \<not> f z y < 0 \<Longrightarrow> \<not> f z x < 0"
begin

lemma ins_rev_sorted:
  "sorted_wrt (\<lambda>a b. \<not> f a b < 0) ys \<Longrightarrow> sorted_wrt (\<lambda>a b. \<not> f a b < 0) (ins_rev f x ys)"
proof (induction ys)
  case (Cons y ys)
  have s: "set (ins_rev f x ys) = insert x (set ys)" by (induction ys) auto
  show ?case
  proof (cases "f x y < 0")
    case True
    then show ?thesis using Cons s asym by auto
  next
    case False
    then show ?thesis using Cons.prems negtrans by auto
  qed
qed simp

lemma sort_ins_sorted:
  "sorted_wrt (\<lambda>a b. \<not> f b a < 0) xs \<Longrightarrow> sorted_wrt (\<lambda>a b. \<not> f b a < 0) (sort_ins f xs x)"
  unfolding sort_ins_def using ins_rev_sorted[of "rev xs" x] by (simp add: sorted_wrt_rev)

lemma sort_ins_stable:
  "filter (\<lambda>y. \<not> f y z < 0 \<and> \<not> f z y < 0) (sort_ins f xs x) = filter (\<lambda>y. \<not> f y z < 0 \<and> \<not> f z y < 0) (xs @ [x])"
proof -
  let ?P = "\<lambda>y. \<not> f y z < 0 \<and> \<not> f z y < 0"
  have "filter ?P (ins_rev f x ys) = filter ?P (x # ys)" for ys
  proof (induction ys)
    case (Cons y ys)
    have "f x y < 0 \<Longrightarrow> ?P x \<Longrightarrow> \<not> ?P y" using negtrans asym by blast
    then show ?case using Cons by auto
  qed simp
  then show ?thesis by (simp add: sort_ins_def flip: rev_filter)
qed

lemma foldl_ins:
  "sorted_wrt (\<lambda>a b. \<not> f b a < 0) (foldl (sort_ins f) [] xs) \<and> mset (foldl (sort_ins f) [] xs) = mset xs \<and>
    filter (\<lambda>y. \<not> f y z < 0 \<and> \<not> f z y < 0) (foldl (sort_ins f) [] xs) = filter (\<lambda>y. \<not> f y z < 0 \<and> \<not> f z y < 0) xs"
proof (induction xs rule: rev_induct)
  case (snoc x xs)
  then show ?case using sort_ins_sorted sort_ins_stable[of z] by (simp add: mset_sort_ins)
qed simp

end

section \<open>Elements in memory\<close>

definition elem :: "cmem \<Rightarrow> nat \<Rightarrow> nat \<Rightarrow> byte list" where
  "elem m sz a = map (\<lambda>i. m (a + i)) [0..<sz]"

definition elems :: "cmem \<Rightarrow> nat \<Rightarrow> nat \<Rightarrow> nat \<Rightarrow> byte list list" where
  "elems m lo sz n = map (\<lambda>i. elem m sz (lo + i * sz)) [0..<n]"

text \<open>The memory after the first \<open>c\<close> bytes of the element at \<open>t1\<close> have been moved down to \<open>t2\<close>.\<close>

definition rotated :: "cmem \<Rightarrow> nat \<Rightarrow> nat \<Rightarrow> nat \<Rightarrow> nat \<Rightarrow> cmem" where
  "rotated m sz t2 t1 c = (\<lambda>a.
     if t2 \<le> a \<and> a < t1 + sz \<and> (a - t2) mod sz < c
     then if t2 + sz \<le> a then m (a - sz) else m (t1 + (a - t2)) else m a)"

definition on_column :: "nat \<Rightarrow> nat \<Rightarrow> nat \<Rightarrow> nat \<Rightarrow> bool" where
  "on_column sz p k a \<longleftrightarrow> (\<exists>j. 0 < j \<and> j \<le> k \<and> a = p + j * sz)"

lemma on_column_Suc: "on_column sz p (Suc k) a \<longleftrightarrow> on_column sz p k a \<or> a = p + Suc k * sz"
  unfolding on_column_def le_Suc_eq by blast

lemma on_column_less: "on_column sz p k a \<Longrightarrow> 0 < sz \<Longrightarrow> a < p + Suc k * sz"
proof -
  assume "on_column sz p k a" "0 < sz"
  then obtain j where j: "j \<le> k" "a = p + j * sz" unfolding on_column_def by blast
  have "j * sz \<le> k * sz" using j(1) by simp
  then show ?thesis using \<open>0 < sz\<close> unfolding j(2) mult_Suc by linarith
qed

lemma shift_step:
  assumes "0 < sz"
  shows "(if on_column sz p k a then (m(p + Suc k * sz := m (p + k * sz))) (a - sz) else (m(p + Suc k * sz := m (p + k * sz))) a) =
    (if on_column sz p (Suc k) a then m (a - sz) else (m :: cmem) a)"
proof (cases "on_column sz p k a")
  case True
  then have "a - sz \<noteq> p + Suc k * sz" using on_column_less[OF True assms] by linarith
  then show ?thesis using True unfolding on_column_Suc by (simp only: if_True fun_upd_other simp_thms)
next
  case False
  have e: "p + Suc k * sz - sz = p + k * sz" by simp
  show ?thesis using False unfolding on_column_Suc by (cases "a = p + Suc k * sz") (simp_all only: e if_True if_False fun_upd_same fun_upd_other simp_thms)
qed

lemma sort_shift_ok:
  assumes "0 < sz" and "c < sz" and "sz \<le> t2"
  shows "t2 + c + k * sz < 2 ^ 64 \<Longrightarrow> sort_shift m sz t2 (t2 + c + k * sz) =
    Some (\<lambda>a. if on_column sz (t2 + c) k a then m (a - sz) else m a, t2 + c)"
proof (induction k arbitrary: m)
  case 0
  have "sub64 (t2 + c) sz = t2 + c - sz" using assms 0 by (intro sub64_exact) auto
  then show ?case using assms(2,3) by (subst sort_shift.simps) (auto simp: Let_def on_column_def)
next
  case (Suc k)
  let ?s = "t2 + c + Suc k * sz"
  have s2: "sub64 ?s sz = t2 + c + k * sz" using Suc.prems by (subst sub64_exact) auto
  have b: "t2 + c + k * sz < 2 ^ 64" "t2 \<le> t2 + c + k * sz" using Suc.prems by simp_all
  have "sort_shift m sz t2 ?s = sort_shift (m(?s := m (t2 + c + k * sz))) sz t2 (t2 + c + k * sz)"
    by (subst sort_shift.simps) (simp only: s2 Let_def b(2) if_True)
  also have "\<dots> = Some (\<lambda>a. if on_column sz (t2 + c) (Suc k) a then m (a - sz) else m a, t2 + c)"
    unfolding Suc.IH[OF b(1)] shift_step[OF assms(1)] ..
  finally show ?case .
qed

lemma mod_less_Suc: "0 < sz \<Longrightarrow> (x :: nat) mod sz < Suc c \<longleftrightarrow> x mod sz < c \<or> x mod sz = c"
  by auto

lemma on_column_iff:
  assumes "c < sz"
  shows "on_column sz (t2 + c) k a \<or> a = t2 + c \<longleftrightarrow> t2 \<le> a \<and> a < t2 + k * sz + sz \<and> (a - t2) mod sz = c"
proof
  assume "on_column sz (t2 + c) k a \<or> a = t2 + c"
  then obtain j where j: "j \<le> k" "a = t2 + c + j * sz" unfolding on_column_def by (metis add.right_neutral mult_0 zero_le)
  have "j * sz \<le> k * sz" using j(1) by simp
  then have "a < t2 + k * sz + sz" using j(2) assms by linarith
  moreover have "a - t2 = c + j * sz" using j(2) by simp
  ultimately show "t2 \<le> a \<and> a < t2 + k * sz + sz \<and> (a - t2) mod sz = c" using j(2) assms by simp
next
  assume h: "t2 \<le> a \<and> a < t2 + k * sz + sz \<and> (a - t2) mod sz = c"
  let ?j = "(a - t2) div sz"
  have e: "a - t2 = ?j * sz + c" using h by (metis div_mult_mod_eq)
  then have a: "a = t2 + c + ?j * sz" using h by linarith
  have "?j * sz < Suc k * sz" using h e unfolding mult_Suc by linarith
  then have "?j \<le> k" by (simp only: mult_less_cancel2 less_Suc_eq_le)
  then show "on_column sz (t2 + c) k a \<or> a = t2 + c"
    using a unfolding on_column_def by (cases "?j = 0") (simp, blast)
qed

lemma rotated_step:
  assumes "0 < sz" and "c < sz"
  shows "(\<lambda>a. if on_column sz (t2 + c) k a then rotated m sz t2 (t2 + k * sz) c (a - sz)
      else rotated m sz t2 (t2 + k * sz) c a)(t2 + c := rotated m sz t2 (t2 + k * sz) c (t2 + c + k * sz)) =
    rotated m sz t2 (t2 + k * sz) (Suc c)" (is "?L = ?R")
proof
  fix a
  let ?r = "rotated m sz t2 (t2 + k * sz) c"
  have keep: "?r (t2 + c + j * sz) = m (t2 + c + j * sz)" for j
    using assms by (simp add: rotated_def add.assoc)
  consider (bottom) "a = t2 + c" | (mid) "on_column sz (t2 + c) k a" "a \<noteq> t2 + c" | (out) "\<not> on_column sz (t2 + c) k a" "a \<noteq> t2 + c" by blast
  then show "?L a = ?R a"
  proof cases
    case bottom
    have "?R (t2 + c) = m (t2 + k * sz + c)" using assms by (simp add: rotated_def)
    then show ?thesis unfolding bottom fun_upd_same keep by (simp only: add.assoc add.commute[of c])
  next
    case mid
    obtain i where i: "a = t2 + c + Suc i * sz" using mid(1) unfolding on_column_def by (metis gr0_implies_Suc)
    have "a - sz = t2 + c + i * sz" using i by simp
    then have "?r (a - sz) = m (a - sz)" using keep[of i] by (simp only:)
    moreover have "?R a = m (a - sz)" using on_column_iff[OF assms(2), of t2 k a] mid(1) i by (simp add: rotated_def)
    ultimately show ?thesis using mid by simp
  next
    case out
    then have "?r a = ?R a" using on_column_iff[OF assms(2), of t2 k a] assms(1) by (auto simp: rotated_def mod_less_Suc)
    then show ?thesis using out by simp
  qed
qed

lemma sort_move_ok:
  assumes "0 < sz" and "sz \<le> t2" and "t2 + k * sz + sz < 2 ^ 64"
  shows "c + cnt = sz \<Longrightarrow> sort_move cnt (rotated m sz t2 (t2 + k * sz) c) sz t2 (t2 + c + k * sz) =
    Some (rotated m sz t2 (t2 + k * sz) sz, t2 + k * sz + sz)"
proof (induction cnt arbitrary: c)
  case (Suc cnt)
  have c: "c < sz" using Suc.prems by simp
  have a: "add64 (t2 + c + k * sz) 1 = t2 + Suc c + k * sz" using c assms(3) by (subst add64_exact) auto
  have b: "t2 + c + k * sz < 2 ^ 64" using c assms(3) by simp
  show ?case using Suc.IH[of "Suc c"] Suc.prems
    by (simp only: sort_move.simps sort_shift_ok[OF assms(1) c assms(2) b] bind.simps prod.case rotated_step[OF assms(1) c] a)
qed simp

lemma rotated_0: "rotated m sz t2 t1 0 = m"
  by (simp add: rotated_def)

lemma elem_nth: "i < sz \<Longrightarrow> elem m sz a ! i = m (a + i)"
  by (simp add: elem_def)

lemma elems_nth: "i < n \<Longrightarrow> elems m lo sz n ! i = elem m sz (lo + i * sz)"
  by (simp add: elems_def)

lemma length_elems [simp]: "length (elems m lo sz n) = n" "length (elem m sz a) = sz"
  by (simp_all add: elems_def elem_def)

lemma elem_rotated:
  assumes "0 < sz" and "j \<le> k"
  shows "elem (rotated m sz (lo + j * sz) (lo + k * sz) sz) sz (lo + i * sz) =
    elem m sz (lo + (if i < j \<or> k < i then i else if i = j then k else i - 1) * sz)"
proof (rule nth_equalityI)
  fix b assume "b < length (elem (rotated m sz (lo + j * sz) (lo + k * sz) sz) sz (lo + i * sz))"
  then have b: "b < sz" by simp
  have m: "(x :: nat) mod sz < sz" for x using assms(1) by simp
  consider "i < j" | "k < i" | "i = j" | "j < i" "i \<le> k" by linarith
  then have "rotated m sz (lo + j * sz) (lo + k * sz) sz (lo + i * sz + b) =
      m (lo + (if i < j \<or> k < i then i else if i = j then k else i - 1) * sz + b)"
  proof cases
    case 1
    have "Suc i * sz \<le> j * sz" using 1 by (intro mult_le_mono1) simp
    then have "i * sz + b < j * sz" using b by simp
    then show ?thesis using 1 by (simp add: rotated_def)
  next
    case 2
    have "Suc k * sz \<le> i * sz" using 2 by (intro mult_le_mono1) simp
    then show ?thesis using 2 by (simp add: rotated_def)
  next
    case 3
    have "j * sz \<le> k * sz" using assms(2) by simp
    then have "j * sz + b < k * sz + sz" using b by linarith
    then show ?thesis using 3 b assms(2) m by (simp add: rotated_def)
  next
    case 4
    have ik: "i * sz \<le> k * sz" and ji: "Suc j * sz \<le> i * sz" using 4 by (intro mult_le_mono1; simp)+
    have "i * sz = (i - 1) * sz + sz" using 4(1) by (cases i) simp_all
    then have e: "lo + i * sz + b - sz = lo + (i - 1) * sz + b" by simp
    have "i * sz + b < k * sz + sz" using ik b by linarith
    then show ?thesis using 4 b m ji e by (simp add: rotated_def)
  qed
  then show "elem (rotated m sz (lo + j * sz) (lo + k * sz) sz) sz (lo + i * sz) ! b =
      elem m sz (lo + (if i < j \<or> k < i then i else if i = j then k else i - 1) * sz) ! b" using b by (simp add: elem_nth)
qed simp

lemma elems_rotated:
  assumes "0 < sz" and "j \<le> k" and "k < n"
  shows "elems (rotated m sz (lo + j * sz) (lo + k * sz) sz) lo sz n =
    (let E = elems m lo sz n in (take j (take k E) @ E ! k # drop j (take k E)) @ drop (Suc k) E)"
proof (rule nth_equalityI)
  fix i assume "i < length (elems (rotated m sz (lo + j * sz) (lo + k * sz) sz) lo sz n)"
  then have i: "i < n" by simp
  let ?E = "elems m lo sz n"
  consider "i < j" | "i = j" | "j < i" "i \<le> k" | "k < i" by linarith
  then have "((take j (take k ?E) @ ?E ! k # drop j (take k ?E)) @ drop (Suc k) ?E) ! i =
      ?E ! (if i < j \<or> k < i then i else if i = j then k else i - 1)"
  proof cases
    case 3
    then obtain x where "i = Suc (j + x)" using less_iff_Suc_add by auto
    moreover have "x < k - j" using 3 calculation by linarith
    ultimately show ?thesis using 3 i assms(2,3) by (simp add: nth_append)
  next
    case 4
    then obtain x where "i = Suc (k + x)" using less_iff_Suc_add by auto
    moreover have "\<not> k + x - j < k - j" by simp
    ultimately show ?thesis using 4 i assms(2,3) by (simp add: nth_append)
  qed (use i assms(2,3) in \<open>simp_all add: nth_append\<close>)
  then show "elems (rotated m sz (lo + j * sz) (lo + k * sz) sz) lo sz n ! i =
      (let E = elems m lo sz n in (take j (take k E) @ E ! k # drop j (take k E)) @ drop (Suc k) E) ! i"
    using i assms(2,3) unfolding elems_nth[OF i] elem_rotated[OF assms(1,2)] Let_def by (simp add: elems_nth)
qed (use assms in \<open>simp add: Let_def min_def\<close>)

section \<open>The sort\<close>

text \<open>A comparison function whose result depends on the bytes of the two elements only.\<close>

locale comparator = preorder_cmp f for f :: "byte list \<Rightarrow> byte list \<Rightarrow> int" +
  fixes compar :: compar and sz :: nat
  assumes reads: "compar m a b = f (elem m sz a) (elem m sz b)"
begin

lemma sort_find_ok:
  assumes "0 < sz" and "sz \<le> lo"
  shows "lo + k * sz < 2 ^ 64 \<Longrightarrow> \<exists>j \<le> k. sort_find compar m lo sz t1 (lo + k * sz) = Some (lo + j * sz - sz) \<and>
    (\<forall>q. j \<le> q \<and> q < k \<longrightarrow> f (elem m sz t1) (elem m sz (lo + q * sz)) < 0) \<and>
    (j = 0 \<or> \<not> f (elem m sz t1) (elem m sz (lo + (j - 1) * sz)) < 0)"
proof (induction k)
  case 0
  have "sub64 lo sz = lo - sz" using assms 0 by (intro sub64_exact) auto
  moreover have "\<not> lo \<le> lo - sz" using assms by simp
  ultimately show ?case by (subst sort_find.simps) (simp add: Let_def)
next
  case (Suc k)
  have s: "sub64 (lo + Suc k * sz) sz = lo + k * sz" using Suc.prems by (subst sub64_exact) auto
  show ?case
  proof (cases "f (elem m sz t1) (elem m sz (lo + k * sz)) < 0")
    case True
    have "sort_find compar m lo sz t1 (lo + Suc k * sz) = sort_find compar m lo sz t1 (lo + k * sz)"
      using True by (subst sort_find.simps) (simp only: s Let_def reads le_add1 if_True simp_thms)
    moreover obtain j where j: "j \<le> k" "sort_find compar m lo sz t1 (lo + k * sz) = Some (lo + j * sz - sz)"
      "\<forall>q. j \<le> q \<and> q < k \<longrightarrow> f (elem m sz t1) (elem m sz (lo + q * sz)) < 0"
      "j = 0 \<or> \<not> f (elem m sz t1) (elem m sz (lo + (j - 1) * sz)) < 0"
      using Suc.IH Suc.prems by auto
    moreover have "\<forall>q. j \<le> q \<and> q < Suc k \<longrightarrow> f (elem m sz t1) (elem m sz (lo + q * sz)) < 0"
      using j(3) True less_Suc_eq by metis
    ultimately show ?thesis by (metis le_SucI)
  next
    case False
    have "sort_find compar m lo sz t1 (lo + Suc k * sz) = Some (lo + k * sz)"
      using False by (subst sort_find.simps) (simp only: s Let_def reads if_False simp_thms)
    then show ?thesis using False by (intro exI[of _ "Suc k"]) simp
  qed
qed

lemma sort_step_ok:
  assumes "0 < sz" and "sz < 2 ^ 32" and "sz \<le> lo" and "lo + n * sz < 2 ^ 64" and "i < n"
  shows "\<exists>m'. sort_loop compar m lo sz (lo + n * sz) (lo + i * sz) = sort_loop compar m' lo sz (lo + n * sz) (lo + Suc i * sz) \<and>
    elems m' lo sz n = sort_ins f (take i (elems m lo sz n)) (elems m lo sz n ! i) @ drop (Suc i) (elems m lo sz n) \<and>
    (\<forall>a. a < lo \<or> lo + n * sz \<le> a \<longrightarrow> m' a = m a)"
proof -
  let ?E = "elems m lo sz n" and ?t = "lo + i * sz"
  have "Suc i * sz \<le> n * sz" using assms(5) by (intro mult_le_mono1) simp
  then have b: "?t + sz \<le> lo + n * sz" "?t < lo + n * sz" "?t + sz < 2 ^ 64" "?t < 2 ^ 64"
    using assms(1,4) unfolding mult_Suc by linarith+
  obtain j where j: "j \<le> i" "sort_find compar m lo sz ?t ?t = Some (lo + j * sz - sz)"
      "\<forall>q. j \<le> q \<and> q < i \<longrightarrow> f (elem m sz ?t) (elem m sz (lo + q * sz)) < 0"
      "j = 0 \<or> \<not> f (elem m sz ?t) (elem m sz (lo + (j - 1) * sz)) < 0"
    using sort_find_ok[OF assms(1,3) b(4), of m ?t] by blast
  have ins: "sort_ins f (take i ?E) (?E ! i) = take j (take i ?E) @ ?E ! i # drop j (take i ?E)"
    by (rule sort_ins_split) (use j assms(5) in \<open>auto simp: elems_nth\<close>)
  have jb: "j * sz \<le> i * sz" using j(1) by simp
  have t2: "add64 (lo + j * sz - sz) sz = lo + j * sz"
  proof -
    have "lo + j * sz - sz + sz = lo + j * sz" using assms(3) by simp
    moreover have "lo + j * sz < 2 ^ 64" using jb b(4) by linarith
    ultimately show ?thesis by (simp only: add64_exact)
  qed
  note u = sort_loop.simps[of compar m lo sz "lo + n * sz" ?t]
  show ?thesis
  proof (cases "i = j")
    case True
    have "sort_loop compar m lo sz (lo + n * sz) ?t = sort_loop compar m lo sz (lo + n * sz) (lo + Suc i * sz)"
      unfolding u j(2) bind.simps t2 Let_def using b(2) True by (simp add: add64_exact[OF b(3)[unfolded True]] add.left_commute add.commute)
    moreover have "?E = sort_ins f (take i ?E) (?E ! i) @ drop (Suc i) ?E"
      unfolding ins using True assms(5) by (simp add: id_take_nth_drop)
    ultimately show ?thesis by blast
  next
    case False
    let ?m = "rotated m sz (lo + j * sz) ?t sz"
    have e: "lo + j * sz + (i - j) * sz = ?t" using jb j(1) by (simp add: diff_mult_distrib)
    have "sort_move sz m sz (lo + j * sz) ?t = Some (?m, lo + Suc i * sz)"
    proof -
      have "sz \<le> lo + j * sz" using assms(3) by simp
      note sort_move_ok[OF assms(1) this, of "i - j" 0 sz m, unfolded e rotated_0 add_0_right, OF b(3)]
      moreover have "lo + Suc i * sz = ?t + sz" by simp
      ultimately show ?thesis by (simp only: e add_0 refl)
    qed
    moreover have "?t \<noteq> lo + j * sz" using False assms(1) by simp
    ultimately have "sort_loop compar m lo sz (lo + n * sz) ?t = sort_loop compar ?m lo sz (lo + n * sz) (lo + Suc i * sz)"
      unfolding u j(2) bind.simps t2 Let_def using b assms(2) by simp
    moreover have "elems ?m lo sz n = sort_ins f (take i ?E) (?E ! i) @ drop (Suc i) ?E"
      unfolding elems_rotated[OF assms(1) j(1) assms(5)] Let_def ins ..
    moreover have "?m a = m a" if "a < lo \<or> lo + n * sz \<le> a" for a using that b by (auto simp: rotated_def)
    ultimately show ?thesis by blast
  qed
qed

lemma length_sort_ins [simp]: "length (sort_ins f xs x) = Suc (length xs)"
  by (metis mset_sort_ins size_mset size_add_mset add_mset_add_single)

lemma sort_loop_ok:
  assumes "0 < sz" and "sz < 2 ^ 32" and "sz \<le> lo" and "lo + n * sz < 2 ^ 64"
  shows "i \<le> n \<Longrightarrow> \<exists>m'. sort_loop compar m lo sz (lo + n * sz) (lo + i * sz) = Some m' \<and>
    elems m' lo sz n = foldl (sort_ins f) (take i (elems m lo sz n)) (drop i (elems m lo sz n)) \<and>
    (\<forall>a. a < lo \<or> lo + n * sz \<le> a \<longrightarrow> m' a = m a)"
proof (induction "n - i" arbitrary: i m)
  case 0
  then show ?case by (subst sort_loop.simps) simp
next
  case (Suc d)
  have i: "i < n" using Suc.hyps(2) by simp
  let ?E = "elems m lo sz n"
  obtain m1 where m1: "sort_loop compar m lo sz (lo + n * sz) (lo + i * sz) = sort_loop compar m1 lo sz (lo + n * sz) (lo + Suc i * sz)"
    "elems m1 lo sz n = sort_ins f (take i ?E) (?E ! i) @ drop (Suc i) ?E" "\<forall>a. a < lo \<or> lo + n * sz \<le> a \<longrightarrow> m1 a = m a"
    using sort_step_ok[OF assms i] by blast
  obtain m' where m': "sort_loop compar m1 lo sz (lo + n * sz) (lo + Suc i * sz) = Some m'"
    "elems m' lo sz n = foldl (sort_ins f) (take (Suc i) (elems m1 lo sz n)) (drop (Suc i) (elems m1 lo sz n))"
    "\<forall>a. a < lo \<or> lo + n * sz \<le> a \<longrightarrow> m' a = m1 a"
    using Suc.hyps(1)[OF _ Suc_leI[OF i], of m1] Suc.hyps(2) by (metis Suc_diff_Suc i old.nat.inject)
  have "foldl (sort_ins f) (take i ?E) (drop i ?E) = foldl (sort_ins f) (sort_ins f (take i ?E) (?E ! i)) (drop (Suc i) ?E)"
    using i by (simp flip: Cons_nth_drop_Suc)
  moreover have "take (Suc i) (elems m1 lo sz n) = sort_ins f (take i ?E) (?E ! i)" "drop (Suc i) (elems m1 lo sz n) = drop (Suc i) ?E"
    unfolding m1(2) using i by simp_all
  ultimately show ?case using m1(1,3) m' by (intro exI[of _ m']) simp
qed

lemma qsort_ok:
  assumes "sz < 2 ^ 32" and "sz \<le> lo" and "lo + n * sz < 2 ^ 64" and "0 < sz"
  shows "\<exists>m'. qsort compar m lo n sz = Some m' \<and> elems m' lo sz n = foldl (sort_ins f) [] (elems m lo sz n) \<and>
    (\<forall>a. a < lo \<or> lo + n * sz \<le> a \<longrightarrow> m' a = m a)"
proof (cases "n \<le> 1")
  case True
  then have "elems m lo sz n = foldl (sort_ins f) [] (elems m lo sz n)"
    by (cases n) (auto simp: elems_def sort_ins_def)
  then show ?thesis using True by (simp add: qsort_def)
next
  case False
  have "1 * sz \<le> n * sz" using False by (intro mult_le_mono1) simp
  then have "lo + sz < 2 ^ 64" using assms(3) by linarith
  then have b: "add64 lo (n * sz mod 2 ^ 64) = lo + n * sz" "add64 lo sz = lo + 1 * sz"
    using assms(3) by (simp_all add: add64_def)
  have "foldl (sort_ins f) (take 1 (elems m lo sz n)) (drop 1 (elems m lo sz n)) = foldl (sort_ins f) [] (elems m lo sz n)"
    by (cases "elems m lo sz n") (auto simp: sort_ins_def)
  then show ?thesis using sort_loop_ok[OF assms(4,1,2,3), of 1 m] False unfolding qsort_def insertion_sort_def b by simp
qed

end

section \<open>The comparison with memcmp\<close>

fun bytes_cmp :: "byte list \<Rightarrow> byte list \<Rightarrow> int" where
  "bytes_cmp (x # xs) (y # ys) = (if x = y then bytes_cmp xs ys else uint x - uint y)"
| "bytes_cmp [] [] = 0"
| "bytes_cmp [] (y # ys) = -1"
| "bytes_cmp (x # xs) [] = 1"

lemma elem_Suc: "elem m (Suc n) a = m a # elem m n (a + 1)"
  by (simp add: elem_def map_upt_Suc del: upt_Suc)

lemma memcmp_bytes: "memcmp m a b n = bytes_cmp (elem m n a) (elem m n b)"
proof (induction n arbitrary: a b)
  case (Suc n)
  then show ?case unfolding elem_Suc by simp
qed (simp add: elem_def)

lemma bytes_cmp_less: "bytes_cmp xs ys < 0 \<longleftrightarrow> (xs, ys) \<in> lexord {(a, b). a < b}"
  by (induction xs ys rule: bytes_cmp.induct) (auto simp: word_less_def)

lemma bytes_cmp_anti: "bytes_cmp ys xs = - bytes_cmp xs ys"
  by (induction xs ys rule: bytes_cmp.induct) auto

lemma bytes_cmp_trans: "\<not> bytes_cmp y x < 0 \<Longrightarrow> \<not> bytes_cmp z y < 0 \<Longrightarrow> \<not> bytes_cmp z x < 0"
proof (induction x arbitrary: y z)
  case Nil
  then show ?case by (cases z) auto
next
  case (Cons a x)
  then show ?case by (cases y; cases z) (auto simp: word_uint_eq_iff split: if_splits)
qed

interpretation mc: comparator bytes_cmp "\<lambda>m a b. memcmp m a b sz" sz for sz
proof
  show "bytes_cmp x y < 0 \<Longrightarrow> \<not> bytes_cmp y x < 0" for x y using bytes_cmp_anti[of x y] by simp
qed (rule bytes_cmp_trans, assumption+, rule memcmp_bytes)

section \<open>Binary search\<close>

lemma bsearch_ok:
  assumes "\<And>i j. i \<le> j \<Longrightarrow> j < n \<Longrightarrow> cmp m key (b + w * i) < 0 \<Longrightarrow> cmp m key (b + w * j) < 0"
    and "\<And>i j. i \<le> j \<Longrightarrow> j < n \<Longrightarrow> cmp m key (b + w * j) > 0 \<Longrightarrow> cmp m key (b + w * i) > 0"
  shows "case bsearch cmp m key b n w of
      Some p \<Rightarrow> \<exists>i < n. p = b + w * i \<and> cmp m key p = 0
    | None \<Rightarrow> \<forall>i < n. cmp m key (b + w * i) \<noteq> 0"
  using assms
proof (induction n arbitrary: b rule: less_induct)
  case (less n)
  show ?case
  proof (cases "n = 0")
    case True
    then show ?thesis by (simp add: bsearch.simps)
  next
    case False
    define h where "h = n div 2"
    let ?t = "b + w * h"
    have h: "h < n" using False by (simp add: h_def)
    note un = bsearch.simps[of cmp m key b n w, folded h_def, unfolded Let_def]
    consider "cmp m key ?t < 0" | "cmp m key ?t > 0" | "cmp m key ?t = 0" by linarith
    then show ?thesis
    proof cases
      case 1
      have e: "bsearch cmp m key b n w = bsearch cmp m key b h w" unfolding un using 1 False by simp
      have high: "cmp m key (b + w * i) \<noteq> 0" if "h \<le> i" "i < n" for i using less.prems(1)[OF that 1] by simp
      have IH: "case bsearch cmp m key b h w of Some p \<Rightarrow> \<exists>i < h. p = b + w * i \<and> cmp m key p = 0 | None \<Rightarrow> \<forall>i < h. cmp m key (b + w * i) \<noteq> 0"
      proof (rule less.IH[OF h])
        show "i \<le> j \<Longrightarrow> j < h \<Longrightarrow> cmp m key (b + w * i) < 0 \<Longrightarrow> cmp m key (b + w * j) < 0" for i j
          using h by (intro less.prems(1)[of i j]) auto
        show "i \<le> j \<Longrightarrow> j < h \<Longrightarrow> 0 < cmp m key (b + w * j) \<Longrightarrow> 0 < cmp m key (b + w * i)" for i j
          using h by (intro less.prems(2)[of i j]) auto
      qed
      show ?thesis
      proof (cases "bsearch cmp m key b h w")
        case None
        then have "\<forall>i < h. cmp m key (b + w * i) \<noteq> 0" using IH by (simp only: option.case)
        then have "\<forall>i < n. cmp m key (b + w * i) \<noteq> 0" using high not_le by blast
        then show ?thesis unfolding e None option.case .
      next
        case (Some p)
        then have "\<exists>i < h. p = b + w * i \<and> cmp m key p = 0" using IH by (simp only: option.case)
        then show ?thesis unfolding e Some option.case using h less_trans by blast
      qed
    next
      case 2
      let ?k = "n - (h + 1)"
      have e: "bsearch cmp m key b n w = bsearch cmp m key (?t + w) ?k w" unfolding un using 2 False by simp
      have a: "?t + w + w * i = b + w * (h + 1 + i)" for i by (simp add: algebra_simps)
      have k: "?k < n" using False by simp
      have low: "cmp m key (b + w * i) \<noteq> 0" if "i \<le> h" for i using less.prems(2)[OF that h 2] by simp
      have IH: "case bsearch cmp m key (?t + w) ?k w of Some p \<Rightarrow> \<exists>i < ?k. p = ?t + w + w * i \<and> cmp m key p = 0
          | None \<Rightarrow> \<forall>i < ?k. cmp m key (?t + w + w * i) \<noteq> 0"
      proof (rule less.IH[OF k], unfold a)
        show "i \<le> j \<Longrightarrow> j < ?k \<Longrightarrow> cmp m key (b + w * (h + 1 + i)) < 0 \<Longrightarrow> cmp m key (b + w * (h + 1 + j)) < 0" for i j
          by (rule less.prems(1)[of "h + 1 + i" "h + 1 + j"]) simp_all
        show "i \<le> j \<Longrightarrow> j < ?k \<Longrightarrow> 0 < cmp m key (b + w * (h + 1 + j)) \<Longrightarrow> 0 < cmp m key (b + w * (h + 1 + i))" for i j
          by (rule less.prems(2)[of "h + 1 + i" "h + 1 + j"]) simp_all
      qed
      show ?thesis
      proof (cases "bsearch cmp m key (?t + w) ?k w")
        case None
        then have no: "\<forall>i < ?k. cmp m key (b + w * (h + 1 + i)) \<noteq> 0" using IH unfolding a by (simp only: option.case)
        have "cmp m key (b + w * i) \<noteq> 0" if "i < n" for i
        proof (cases "i \<le> h")
          case False
          have i: "i - (h + 1) < ?k" "h + 1 + (i - (h + 1)) = i" using that False by linarith+
          show ?thesis using no[rule_format, OF i(1)] unfolding i(2) .
        qed (rule low)
        then show ?thesis unfolding e None option.case by blast
      next
        case (Some p)
        then have "\<exists>i < ?k. p = b + w * (h + 1 + i) \<and> cmp m key p = 0" using IH unfolding a by (simp only: option.case)
        then obtain i where i: "i < ?k" "p = b + w * (h + 1 + i)" "cmp m key p = 0" by blast
        have "h + 1 + i < n" using i(1) by linarith
        then show ?thesis unfolding e Some option.case using i(2,3) by blast
      qed
    next
      case 3
      then show ?thesis unfolding un using False h by auto
    qed
  qed
qed

section \<open>Properties\<close>

text \<open>
  C39: \<^verbatim>\<open>qsort\<close> returns, and with a comparison function that orders the elements by their bytes it
  leaves a stable sort of the array: the same elements, in order, equal ones in their old
  order; no byte outside the array changes.
\<close>

theorem qsort_correct:
  assumes "\<And>m a b. compar m a b = f (elem m sz a) (elem m sz b)"
    and "\<And>x y. f x y < 0 \<Longrightarrow> \<not> f y x < 0" and "\<And>x y z. \<not> f y x < 0 \<Longrightarrow> \<not> f z y < 0 \<Longrightarrow> \<not> f z x < 0"
    and "0 < sz" and "sz < 2 ^ 32" and "sz \<le> lo" and "lo + n * sz < 2 ^ 64"
  shows "\<exists>m'. qsort compar m lo n sz = Some m' \<and>
    sorted_wrt (\<lambda>a b. \<not> f b a < 0) (elems m' lo sz n) \<and> mset (elems m' lo sz n) = mset (elems m lo sz n) \<and>
    (\<forall>z. filter (\<lambda>y. \<not> f y z < 0 \<and> \<not> f z y < 0) (elems m' lo sz n) = filter (\<lambda>y. \<not> f y z < 0 \<and> \<not> f z y < 0) (elems m lo sz n)) \<and>
    (\<forall>a. a < lo \<or> lo + n * sz \<le> a \<longrightarrow> m' a = m a)"
proof -
  have c: "comparator f compar sz" using assms(1-3) by unfold_locales blast+
  then have p: "preorder_cmp f" by (simp add: comparator_def)
  obtain m' where "qsort compar m lo n sz = Some m'" "elems m' lo sz n = foldl (sort_ins f) [] (elems m lo sz n)"
    "\<forall>a. a < lo \<or> lo + n * sz \<le> a \<longrightarrow> m' a = m a" using comparator.qsort_ok[OF c assms(5,6,7,4)] by blast
  then show ?thesis using preorder_cmp.foldl_ins[OF p] by (intro exI[of _ m']) simp
qed

theorem qsort_correct_witness:
  "\<exists>m'. qsort (\<lambda>m a b. memcmp m a b 2) (\<lambda>a. word_of_nat (200 - a)) 100 3 2 = Some m' \<and>
    sorted_wrt (\<lambda>a b. \<not> bytes_cmp b a < 0) (elems m' 100 2 3)"
proof -
  note q = qsort_correct[where compar = "\<lambda>m a b. memcmp m a b 2" and f = bytes_cmp and sz = 2 and lo = 100 and n = 3 and m = "\<lambda>a. word_of_nat (200 - a)"]
  have "\<exists>m'. qsort (\<lambda>m a b. memcmp m a b 2) (\<lambda>a. word_of_nat (200 - a)) 100 3 2 = Some m' \<and>
      sorted_wrt (\<lambda>a b. \<not> bytes_cmp b a < 0) (elems m' 100 2 3) \<and> mset (elems m' 100 2 3) = mset (elems (\<lambda>a. word_of_nat (200 - a)) 100 2 3) \<and>
      (\<forall>z. filter (\<lambda>y. \<not> bytes_cmp y z < 0 \<and> \<not> bytes_cmp z y < 0) (elems m' 100 2 3) =
        filter (\<lambda>y. \<not> bytes_cmp y z < 0 \<and> \<not> bytes_cmp z y < 0) (elems (\<lambda>a. word_of_nat (200 - a)) 100 2 3)) \<and>
      (\<forall>a. a < 100 \<or> 100 + 3 * 2 \<le> a \<longrightarrow> m' a = word_of_nat (200 - a))"
    by (rule q) (rule memcmp_bytes, erule mc.asym, erule (1) bytes_cmp_trans, simp_all)
  then show ?thesis by blast
qed

text \<open>
  \<^verbatim>\<open>bsearch\<close> over an array the comparison function sorts around the key returns an element
  equal to the key, and \<^verbatim>\<open>NULL\<close> only if there is none.
\<close>

theorem bsearch_correct:
  assumes "\<And>i j. i \<le> j \<Longrightarrow> j < n \<Longrightarrow> cmp m key (b + w * i) < 0 \<Longrightarrow> cmp m key (b + w * j) < 0"
    and "\<And>i j. i \<le> j \<Longrightarrow> j < n \<Longrightarrow> cmp m key (b + w * j) > 0 \<Longrightarrow> cmp m key (b + w * i) > 0"
  shows "case bsearch cmp m key b n w of
      Some p \<Rightarrow> \<exists>i < n. p = b + w * i \<and> cmp m key p = 0
    | None \<Rightarrow> \<forall>i < n. cmp m key (b + w * i) \<noteq> 0"
  by (rule bsearch_ok) (fact assms)+

theorem bsearch_correct_witness:
  "case bsearch (\<lambda>m a b. int a - int b) (\<lambda>_. 0) 14 10 5 2 of
      Some p \<Rightarrow> \<exists>i < 5. p = 10 + 2 * i \<and> int 14 - int p = 0
    | None \<Rightarrow> \<forall>i < 5. int 14 - int (10 + 2 * i) \<noteq> 0"
  by (rule bsearch_correct[of 5 "\<lambda>m a b. int a - int b" "\<lambda>_. 0" 14 10 2]) auto

end
