(* ===== verification/C_Stdlib.thy ===== *)
theory C_Stdlib
  imports C_String_Num
begin

text \<open>
  The rest of \<^verbatim>\<open>libc/src/stdlib/stdlib.c\<close>: \<^verbatim>\<open>strtoll\<close>, the environment, \<^verbatim>\<open>path_join\<close> and the
  random numbers. The results of the allocation functions are arguments, 0 for a failure.
\<close>

section \<open>Numbers in a base\<close>

definition ERANGE :: int where "ERANGE = 34"
definition LLONG_MAX :: int where "LLONG_MAX = 0x7fffffffffffffff"
definition LLONG_MIN :: int where "LLONG_MIN = - LLONG_MAX - 1"

text \<open>A \<^verbatim>\<open>long long\<close> from an \<^verbatim>\<open>unsigned long long\<close>.\<close>

definition wrap64 :: "int \<Rightarrow> int" where "wrap64 x = (x + 2 ^ 63) mod 2 ^ 64 - 2 ^ 63"

partial_function (option) strtoll_space :: "cmem \<Rightarrow> nat \<Rightarrow> (int \<times> nat) option" where
  "strtoll_space m s = (let c = sint (m s); s = s + 1 in if isspace c then strtoll_space m s else Some (c, s))"

definition strtoll_digit :: "int \<Rightarrow> int option" where
  "strtoll_digit c =
     (if c \<ge> 48 \<and> c \<le> 57 then Some (c - 48)
      else if c \<ge> 65 \<and> c \<le> 90 then Some (c - (65 - 10))
      else if c \<ge> 97 \<and> c \<le> 122 then Some (c - (97 - 10))
      else None)"

partial_function (option) strtoll_digits :: "cmem \<Rightarrow> int \<Rightarrow> int \<Rightarrow> int \<Rightarrow> nat \<Rightarrow> int \<Rightarrow> int \<Rightarrow> int \<Rightarrow> (nat \<times> int \<times> int) option" where
  "strtoll_digits m base cutoff cutlim s c acc any =
     (case strtoll_digit c of
        None \<Rightarrow> Some (s, acc, any)
      | Some c \<Rightarrow>
          if c \<ge> base then Some (s, acc, any)
          else if any < 0 \<or> acc > cutoff \<or> (acc = cutoff \<and> c > cutlim)
          then strtoll_digits m base cutoff cutlim (s + 1) (sint (m s)) acc (-1)
          else strtoll_digits m base cutoff cutlim (s + 1) (sint (m s)) ((acc * base + c) mod 2 ^ 64) 1)"

text \<open>The result is the number, the end pointer and the new \<^verbatim>\<open>errno\<close>, if it is set.\<close>

definition strtoll_end :: "nat \<Rightarrow> bool \<Rightarrow> nat \<times> int \<times> int \<Rightarrow> int \<times> nat \<times> int option" where
  "strtoll_end nptr neg = (\<lambda>(s, acc, any).
     let (acc, err) = (if any < 0 then (if neg then LLONG_MIN else LLONG_MAX, Some ERANGE)
                       else if any = 0 then (acc, Some EINVAL)
                       else if neg then (- acc, None)
                       else (acc, None))
     in (wrap64 acc, if any \<noteq> 0 then s - 1 else nptr, err))"

definition strtoll_l :: "cmem \<Rightarrow> nat \<Rightarrow> int \<Rightarrow> (int \<times> nat \<times> int option) option" where
  "strtoll_l m nptr base =
     Option.bind (strtoll_space m nptr) (\<lambda>(c, s).
       let (neg, c, s) = (if c = 45 then (True, sint (m s), s + 1)
                          else if c = 43 then (False, sint (m s), s + 1)
                          else (False, c, s));
           (base, c, s) = (if (base = 0 \<or> base = 16) \<and> c = 48 \<and> (m s = 120 \<or> m s = 88) \<and>
                              ((sint (m (s + 1)) \<ge> 48 \<and> sint (m (s + 1)) \<le> 57) \<or>
                               (sint (m (s + 1)) \<ge> 65 \<and> sint (m (s + 1)) \<le> 70) \<or>
                               (sint (m (s + 1)) \<ge> 97 \<and> sint (m (s + 1)) \<le> 102))
                           then (16, sint (m (s + 1)), s + 2)
                           else (base, c, s));
           base = (if base = 0 then if c = 48 then 8 else 10 else base)
       in if base < 2 \<or> base > 36 then Some (strtoll_end nptr neg (s, 0, 0))
          else let cutoff = (if neg then (- (LLONG_MIN + LLONG_MAX)) mod 2 ^ 64 + LLONG_MAX else LLONG_MAX);
                   cutlim = cutoff mod base;
                   cutoff = cutoff div base
               in Option.bind (strtoll_digits m base cutoff cutlim s c 0 0) (\<lambda>r. Some (strtoll_end nptr neg r)))"

definition strtoll :: "cmem \<Rightarrow> nat \<Rightarrow> int \<Rightarrow> (int \<times> nat \<times> int option) option" where
  "strtoll m nptr base = strtoll_l m nptr base"

definition strtol :: "cmem \<Rightarrow> nat \<Rightarrow> int \<Rightarrow> (int \<times> nat \<times> int option) option" where
  "strtol m nptr base = strtoll m nptr base"

section \<open>Random numbers\<close>

definition srand :: "nat \<Rightarrow> nat" where
  "srand s = (s + 2 ^ 32 - 1) mod 2 ^ 32"

definition rand :: "nat \<Rightarrow> nat \<times> nat" where
  "rand seed = (let seed = (6364136223846793005 * seed + 1) mod 2 ^ 64 in (seed, seed div 2 ^ 33))"

section \<open>Paths and aligned allocation\<close>

definition path_join :: "cmem \<Rightarrow> nat \<Rightarrow> nat \<Rightarrow> nat \<Rightarrow> (cmem \<times> nat) option" where
  "path_join m a b dst =
     Option.bind (strlen m a) (\<lambda>la. Option.bind (strlen m b) (\<lambda>k.
       let l = la + 1;
           z = a + l - 1;
           m = memcpy m dst a (z - a);
           m = m(dst + (z - a) := 47);
           m = memcpy m (dst + (z - a) + (if z > a then 1 else 0)) b (k + 1)
       in Some (m, dst)))"

definition posix_memalign :: "(nat \<Rightarrow> nat) \<Rightarrow> nat \<Rightarrow> nat \<Rightarrow> nat \<times> int" where
  "posix_memalign malloc alignment sz = (malloc sz, 0)"

section \<open>The environment\<close>

text \<open>
  The pointer \<^verbatim>\<open>environ\<close> with the entries of the array it points to, up to the closing null
  pointer; the last array \<^verbatim>\<open>__putenv\<close> allocated; the strings \<^verbatim>\<open>setenv\<close> allocated; and what has been
  freed.
\<close>

record cenv =
  environ :: nat
  envv :: "nat list"
  oldenv :: nat
  env_alloced :: "nat list"
  freed :: "nat list"

text \<open>The first loop of \<^verbatim>\<open>__env_rm_add\<close>; the flag says that it returned.\<close>

fun env_scan :: "nat list \<Rightarrow> nat \<Rightarrow> nat \<Rightarrow> nat list \<times> nat \<times> bool" where
  "env_scan [] old new = ([], new, False)"
| "env_scan (e # es) old new =
     (if e = old then (new # es, new, True)
      else if e = 0 \<and> new \<noteq> 0 then (case env_scan es old 0 of (es, n, r) \<Rightarrow> (new # es, n, r))
      else (case env_scan es old new of (es, n, r) \<Rightarrow> (e # es, n, r)))"

definition env_rm_add :: "cenv \<Rightarrow> nat \<Rightarrow> nat \<Rightarrow> nat \<Rightarrow> cenv" where
  "env_rm_add st old new t =
     (case env_scan (env_alloced st) old new of (es, new, ret) \<Rightarrow>
        if ret then st\<lparr>env_alloced := es, freed := old # freed st\<rparr>
        else if new = 0 then st\<lparr>env_alloced := es\<rparr>
        else if t = 0 then st\<lparr>env_alloced := es\<rparr>
        else st\<lparr>env_alloced := es @ [new]\<rparr>)"

fun env_find :: "(nat \<Rightarrow> bool) \<Rightarrow> nat list \<Rightarrow> nat option" where
  "env_find P [] = None"
| "env_find P (e # es) = (if P e then Some 0 else map_option Suc (env_find P es))"

definition env_put :: "cmem \<Rightarrow> cenv \<Rightarrow> nat \<Rightarrow> nat \<Rightarrow> nat \<Rightarrow> nat \<Rightarrow> nat \<Rightarrow> cenv \<times> int" where
  "env_put m st s l r newenv t =
     (case (if environ st \<noteq> 0 then env_find (\<lambda>e. strncmp m s e (l + 1) = 0) (envv st) else None) of
        Some i \<Rightarrow> (env_rm_add (st\<lparr>envv := (envv st)[i := s]\<rparr>) (envv st ! i) r t, 0)
      | None \<Rightarrow>
          if newenv = 0 then (st\<lparr>freed := r # freed st\<rparr>, -1)
          else let old = (if environ st = oldenv st then [] else [oldenv st]);
                   st = st\<lparr>environ := newenv, oldenv := newenv,
                           envv := (if environ st \<noteq> 0 then envv st else []) @ [s], freed := old @ freed st\<rparr>
               in (if r \<noteq> 0 then env_rm_add st 0 r t else st, 0))"

definition getenv :: "cmem \<Rightarrow> cenv \<Rightarrow> nat \<Rightarrow> nat option option" where
  "getenv m st name =
     Option.bind (strchrnul m name 61) (\<lambda>e.
       let l = e - name
       in Some (if l \<noteq> 0 \<and> m (name + l) = 0 \<and> environ st \<noteq> 0
                then map_option (\<lambda>i. envv st ! i + l + 1) (env_find (\<lambda>e. strncmp m name e l = 0 \<and> m (e + l) = 61) (envv st))
                else None))"

fun env_drop :: "(nat \<Rightarrow> bool) \<Rightarrow> nat list \<Rightarrow> cenv \<Rightarrow> nat list \<times> cenv" where
  "env_drop P [] st = ([], st)"
| "env_drop P (e # es) st =
     (if P e then env_drop P es (env_rm_add st e 0 0)
      else case env_drop P es st of (es, st) \<Rightarrow> (e # es, st))"

definition unsetenv :: "cmem \<Rightarrow> cenv \<Rightarrow> nat \<Rightarrow> (cenv \<times> int) option" where
  "unsetenv m st name =
     Option.bind (strchrnul m name 61) (\<lambda>e.
       let l = e - name
       in Some (if l = 0 \<or> m (name + l) \<noteq> 0 then (st, -1)
                else if environ st \<noteq> 0
                then case env_drop (\<lambda>e. strncmp m name e l = 0 \<and> m (e + l) = 61) (envv st) st of
                       (es, st) \<Rightarrow> (st\<lparr>envv := es\<rparr>, 0)
                else (st, 0)))"

definition putenv :: "cmem \<Rightarrow> cenv \<Rightarrow> nat \<Rightarrow> nat \<Rightarrow> nat \<Rightarrow> (cenv \<times> int) option" where
  "putenv m st s newenv t =
     Option.bind (strchrnul m s 61) (\<lambda>e.
       let l = e - s in if l = 0 \<or> m (s + l) = 0 then unsetenv m st s else Some (env_put m st s l 0 newenv t))"

definition setenv :: "cmem \<Rightarrow> cenv \<Rightarrow> nat \<Rightarrow> nat \<Rightarrow> bool \<Rightarrow> nat \<Rightarrow> nat \<Rightarrow> nat \<Rightarrow> (cmem \<times> cenv \<times> int) option" where
  "setenv m st var val overwrite s newenv t =
     (if var = 0 then Some (m, st, -1)
      else Option.bind (strchrnul m var 61) (\<lambda>e.
        let l1 = e - var
        in if l1 = 0 \<or> m (var + l1) \<noteq> 0 then Some (m, st, -1)
           else Option.bind (if overwrite then Some None else getenv m st var) (\<lambda>old.
             if old \<noteq> None then Some (m, st, 0)
             else Option.bind (strlen m val) (\<lambda>l2.
               if s = 0 then Some (m, st, -1)
               else let m = memcpy m s var l1;
                        m = m(s + l1 := 61);
                        m = memcpy m (s + l1 + 1) val (l2 + 1)
                    in (case env_put m st s l1 s newenv t of (st, r) \<Rightarrow> Some (m, st, r))))))"

section \<open>What strtoll computes\<close>

text \<open>The specification, on the bytes of the string: the number, the bytes used and the error.\<close>

definition num_digit :: "int \<Rightarrow> byte \<Rightarrow> int option" where
  "num_digit b c = (case strtoll_digit (sint c) of Some d \<Rightarrow> if d < b then Some d else None | None \<Rightarrow> None)"

definition num_val :: "int \<Rightarrow> int \<Rightarrow> byte list \<Rightarrow> int" where
  "num_val b v ds = foldl (\<lambda>v c. v * b + the (num_digit b c)) v ds"

definition hex_prefix :: "byte list \<Rightarrow> bool" where
  "hex_prefix xs \<longleftrightarrow> (case xs of z # x # d # _ \<Rightarrow> z = 48 \<and> (x = 120 \<or> x = 88) \<and> num_digit 16 d \<noteq> None | _ \<Rightarrow> False)"

definition num_base :: "int \<Rightarrow> byte list \<Rightarrow> int \<times> byte list" where
  "num_base base xs =
     (if (base = 0 \<or> base = 16) \<and> hex_prefix xs then (16, drop 2 xs)
      else if base = 0 then (if xs \<noteq> [] \<and> hd xs = 48 then 8 else 10, xs)
      else (base, xs))"

definition num_sign :: "byte list \<Rightarrow> bool \<times> byte list" where
  "num_sign xs = (case xs of c # cs \<Rightarrow> if c = 45 then (True, cs) else if c = 43 then (False, cs) else (False, xs) | [] \<Rightarrow> (False, []))"

definition strtoll_spec :: "int \<Rightarrow> byte list \<Rightarrow> int \<times> nat \<times> int option" where
  "strtoll_spec base xs =
     (let (neg, ys) = num_sign (dropWhile (\<lambda>c. isspace (sint c)) xs);
          (b, zs) = num_base base ys;
          ds = takeWhile (\<lambda>c. num_digit b c \<noteq> None) zs;
          v = (if neg then - num_val b 0 ds else num_val b 0 ds)
      in if b < 2 \<or> b > 36 \<or> ds = [] then (0, 0, Some EINVAL)
         else (max LLONG_MIN (min LLONG_MAX v), length xs - length zs + length ds,
               if LLONG_MIN \<le> v \<and> v \<le> LLONG_MAX then None else Some ERANGE))"

lemma num_val_Cons: "num_val b v (c # cs) = num_val b (v * b + the (num_digit b c)) cs"
  by (simp add: num_val_def)

lemma num_digit_range: "num_digit b c = Some d \<Longrightarrow> 0 \<le> d \<and> d < b"
  by (auto simp: num_digit_def strtoll_digit_def split: option.splits if_splits)

lemma num_val_mono: "2 \<le> b \<Longrightarrow> 0 \<le> v \<Longrightarrow> \<forall>c \<in> set ds. num_digit b c \<noteq> None \<Longrightarrow> v \<le> num_val b v ds"
proof (induction ds arbitrary: v)
  case (Cons c cs)
  obtain d where d: "num_digit b c = Some d" "0 \<le> d" using Cons.prems(3) num_digit_range by fastforce
  have "v * 1 \<le> v * b" using Cons.prems by (intro mult_left_mono) auto
  then have "v \<le> v * b + d" "0 \<le> v * b + d" using d Cons.prems by auto
  then show ?case using Cons.IH[of "v * b + d"] Cons.prems d by (simp add: num_val_Cons)
qed (simp add: num_val_def)

text \<open>Reading the digits: the accumulator is the value as long as that is at most \<open>K\<close>.\<close>

lemma digit_step:
  fixes b :: int
  assumes "2 \<le> b" and "0 \<le> K" and "0 \<le> d" and "d < b" and "0 \<le> v"
  shows "v > K div b \<or> v = K div b \<and> d > K mod b \<longleftrightarrow> K < v * b + d"
proof -
  have K: "K = K div b * b + K mod b" "0 \<le> K mod b" "K mod b < b" using assms by simp_all
  consider "v > K div b" | "v = K div b" | "v < K div b" by linarith
  then show ?thesis
  proof cases
    case 1
    then have "(K div b + 1) * b \<le> v * b" using assms by (intro mult_right_mono) auto
    then have "K div b * b + b \<le> v * b" by (simp add: distrib_right)
    then show ?thesis using 1 K assms(3) by linarith
  next
    case 2
    have "K < K div b * b + d \<longleftrightarrow> K mod b < d" by (rule iffI) (use K(1) in linarith)+
    then show ?thesis unfolding 2 by simp
  next
    case 3
    then have "(v + 1) * b \<le> K div b * b" using assms by (intro mult_right_mono) auto
    then have "v * b + b \<le> K div b * b" by (simp add: distrib_right)
    then show ?thesis using 3 K assms(4) by linarith
  qed
qed

lemma strtoll_digits_ok:
  assumes b: "2 \<le> b" "b \<le> 36" and K: "0 \<le> K" "K < 2 ^ 64"
  shows "cstring m s cs \<Longrightarrow> 0 \<le> v \<Longrightarrow> any = 1 \<and> acc = v \<and> v \<le> K \<or> any = -1 \<and> K < v \<or> any = 0 \<and> acc = 0 \<and> v = 0 \<Longrightarrow>
    ds = takeWhile (\<lambda>c. num_digit b c \<noteq> None) cs \<Longrightarrow>
    \<exists>acc' any'. strtoll_digits m b (K div b) (K mod b) (s + 1) (sint (m s)) acc any = Some (s + length ds + 1, acc', any') \<and>
      (if ds = [] then any' = any \<and> acc' = acc
       else if num_val b v ds \<le> K then any' = 1 \<and> acc' = num_val b v ds else any' = -1)"
proof (induction cs arbitrary: s v any acc ds)
  case Nil
  have "strtoll_digit 0 = None" by (simp add: strtoll_digit_def)
  then show ?case using Nil by (subst strtoll_digits.simps) (simp add: cstring_end)
next
  case (Cons c cs)
  have c: "m s = c" and cs: "cstring m (s + 1) cs" using Cons.prems(1) by (simp_all add: cstring_step)
  show ?case
  proof (cases "num_digit b c")
    case None
    then show ?thesis using Cons.prems(4) c
      by (subst strtoll_digits.simps) (auto simp: num_digit_def split: option.splits if_splits)
  next
    case (Some d)
    have d: "0 \<le> d" "d < b" "strtoll_digit (sint c) = Some d" using num_digit_range[OF Some] Some
      by (auto simp: num_digit_def split: option.splits if_splits)
    let ?ds = "takeWhile (\<lambda>c. num_digit b c \<noteq> None) cs" and ?v = "v * b + d"
    have ds: "ds = c # ?ds" using Cons.prems(4) Some by simp
    have v: "0 \<le> ?v" using Cons.prems(2) b(1) d by simp
    have step: "v > K div b \<or> v = K div b \<and> d > K mod b \<longleftrightarrow> K < ?v" using digit_step[OF b(1) K(1) d(1,2) Cons.prems(2)] .
    have vb: "v * 1 \<le> v * b" using b Cons.prems(2) by (intro mult_left_mono) auto
    have val: "num_val b v ds = num_val b ?v ?ds" using ds Some by (simp add: num_val_Cons)
    have mono: "?v \<le> num_val b ?v ?ds" by (rule num_val_mono[OF b(1) v]) (auto dest: set_takeWhileD)
    define big where "big \<longleftrightarrow> any < 0 \<or> acc > K div b \<or> acc = K div b \<and> d > K mod b"
    have big: "big \<longleftrightarrow> K < ?v" using Cons.prems(2,3) step vb d unfolding big_def by auto
    have un: "strtoll_digits m b (K div b) (K mod b) (s + 1) (sint (m s)) acc any =
      (if big then strtoll_digits m b (K div b) (K mod b) (s + 1 + 1) (sint (m (s + 1))) acc (-1)
       else strtoll_digits m b (K div b) (K mod b) (s + 1 + 1) (sint (m (s + 1))) ((acc * b + d) mod 2 ^ 64) 1)"
      unfolding big_def using d c by (subst strtoll_digits.simps) simp
    show ?thesis
    proof (cases big)
      case True
      then have "K < ?v" using big by simp
      then obtain acc' any' where "strtoll_digits m b (K div b) (K mod b) (s + 1 + 1) (sint (m (s + 1))) acc (-1) = Some (s + 1 + length ?ds + 1, acc', any')"
        "if ?ds = [] then any' = -1 \<and> acc' = acc else if num_val b ?v ?ds \<le> K then any' = 1 \<and> acc' = num_val b ?v ?ds else any' = -1"
        using Cons.IH[OF cs v _ refl, of "-1" acc] by blast
      then show ?thesis using un True ds mono \<open>K < ?v\<close> val by (auto split: if_splits)
    next
      case False
      then have le: "?v \<le> K" using big by simp
      have "acc = v" using Cons.prems(3) False unfolding big_def by auto
      then have "(acc * b + d) mod 2 ^ 64 = ?v" using le v K(2) by simp
      moreover obtain acc' any' where "strtoll_digits m b (K div b) (K mod b) (s + 1 + 1) (sint (m (s + 1))) ?v 1 = Some (s + 1 + length ?ds + 1, acc', any')"
        "if ?ds = [] then any' = 1 \<and> acc' = ?v else if num_val b ?v ?ds \<le> K then any' = 1 \<and> acc' = num_val b ?v ?ds else any' = -1"
        using Cons.IH[OF cs v _ refl, of 1 ?v] le by blast
      ultimately show ?thesis using un False ds val le by (auto simp: num_val_def split: if_splits)
    qed
  qed
qed

lemma strtoll_space_ok:
  "cstring m p xs \<Longrightarrow> let q = p + length (takeWhile (\<lambda>c. isspace (sint c)) xs)
    in strtoll_space m p = Some (sint (m q), q + 1) \<and> cstring m q (dropWhile (\<lambda>c. isspace (sint c)) xs)"
proof (induction xs arbitrary: p)
  case Nil
  then show ?case by (subst strtoll_space.simps) (simp add: cstring_end isspace_def)
next
  case (Cons c cs)
  show ?case
  proof (cases "isspace (sint c)")
    case True
    then have "strtoll_space m p = strtoll_space m (p + 1)" using Cons.prems by (subst strtoll_space.simps) (simp add: cstring_step Let_def)
    then show ?thesis using Cons.IH[of "p + 1"] Cons.prems True by (simp add: cstring_step Let_def)
  next
    case False
    then show ?thesis using Cons.prems by (subst strtoll_space.simps) (simp add: cstring_step Let_def)
  qed
qed

lemma sint_byte_eq: "sint (c :: byte) = 45 \<longleftrightarrow> c = 45" "sint (c :: byte) = 43 \<longleftrightarrow> c = 43" "sint (c :: byte) = 48 \<longleftrightarrow> c = 48"
  by (auto dest: arg_cong[where f = "word_of_int :: int \<Rightarrow> byte"])

lemma strtoll_sign_ok:
  assumes "cstring m q xs" and "num_sign xs = (neg, ys)"
  shows "\<exists>q'. (if sint (m q) = 45 then (True, sint (m (q + 1)), q + 1 + 1)
      else if sint (m q) = 43 then (False, sint (m (q + 1)), q + 1 + 1) else (False, sint (m q), q + 1)) = (neg, sint (m q'), q' + 1) \<and>
    cstring m q' ys \<and> q' + length ys = q + length xs"
proof (cases xs)
  case Nil
  then show ?thesis using assms by (intro exI[of _ q]) (simp add: num_sign_def cstring_end)
next
  case (Cons c cs)
  then have "m q = c" "cstring m (q + 1) cs" using assms(1) by (simp_all add: cstring_step)
  then show ?thesis using assms Cons
    by (intro exI[of _ "if c = 45 \<or> c = 43 then q + 1 else q"]) (auto simp: num_sign_def sint_byte_eq split: if_splits)
qed

lemma hex_prefix_iff:
  assumes "cstring m q ys"
  shows "hex_prefix ys \<longleftrightarrow> sint (m q) = 48 \<and> (m (q + 1) = 120 \<or> m (q + 1) = 88) \<and>
    ((sint (m (q + 1 + 1)) \<ge> 48 \<and> sint (m (q + 1 + 1)) \<le> 57) \<or> (sint (m (q + 1 + 1)) \<ge> 65 \<and> sint (m (q + 1 + 1)) \<le> 70) \<or>
     (sint (m (q + 1 + 1)) \<ge> 97 \<and> sint (m (q + 1 + 1)) \<le> 102))"
proof -
  have h: "num_digit 16 d \<noteq> None \<longleftrightarrow> (sint d \<ge> 48 \<and> sint d \<le> 57) \<or> (sint d \<ge> 65 \<and> sint d \<le> 70) \<or> (sint d \<ge> 97 \<and> sint d \<le> 102)" for d
    by (auto simp: num_digit_def strtoll_digit_def)
  consider "ys = []" | z where "ys = [z]" | z x where "ys = [z, x]" | z x d cs where "ys = z # x # d # cs" by (metis neq_Nil_conv)
  then show ?thesis
    using assms by cases (simp_all add: hex_prefix_def h cstring_step cstring_end sint_byte_eq del: not_None_eq)
qed

lemma strtoll_base_ok:
  assumes "cstring m q ys" and "num_base base ys = (b, zs)"
  shows "\<exists>q'. cstring m q' zs \<and> q' + length zs = q + length ys \<and>
    (let (base, c, s) = (if (base = 0 \<or> base = 16) \<and> sint (m q) = 48 \<and> (m (q + 1) = 120 \<or> m (q + 1) = 88) \<and>
          ((sint (m (q + 1 + 1)) \<ge> 48 \<and> sint (m (q + 1 + 1)) \<le> 57) \<or> (sint (m (q + 1 + 1)) \<ge> 65 \<and> sint (m (q + 1 + 1)) \<le> 70) \<or>
           (sint (m (q + 1 + 1)) \<ge> 97 \<and> sint (m (q + 1 + 1)) \<le> 102))
        then (16, sint (m (q + 1 + 1)), q + 1 + 2) else (base, sint (m q), q + 1))
     in (if base = 0 then if c = 48 then 8 else 10 else base, c, s)) = (b, sint (m q'), q' + 1)"
proof (cases "(base = 0 \<or> base = 16) \<and> hex_prefix ys")
  case True
  then have l: "2 \<le> length ys" by (auto simp: hex_prefix_def split: list.splits)
  have "b = 16" "zs = drop 2 ys" using assms(2) True by (simp_all add: num_base_def)
  moreover have "cstring m (q + 2) (drop 2 ys)" by (rule cstring_drop[OF assms(1) l])
  ultimately show ?thesis unfolding if_P[OF True[unfolded hex_prefix_iff[OF assms(1)]]]
    using l by (intro exI[of _ "q + 2"]) simp
next
  case False
  have "sint (m q) = 48 \<longleftrightarrow> ys \<noteq> [] \<and> hd ys = 48" using assms(1) by (cases ys) (auto simp: cstring_end cstring_step sint_byte_eq)
  moreover have "zs = ys" "b = (if base = 0 then if ys \<noteq> [] \<and> hd ys = 48 then 8 else 10 else base)"
    using assms(2) False unfolding num_base_def by (auto split: if_splits)
  ultimately show ?thesis unfolding if_not_P[OF False[unfolded hex_prefix_iff[OF assms(1)]]]
    using assms(1) by (intro exI[of _ q]) simp
qed

lemma wrap64_id: "LLONG_MIN \<le> v \<Longrightarrow> v \<le> LLONG_MAX \<Longrightarrow> wrap64 v = v"
  by (simp add: wrap64_def LLONG_MIN_def LLONG_MAX_def)

lemma strtoll_end_ok:
  assumes "0 \<le> v" and "any = (if v \<le> (if neg then 2 ^ 63 else LLONG_MAX) then 1 else -1)" and "any = 1 \<longrightarrow> acc = v"
  shows "strtoll_end p neg (s, acc, any) =
    (max LLONG_MIN (min LLONG_MAX (if neg then - v else v)), s - 1,
     if LLONG_MIN \<le> (if neg then - v else v) \<and> (if neg then - v else v) \<le> LLONG_MAX then None else Some ERANGE)"
proof (cases "v \<le> (if neg then 2 ^ 63 else LLONG_MAX)")
  case True
  then have "LLONG_MIN \<le> (if neg then - v else v)" "(if neg then - v else v) \<le> LLONG_MAX"
    using assms(1) by (auto simp: LLONG_MIN_def LLONG_MAX_def split: if_splits)
  then show ?thesis using True assms(2,3) by (auto simp: strtoll_end_def wrap64_id max_def min_def)
next
  case False
  then have "any = -1" using assms(2) by (simp only: if_False)
  then show ?thesis using False by (auto simp: strtoll_end_def wrap64_def LLONG_MIN_def LLONG_MAX_def split: if_splits)
qed

lemma num_sign_length: "num_sign xs = (neg, ys) \<Longrightarrow> length ys \<le> length xs"
  by (cases xs) (auto simp: num_sign_def split: if_splits)

lemma strtoll_l_ok:
  assumes "cstring m p xs"
  shows "strtoll_l m p base = Some (case strtoll_spec base xs of (v, k, e) \<Rightarrow> (v, p + k, e))"
proof -
  let ?ws = "dropWhile (\<lambda>c. isspace (sint c)) xs" and ?q = "p + length (takeWhile (\<lambda>c. isspace (sint c)) xs)"
  have sp: "strtoll_space m p = Some (sint (m ?q), ?q + 1)" "cstring m ?q ?ws"
    using strtoll_space_ok[OF assms] by (simp_all only: Let_def)
  have lq: "?q + length ?ws = p + length xs" by (metis add.assoc length_append takeWhile_dropWhile_id)
  obtain neg ys where sg: "num_sign ?ws = (neg, ys)" by fastforce
  obtain b zs where bs: "num_base base ys = (b, zs)" by fastforce
  obtain q1 where q1: "(if sint (m ?q) = 45 then (True, sint (m (?q + 1)), ?q + 1 + 1)
      else if sint (m ?q) = 43 then (False, sint (m (?q + 1)), ?q + 1 + 1) else (False, sint (m ?q), ?q + 1)) = (neg, sint (m q1), q1 + 1)"
    "cstring m q1 ys" "q1 + length ys = ?q + length ?ws"
    using strtoll_sign_ok[OF sp(2) sg] by blast
  obtain q2 where q2: "cstring m q2 zs" "q2 + length zs = q1 + length ys"
    "(let (base, c, s) = (if (base = 0 \<or> base = 16) \<and> sint (m q1) = 48 \<and> (m (q1 + 1) = 120 \<or> m (q1 + 1) = 88) \<and>
          ((sint (m (q1 + 1 + 1)) \<ge> 48 \<and> sint (m (q1 + 1 + 1)) \<le> 57) \<or> (sint (m (q1 + 1 + 1)) \<ge> 65 \<and> sint (m (q1 + 1 + 1)) \<le> 70) \<or>
           (sint (m (q1 + 1 + 1)) \<ge> 97 \<and> sint (m (q1 + 1 + 1)) \<le> 102))
        then (16, sint (m (q1 + 1 + 1)), q1 + 1 + 2) else (base, sint (m q1), q1 + 1))
     in (if base = 0 then if c = 48 then 8 else 10 else base, c, s)) = (b, sint (m q2), q2 + 1)"
    using strtoll_base_ok[OF q1(2) bs] by blast
  let ?K = "if neg then 2 ^ 63 else LLONG_MAX" and ?ds = "takeWhile (\<lambda>c. num_digit b c \<noteq> None) zs"
  have K: "(if neg then (- (LLONG_MIN + LLONG_MAX)) mod 2 ^ 64 + LLONG_MAX else LLONG_MAX) = ?K" "0 \<le> ?K" "?K < 2 ^ 64"
    by (simp_all add: LLONG_MIN_def LLONG_MAX_def)
  have un: "strtoll_l m p base = (if b < 2 \<or> b > 36 then Some (strtoll_end p neg (q2 + 1, 0, 0))
      else Option.bind (strtoll_digits m b (?K div b) (?K mod b) (q2 + 1) (sint (m q2)) 0 0) (\<lambda>r. Some (strtoll_end p neg r)))"
    unfolding strtoll_l_def sp(1) bind.simps prod.case q1(1) K(1)
    using q2(3) by (simp only: Let_def prod.case split: prod.splits) (auto simp: Let_def LLONG_MIN_def LLONG_MAX_def split: prod.splits)
  show ?thesis
  proof (cases "b < 2 \<or> b > 36")
    case True
    then show ?thesis unfolding un by (auto simp: strtoll_spec_def sg bs strtoll_end_def wrap64_def Let_def)
  next
    case False
    then obtain acc any where r: "strtoll_digits m b (?K div b) (?K mod b) (q2 + 1) (sint (m q2)) 0 0 = Some (q2 + length ?ds + 1, acc, any)"
      "if ?ds = [] then any = 0 \<and> acc = 0 else if num_val b 0 ?ds \<le> ?K then any = 1 \<and> acc = num_val b 0 ?ds else any = -1"
      using strtoll_digits_ok[of b ?K m q2 zs 0 0 0, OF _ _ K(2,3) q2(1) _ _ refl] by auto
    have un2: "strtoll_l m p base = Some (strtoll_end p neg (q2 + length ?ds + 1, acc, any))" unfolding un r(1) using False by simp
    show ?thesis
    proof (cases "?ds = []")
      case True
      then show ?thesis using r(2) unfolding un2 by (simp add: strtoll_spec_def sg bs strtoll_end_def wrap64_def Let_def)
    next
      case ds: False
      have "0 \<le> num_val b 0 ?ds" using False by (intro num_val_mono) (auto dest: set_takeWhileD)
      moreover have "any = (if num_val b 0 ?ds \<le> ?K then 1 else -1)" "any = 1 \<longrightarrow> acc = num_val b 0 ?ds"
        using r(2) ds by (auto split: if_splits)
      ultimately have e: "strtoll_end p neg (q2 + length ?ds + 1, acc, any) =
         (max LLONG_MIN (min LLONG_MAX (if neg then - num_val b 0 ?ds else num_val b 0 ?ds)), q2 + length ?ds + 1 - 1,
          if LLONG_MIN \<le> (if neg then - num_val b 0 ?ds else num_val b 0 ?ds) \<and> (if neg then - num_val b 0 ?ds else num_val b 0 ?ds) \<le> LLONG_MAX
          then None else Some ERANGE)" by (rule strtoll_end_ok)
      have "length ys \<le> length ?ws" by (rule num_sign_length[OF sg])
      moreover have "length zs \<le> length ys" using bs by (auto simp: num_base_def split: if_splits)
      moreover have "length ?ws \<le> length xs" by (rule length_dropWhile_le)
      ultimately have "q2 = p + (length xs - length zs)" using q1(3) q2(2) lq by linarith
      then show ?thesis unfolding un2 e using False ds by (simp add: strtoll_spec_def sg bs Let_def)
    qed
  qed
qed

section \<open>Properties\<close>

text \<open>
  \<^verbatim>\<open>strtoll\<close> on every string and base: it skips blanks, takes a sign and a base prefix, uses
  the longest run of digits, returns the value clamped to 64 bits with \<^verbatim>\<open>ERANGE\<close> if it does not
  fit, and 0 with \<^verbatim>\<open>EINVAL\<close> and the start of the string if there is no number.
\<close>

theorem strtoll_correct:
  assumes "cstring m p xs"
  shows "strtoll m p base = Some (case strtoll_spec base xs of (v, k, e) \<Rightarrow> (v, p + k, e))"
  unfolding strtoll_def by (rule strtoll_l_ok[OF assms])

theorem strtoll_correct_witness:
  "strtoll (\<lambda>a. if a = 0 then 45 else if a = 1 then 48 else if a = 2 then 120 else if a = 3 then 102 else 0) 0 0 = Some (-15, 4, None)"
  using strtoll_correct[of "\<lambda>a. if a = 0 then 45 else if a = 1 then 48 else if a = 2 then 120 else if a = 3 then 102 else 0" 0 "[45, 48, 120, 102]" 0]
  by (simp add: cstring_step cstring_end strtoll_spec_def num_sign_def num_base_def hex_prefix_def num_digit_def strtoll_digit_def
      isspace_def num_val_def LLONG_MIN_def LLONG_MAX_def)

end
