(* ===== verification/C_Env.thy ===== *)
theory C_Env
  imports C_Stdlib
begin

text \<open>
  The environment of \<^verbatim>\<open>libc/src/stdlib/stdlib.c\<close> as a map from names to values, and
  \<^verbatim>\<open>path_join\<close>. An entry defines a name when it starts with the name and an equals sign;
  \<open>env_value\<close> is the value of the first one.
\<close>

section \<open>Paths\<close>

lemma cstring_append: "cstring m a (xs @ ys) \<longleftrightarrow> (\<forall>i < length xs. m (a + i) = xs ! i) \<and> 0 \<notin> set xs \<and> cstring m (a + length xs) ys"
  by (induction xs arbitrary: a) (auto simp: cstring_step nth_Cons split: nat.splits)

text \<open>\<open>apart d n s k\<close>: the \<open>n\<close> bytes at \<open>d\<close> and the \<open>k\<close> bytes at \<open>s\<close> have none in common.\<close>

definition apart :: "nat \<Rightarrow> nat \<Rightarrow> nat \<Rightarrow> nat \<Rightarrow> bool" where
  "apart d n s k \<longleftrightarrow> d + n \<le> s \<or> s + k \<le> d"

lemma cstring_cong: "(\<And>i. i \<le> length xs \<Longrightarrow> m' (a + i) = m (a + i)) \<Longrightarrow> cstring m' a xs = cstring m a xs"
  by (auto simp: cstring_def)

lemma memcpy_apart: "apart d n s n \<Longrightarrow> memcpy m d s n = copied m d s n"
  by (rule memcpy_copied) (auto simp: apart_def)

lemma path_join_ok:
  assumes a: "cstring m a xs" and b: "cstring m b ys"
    and ap: "apart dst (length xs + length ys + 2) a (length xs + 1)" "apart dst (length xs + length ys + 2) b (length ys + 1)"
  shows "\<exists>m'. path_join m a b dst = Some (m', dst) \<and> cstring m' dst (if xs = [] then ys else xs @ 47 # ys) \<and>
    (\<forall>q. q < dst \<or> dst + length xs + length ys + 2 \<le> q \<longrightarrow> m' q = m q)"
proof -
  let ?l = "length xs" and ?k = "length ys"
  define e :: nat where "e = (if xs = [] then 0 else 1)"
  have e: "e \<le> 1" "xs = [] \<longrightarrow> e = 0" "xs \<noteq> [] \<longrightarrow> e = 1" by (simp_all add: e_def)
  define m1 where "m1 = (copied m dst a ?l)(dst + ?l := 47)"
  define m2 where "m2 = copied m1 (dst + ?l + e) b (?k + 1)"
  have keep: "m1 q = m q" if "q < dst \<or> dst + ?l < q" for q using that by (auto simp: m1_def copied_def)
  have c1: "memcpy m dst a ?l = copied m dst a ?l" using ap(1) by (intro memcpy_apart) (auto simp: apart_def)
  have c2: "memcpy m1 (dst + ?l + e) b (?k + 1) = m2" unfolding m2_def using ap(2) e(1) by (intro memcpy_apart) (auto simp: apart_def)
  have z: "a + (?l + 1) - 1 - a = ?l" "(if a + (?l + 1) - 1 > a then 1 else 0) = e" by (auto simp: e_def)
  have "path_join m a b dst = Some (m2, dst)"
    unfolding path_join_def strlen_ok[OF a] strlen_ok[OF b] bind.simps Let_def z c1 m1_def[symmetric] c2 ..
  moreover have str: "cstring m2 (dst + ?l + e) ys"
  proof -
    have "m2 (dst + ?l + e + i) = m (b + i)" if "i \<le> ?k" for i
    proof -
      have "m2 (dst + ?l + e + i) = m1 (b + i)" using that by (simp add: m2_def copied_def)
      also have "\<dots> = m (b + i)" using ap(2) that by (intro keep) (auto simp: apart_def)
      finally show ?thesis .
    qed
    then show ?thesis using b by (simp add: cstring_def)
  qed
  moreover have pre: "m2 (dst + i) = xs ! i" if "i < ?l" for i
    using that a by (simp add: m2_def m1_def copied_def cstring_def)
  moreover have mid: "xs \<noteq> [] \<longrightarrow> m2 (dst + ?l) = 47" using e(3) by (simp add: m2_def m1_def copied_def)
  moreover have "0 \<notin> set xs" using a by (simp add: cstring_def)
  moreover have "m2 q = m q" if "q < dst \<or> dst + ?l + ?k + 2 \<le> q" for q
  proof -
    have "\<not> (dst + ?l + e \<le> q \<and> q < dst + ?l + e + (?k + 1))" using that e(1) by linarith
    then have "m2 q = m1 q" unfolding m2_def copied_def by (rule if_not_P)
    then show ?thesis using that keep[of q] by auto
  qed
  moreover have "cstring m2 dst (if xs = [] then ys else xs @ 47 # ys)"
    using str pre mid \<open>0 \<notin> set xs\<close> e by (cases "xs = []") (simp_all add: cstring_append cstring_step)
  ultimately show ?thesis by (intro exI[of _ m2]) simp
qed

section \<open>The environment\<close>

lemma strncmp_eq:
  assumes "cstring m a xs" and "cstring m b ys"
  shows "strncmp m a b n = 0 \<longleftrightarrow> take n xs = take n ys"
proof -
  have "ncmp_loop m a b n = 0 \<longleftrightarrow> take (Suc n) xs = take (Suc n) ys" if "cstring m a xs" "cstring m b ys" for n a b xs ys
    using that
  proof (induction n arbitrary: a b xs ys)
    case 0
    then show ?case by (cases xs; cases ys) (auto simp: cstring_step cstring_end word_uint_eq_iff)
  next
    case (Suc n)
    then show ?case by (cases xs; cases ys) (auto simp: cstring_step cstring_end word_uint_eq_iff)
  qed
  then show ?thesis using assms by (cases n) (simp_all add: strncmp_def)
qed

text \<open>An entry defines a name when it starts with the name and an equals sign.\<close>

definition entry_for :: "cmem \<Rightarrow> byte list \<Rightarrow> nat \<Rightarrow> bool" where
  "entry_for m xs e \<longleftrightarrow> (\<forall>i < length xs. m (e + i) = xs ! i) \<and> m (e + length xs) = 61"

definition env_ok :: "cmem \<Rightarrow> cenv \<Rightarrow> bool" where
  "env_ok m st \<longleftrightarrow> (\<forall>e \<in> set (envv st). \<exists>ys. cstring m e ys) \<and> (environ st = 0 \<longrightarrow> envv st = [])"

definition name_ok :: "byte list \<Rightarrow> bool" where
  "name_ok xs \<longleftrightarrow> xs \<noteq> [] \<and> 61 \<notin> set xs"

lemma takeWhile_name: "name_ok xs \<Longrightarrow> takeWhile (\<lambda>x. x \<noteq> word_of_int 61) xs = xs"
  by (auto simp: name_ok_def takeWhile_eq_all_conv)

lemma name_len:
  assumes "cstring m n xs" and "name_ok xs"
  shows "strchrnul m n 61 = Some (n + length xs)" and "m (n + length xs) = 0" and "length xs \<noteq> 0"
proof -
  show "strchrnul m n 61 = Some (n + length xs)"
    using strchrnul_ok[OF assms(1), of 61] takeWhile_name[OF assms(2)] by (simp only:)
  show "m (n + length xs) = 0" "length xs \<noteq> 0" using assms by (auto simp: cstring_def name_ok_def)
qed

lemma entry_for_prefix:
  assumes "cstring m e ys" and "0 \<notin> set xs"
  shows "xs = take (length xs) ys \<longleftrightarrow> (\<forall>i < length xs. m (e + i) = xs ! i)"
proof
  assume "xs = take (length xs) ys"
  then have "length xs \<le> length ys" "\<forall>i < length xs. ys ! i = xs ! i" by (metis length_take min.absorb_iff2 min.commute, metis nth_take)
  then show "\<forall>i < length xs. m (e + i) = xs ! i" using assms(1) by (auto simp: cstring_def)
next
  assume h: "\<forall>i < length xs. m (e + i) = xs ! i"
  have "length xs \<le> length ys"
  proof (rule ccontr)
    assume "\<not> length xs \<le> length ys"
    then have "xs ! length ys = 0" "length ys < length xs" using h assms(1) by (auto simp: cstring_def)
    then show False using assms(2) by (metis nth_mem)
  qed
  then show "xs = take (length xs) ys" using h assms(1) by (intro nth_equalityI) (auto simp: cstring_def)
qed

lemma entry_for_string:
  assumes "cstring m e ys" and "0 \<notin> set xs"
  shows "entry_for m xs e \<longleftrightarrow> (\<exists>zs. ys = xs @ 61 # zs)"
proof
  assume "\<exists>zs. ys = xs @ 61 # zs"
  then show "entry_for m xs e" using assms(1) by (auto simp: cstring_append cstring_step entry_for_def)
next
  assume d: "entry_for m xs e"
  then have t: "xs = take (length xs) ys" unfolding entry_for_prefix[OF assms] by (simp add: entry_for_def)
  have l: "length xs < length ys"
  proof (rule ccontr)
    assume "\<not> length xs < length ys"
    then have "length xs = length ys" using t by (metis length_take min.absorb_iff1 nat_le_linear not_less)
    then show False using d assms(1) by (simp add: entry_for_def cstring_def)
  qed
  then have "ys = xs @ ys ! length xs # drop (Suc (length xs)) ys" using t by (metis append_take_drop_id Cons_nth_drop_Suc)
  moreover have "ys ! length xs = 61" using d assms(1) l by (simp add: entry_for_def cstring_def)
  ultimately show "\<exists>zs. ys = xs @ 61 # zs" by metis
qed

lemma entry_for_iff:
  assumes "cstring m n xs" and "cstring m e ys"
  shows "strncmp m n e (length xs) = 0 \<and> m (e + length xs) = 61 \<longleftrightarrow> entry_for m xs e"
  using entry_for_prefix[OF assms(2), of xs] assms(1)
  by (simp add: strncmp_eq[OF assms] entry_for_def) (auto simp: cstring_def)

text \<open>What \<^verbatim>\<open>getenv\<close> finds: the first entry that defines the name.\<close>

definition env_value :: "cmem \<Rightarrow> nat list \<Rightarrow> byte list \<Rightarrow> nat option" where
  "env_value m es xs = map_option (\<lambda>e. e + length xs + 1) (find (entry_for m xs) es)"

lemma env_find_find: "map_option (\<lambda>i. es ! i) (env_find P es) = find P es"
  by (induction es) (auto simp: option.map_comp o_def)

lemma env_find_cong: "(\<And>e. e \<in> set es \<Longrightarrow> P e = Q e) \<Longrightarrow> env_find P es = env_find Q es"
  by (induction es) auto

lemma getenv_ok:
  assumes "cstring m n xs" and "name_ok xs" and "env_ok m st"
  shows "getenv m st n = Some (env_value m (envv st) xs)"
proof -
  let ?P = "\<lambda>e. strncmp m n e (length xs) = 0 \<and> m (e + length xs) = 61"
  have "env_find ?P (envv st) = env_find (entry_for m xs) (envv st)"
  proof (rule env_find_cong)
    fix e assume "e \<in> set (envv st)"
    then obtain ys where "cstring m e ys" using assms(3) unfolding env_ok_def by blast
    then show "?P e = entry_for m xs e" by (rule entry_for_iff[OF assms(1)])
  qed
  then have "map_option (\<lambda>i. envv st ! i + length xs + 1) (env_find ?P (envv st)) = env_value m (envv st) xs"
    unfolding env_value_def env_find_find[symmetric] by (simp add: option.map_comp o_def)
  moreover have "environ st = 0 \<longrightarrow> env_value m (envv st) xs = None" using assms(3) by (auto simp: env_ok_def env_value_def)
  ultimately show ?thesis using name_len[OF assms(1,2)] by (auto simp: getenv_def Let_def)
qed

lemma find_filter_disjoint: "(\<And>e. e \<in> set es \<Longrightarrow> Q e \<Longrightarrow> \<not> P e) \<Longrightarrow> find Q (filter (\<lambda>e. \<not> P e) es) = find Q es"
  by (induction es) auto

lemma find_cong: "(\<And>e. e \<in> set es \<Longrightarrow> P e = Q e) \<Longrightarrow> find P es = find Q es"
  by (induction es) auto

lemma env_find_Some:
  "env_find P es = Some i \<Longrightarrow> i < length es \<and> P (es ! i) \<and>
    (P s \<longrightarrow> find P (es[i := s]) = Some s) \<and> (\<not> Q s \<longrightarrow> \<not> Q (es ! i) \<longrightarrow> find Q (es[i := s]) = find Q es)"
  by (induction es arbitrary: i) (auto split: if_splits)

lemma env_find_None: "env_find P es = None \<longleftrightarrow> find P es = None"
  by (induction es) auto

lemma env_rm_add_simps [simp]:
  "environ (env_rm_add st old new t) = environ st" "envv (env_rm_add st old new t) = envv st"
  by (simp_all add: env_rm_add_def split: prod.splits)

lemma env_drop_ok: "fst (env_drop P es st) = filter (\<lambda>e. \<not> P e) es \<and> environ (snd (env_drop P es st)) = environ st"
  by (induction P es st rule: env_drop.induct) (auto split: prod.splits)

lemma two_names:
  assumes "61 \<notin> set xs" and "61 \<notin> set zs" and "xs @ 61 # us = zs @ 61 # vs"
  shows "xs = zs"
  using assms by (induction xs arbitrary: zs) (auto simp: Cons_eq_append_conv)

lemma entry_for_unique: "env_ok m st \<Longrightarrow> e \<in> set (envv st) \<Longrightarrow> name_ok xs \<Longrightarrow> name_ok zs \<Longrightarrow> 0 \<notin> set xs \<Longrightarrow> 0 \<notin> set zs \<Longrightarrow>
    entry_for m xs e \<Longrightarrow> entry_for m zs e \<Longrightarrow> xs = zs"
  using two_names[of xs zs] entry_for_string unfolding env_ok_def name_ok_def by metis

lemma env_entry_iff:
  assumes "cstring m n xs" and "env_ok m st" and "e \<in> set (envv st)"
  shows "(strncmp m n e (length xs) = 0 \<and> m (e + length xs) = 61) = entry_for m xs e"
proof -
  have "\<exists>ys. cstring m e ys" using assms(2,3) by (simp add: env_ok_def)
  then obtain ys where "cstring m e ys" ..
  from entry_for_iff[OF assms(1) this] show ?thesis .
qed

lemma unsetenv_ok:
  assumes n: "cstring m n xs" "name_ok xs" and ok: "env_ok m st"
  shows "\<exists>st'. unsetenv m st n = Some (st', 0) \<and> env_ok m st' \<and> env_value m (envv st') xs = None \<and>
    (\<forall>zs. name_ok zs \<longrightarrow> 0 \<notin> set zs \<longrightarrow> zs \<noteq> xs \<longrightarrow> env_value m (envv st') zs = env_value m (envv st) zs)"
proof -
  let ?P = "\<lambda>e. strncmp m n e (length xs) = 0 \<and> m (e + length xs) = 61"
  note P = env_entry_iff[OF n(1) ok]
  have z: "0 \<notin> set xs" using n(1) by (simp add: cstring_def)
  obtain es st1 where d: "env_drop ?P (envv st) st = (es, st1)" by fastforce
  have es: "es = filter (\<lambda>e. \<not> ?P e) (envv st)" "environ st1 = environ st" using env_drop_ok[of ?P "envv st" st] d by simp_all
  have f: "es = filter (\<lambda>e. \<not> entry_for m xs e) (envv st)" unfolding es(1) by (rule filter_cong) (use P in \<open>simp_all\<close>)
  define st' where "st' = (if environ st \<noteq> 0 then st1\<lparr>envv := es\<rparr> else st)"
  have e: "envv st' = filter (\<lambda>e. \<not> entry_for m xs e) (envv st)"
  proof (cases "environ st = 0")
    case True
    then have "envv st = []" using ok by (simp add: env_ok_def)
    then show ?thesis using True by (simp add: st'_def)
  qed (simp add: st'_def f)
  have l: "n + length xs - n = length xs" by simp
  have "unsetenv m st n = Some (st', 0)"
    using name_len(2,3)[OF n] unfolding unsetenv_def name_len(1)[OF n] bind.simps Let_def l d prod.case st'_def by simp
  moreover have "env_ok m st'"
    using ok es(2) unfolding env_ok_def e by (simp add: st'_def)
  moreover have "env_value m (envv st') xs = None" unfolding e env_value_def by (simp add: find_None_iff)
  moreover have "env_value m (envv st') zs = env_value m (envv st) zs" if "name_ok zs" "0 \<notin> set zs" "zs \<noteq> xs" for zs
  proof -
    have "find (entry_for m zs) (filter (\<lambda>e. \<not> entry_for m xs e) (envv st)) = find (entry_for m zs) (envv st)"
      using entry_for_unique[OF ok _ n(2) that(1) z that(2)] that(3) by (intro find_filter_disjoint) blast
    then show ?thesis unfolding e env_value_def by simp
  qed
  ultimately show ?thesis by blast
qed

text \<open>The string \<^verbatim>\<open>setenv\<close> builds in the allocated bytes.\<close>

definition env_string :: "cmem \<Rightarrow> nat \<Rightarrow> nat \<Rightarrow> nat \<Rightarrow> nat \<Rightarrow> nat \<Rightarrow> cmem" where
  "env_string m s var l1 val l2 = memcpy ((memcpy m s var l1)(s + l1 := 61)) (s + l1 + 1) val (l2 + 1)"

lemma env_string_ok:
  assumes n: "cstring m n xs" and v: "cstring m val vs"
    and ap: "apart s (length xs + length vs + 2) n (length xs + 1)" "apart s (length xs + length vs + 2) val (length vs + 1)"
  shows "cstring (env_string m s n (length xs) val (length vs)) s (xs @ 61 # vs)"
    and "q < s \<or> s + length xs + length vs + 2 \<le> q \<Longrightarrow> env_string m s n (length xs) val (length vs) q = m q"
proof -
  let ?l = "length xs" and ?k = "length vs"
  define m1 where "m1 = (copied m s n ?l)(s + ?l := 61)"
  define m2 where "m2 = copied m1 (s + ?l + 1) val (?k + 1)"
  have keep: "m1 q = m q" if "q < s \<or> s + ?l < q" for q using that by (auto simp: m1_def copied_def)
  have c1: "memcpy m s n ?l = copied m s n ?l" using ap(1) by (intro memcpy_apart) (auto simp: apart_def)
  have c2: "memcpy m1 (s + ?l + 1) val (?k + 1) = m2" unfolding m2_def using ap(2) by (intro memcpy_apart) (auto simp: apart_def)
  have e: "env_string m s n ?l val ?k = m2" unfolding env_string_def c1 m1_def[symmetric] c2 ..
  have "m2 (s + ?l + 1 + i) = m (val + i)" if "i \<le> ?k" for i
  proof -
    have "m2 (s + ?l + 1 + i) = m1 (val + i)" using that by (simp add: m2_def copied_def)
    also have "\<dots> = m (val + i)" using ap(2) that by (intro keep) (auto simp: apart_def)
    finally show ?thesis .
  qed
  then have "cstring m2 (s + ?l + 1) vs" using v by (simp add: cstring_def)
  moreover have "m2 (s + i) = xs ! i" if "i < ?l" for i
    using that n by (simp add: m2_def m1_def copied_def cstring_def)
  moreover have "m2 (s + ?l) = 61" by (simp add: m2_def m1_def copied_def)
  moreover have "0 \<notin> set xs" using n by (simp add: cstring_def)
  ultimately show "cstring (env_string m s n ?l val ?k) s (xs @ 61 # vs)"
    unfolding e by (simp add: cstring_append cstring_step)
  assume q: "q < s \<or> s + ?l + ?k + 2 \<le> q"
  have "\<not> (s + ?l + 1 \<le> q \<and> q < s + ?l + 1 + (?k + 1))" using q by linarith
  then have "m2 q = m1 q" unfolding m2_def copied_def by (rule if_not_P)
  moreover have "m1 q = m q" using q by (intro keep) linarith
  ultimately show "env_string m s n ?l val ?k q = m q" unfolding e by simp
qed

text \<open>All strings of the environment lie outside the \<open>k\<close> bytes at \<open>s\<close>.\<close>

definition env_apart :: "cmem \<Rightarrow> cenv \<Rightarrow> nat \<Rightarrow> nat \<Rightarrow> bool" where
  "env_apart m st s k \<longleftrightarrow> (\<forall>e \<in> set (envv st). \<forall>ys. cstring m e ys \<longrightarrow> apart s k e (length ys + 1))"

lemma env_frame:
  assumes "env_ok m st" and "env_apart m st s k" and "\<And>q. q < s \<or> s + k \<le> q \<Longrightarrow> m' q = m q" and "e \<in> set (envv st)"
  shows "\<exists>ys. cstring m e ys \<and> cstring m' e ys"
proof -
  have "\<exists>ys. cstring m e ys" using assms(1,4) by (simp add: env_ok_def)
  then obtain ys where ys: "cstring m e ys" ..
  have "apart s k e (length ys + 1)" using assms(2,4) ys by (simp add: env_apart_def)
  then have "cstring m' e ys = cstring m e ys" by (intro cstring_cong assms(3)) (auto simp: apart_def)
  then show ?thesis using ys by blast
qed

text \<open>The test of \<^verbatim>\<open>__putenv\<close> for the entry to replace.\<close>

lemma put_test:
  assumes "cstring m s (xs @ 61 # vs)" and "cstring m e ys"
  shows "strncmp m s e (length xs + 1) = 0 \<longleftrightarrow> entry_for m xs e"
proof -
  have z: "0 \<notin> set xs" using assms(1) by (simp add: cstring_append)
  have "take (length xs + 1) (xs @ 61 # vs) = xs @ [61]" by simp
  moreover have "xs @ [61] = take (length xs + 1) ys \<longleftrightarrow> (\<exists>zs. ys = xs @ 61 # zs)"
  proof
    assume "xs @ [61] = take (length xs + 1) ys"
    then have "ys = (xs @ [61]) @ drop (length xs + 1) ys" by (metis append_take_drop_id)
    then show "\<exists>zs. ys = xs @ 61 # zs" by (intro exI[of _ "drop (length xs + 1) ys"]) simp
  qed auto
  ultimately show ?thesis unfolding strncmp_eq[OF assms] entry_for_string[OF assms(2) z] by simp
qed

text \<open>The entries after \<^verbatim>\<open>__putenv\<close>: the new one replaces the first with its name, or is added.\<close>

definition env_set :: "cmem \<Rightarrow> byte list \<Rightarrow> nat \<Rightarrow> nat list \<Rightarrow> nat list" where
  "env_set m xs s es = (case env_find (entry_for m xs) es of Some i \<Rightarrow> es[i := s] | None \<Rightarrow> es @ [s])"

lemma env_put_ok:
  assumes "env_ok m st" and "cstring m s (xs @ 61 # vs)" and "newenv \<noteq> 0"
  shows "\<exists>st'. env_put m st s (length xs) r newenv t = (st', 0) \<and> envv st' = env_set m xs s (envv st) \<and> environ st' \<noteq> 0"
proof -
  have f: "env_find (\<lambda>e. strncmp m s e (length xs + 1) = 0) (envv st) = env_find (entry_for m xs) (envv st)"
  proof (rule env_find_cong)
    fix e assume "e \<in> set (envv st)"
    then have "\<exists>ys. cstring m e ys" using assms(1) by (simp add: env_ok_def)
    then obtain ys where "cstring m e ys" ..
    then show "(strncmp m s e (length xs + 1) = 0) = entry_for m xs e" by (rule put_test[OF assms(2)])
  qed
  have z: "environ st = 0 \<Longrightarrow> envv st = []" using assms(1) by (simp add: env_ok_def)
  show ?thesis
  proof (cases "environ st \<noteq> 0 \<and> env_find (entry_for m xs) (envv st) \<noteq> None")
    case True
    then show ?thesis unfolding env_put_def f by (auto simp: env_set_def)
  next
    case False
    then have n: "env_find (entry_for m xs) (envv st) = None" using z by auto
    have "(if environ st \<noteq> 0 then envv st else []) @ [s] = env_set m xs s (envv st)" using n z by (auto simp: env_set_def)
    moreover have "(if environ st \<noteq> 0 then None else None :: nat option) = None" by simp
    ultimately show ?thesis unfolding env_put_def f n using assms(3) by (auto simp: Let_def)
  qed
qed

lemma env_set_find:
  assumes "entry_for m xs s"
  shows "find (entry_for m xs) (env_set m xs s es) = Some s"
    and "\<not> Q s \<Longrightarrow> (\<And>e. e \<in> set es \<Longrightarrow> entry_for m xs e \<Longrightarrow> \<not> Q e) \<Longrightarrow> find Q (env_set m xs s es) = find Q es"
    and "set (env_set m xs s es) \<subseteq> insert s (set es)"
proof -
  show "find (entry_for m xs) (env_set m xs s es) = Some s"
    using assms env_find_Some[of "entry_for m xs" es _ s] env_find_None[of "entry_for m xs" es]
    by (auto simp: env_set_def find_append split: option.splits)
  show "\<not> Q s \<Longrightarrow> (\<And>e. e \<in> set es \<Longrightarrow> entry_for m xs e \<Longrightarrow> \<not> Q e) \<Longrightarrow> find Q (env_set m xs s es) = find Q es"
    using env_find_Some[of "entry_for m xs" es _ s Q] by (auto simp: env_set_def find_append split: option.splits)
  show "set (env_set m xs s es) \<subseteq> insert s (set es)"
    by (auto simp: env_set_def split: option.splits dest: set_update_subset_insert[THEN subsetD])
qed

lemma setenv_ok:
  assumes n: "cstring m n xs" "name_ok xs" "n \<noteq> 0" and v: "cstring m val vs" and ok: "env_ok m st"
    and ap: "apart s (length xs + length vs + 2) n (length xs + 1)" "apart s (length xs + length vs + 2) val (length vs + 1)"
    and env: "env_apart m st s (length xs + length vs + 2)" and al: "s \<noteq> 0" "newenv \<noteq> 0"
  shows "\<exists>m' st'. setenv m st n val True s newenv t = Some (m', st', 0) \<and> env_ok m' st' \<and>
    env_value m' (envv st') xs = Some (s + length xs + 1) \<and> cstring m' (s + length xs + 1) vs \<and>
    (\<forall>zs. name_ok zs \<longrightarrow> 0 \<notin> set zs \<longrightarrow> zs \<noteq> xs \<longrightarrow> env_value m' (envv st') zs = env_value m (envv st) zs)"
proof -
  let ?m = "env_string m s n (length xs) val (length vs)"
  note es = env_string_ok[OF n(1) v ap]
  have fr: "\<exists>ys. cstring m e ys \<and> cstring ?m e ys" if "e \<in> set (envv st)" for e
    using es(2) that by (intro env_frame[OF ok env]) (simp_all add: add.assoc)
  have same: "entry_for ?m zs e = entry_for m zs e" if "e \<in> set (envv st)" "0 \<notin> set zs" for e zs
    using fr[OF that(1)] entry_for_string that(2) by metis
  have ok1: "env_ok ?m st" unfolding env_ok_def
  proof (intro conjI ballI)
    show "\<exists>ys. cstring ?m e ys" if "e \<in> set (envv st)" for e using fr[OF that] by blast
    show "environ st = 0 \<longrightarrow> envv st = []" using ok by (simp add: env_ok_def)
  qed
  obtain st' where st': "env_put ?m st s (length xs) s newenv t = (st', 0)" "envv st' = env_set ?m xs s (envv st)" "environ st' \<noteq> 0"
    using env_put_ok[OF ok1 es(1) al(2)] by blast
  have z: "0 \<notin> set xs" using n(1) by (simp add: cstring_def)
  have mine: "entry_for ?m zs s \<longleftrightarrow> zs = xs" if "name_ok zs" "0 \<notin> set zs" for zs
    unfolding entry_for_string[OF es(1) that(2)] using two_names[of xs zs] n(2) that(1) by (auto simp: name_ok_def)
  have l: "n + length xs - n = length xs" by simp
  have "setenv m st n val True s newenv t = Some (?m, st', 0)"
    using n(3) al(1) name_len(2,3)[OF n(1,2)] st'(1)
    unfolding setenv_def name_len(1)[OF n(1,2)] strlen_ok[OF v] bind.simps Let_def l env_string_def by simp
  moreover have "env_ok ?m st'" unfolding env_ok_def st'(2)
  proof (intro conjI ballI)
    fix e assume "e \<in> set (env_set ?m xs s (envv st))"
    then have "e = s \<or> e \<in> set (envv st)" using env_set_find(3)[of ?m xs s "envv st"] mine[OF n(2) z] by blast
    then show "\<exists>ys. cstring ?m e ys" using es(1) fr by blast
  qed (use st'(3) in simp)
  moreover have "env_value ?m (envv st') xs = Some (s + length xs + 1)"
    unfolding env_value_def st'(2) using env_set_find(1)[of ?m xs s] mine[OF n(2) z] by simp
  moreover have "cstring ?m (s + length xs + 1) vs" using es(1) by (simp add: cstring_append cstring_step)
  moreover have "env_value ?m (envv st') zs = env_value m (envv st) zs" if "name_ok zs" "0 \<notin> set zs" "zs \<noteq> xs" for zs
  proof -
    have "find (entry_for ?m zs) (env_set ?m xs s (envv st)) = find (entry_for ?m zs) (envv st)"
      using mine[OF that(1,2)] mine[OF n(2) z] that(3) entry_for_unique[OF ok1 _ n(2) that(1) z that(2)] by (intro env_set_find(2)) blast+
    also have "\<dots> = find (entry_for m zs) (envv st)" by (rule find_cong) (rule same[OF _ that(2)])
    finally show ?thesis unfolding env_value_def st'(2) by simp
  qed
  ultimately show ?thesis by blast
qed

section \<open>Properties\<close>

text \<open>
  After a successful \<^verbatim>\<open>setenv\<close> with overwriting, \<^verbatim>\<open>getenv\<close> of the name returns the value,
  whether the name was set before or not, and \<^verbatim>\<open>getenv\<close> of every other name returns what it
  returned before.
\<close>

theorem setenv_getenv:
  assumes "cstring m n xs" and "name_ok xs" and "n \<noteq> 0" and "cstring m val vs" and "env_ok m st"
    and "apart s (length xs + length vs + 2) n (length xs + 1)" and "apart s (length xs + length vs + 2) val (length vs + 1)"
    and "env_apart m st s (length xs + length vs + 2)" and "s \<noteq> 0" and "newenv \<noteq> 0"
  shows "\<exists>m' st'. setenv m st n val True s newenv t = Some (m', st', 0) \<and> env_ok m' st' \<and>
    cstring m' (s + length xs + 1) vs \<and>
    (\<forall>q zs. cstring m' q zs \<longrightarrow> name_ok zs \<longrightarrow>
      getenv m' st' q = Some (if zs = xs then Some (s + length xs + 1) else env_value m (envv st) zs))"
proof -
  obtain m' st' where r: "setenv m st n val True s newenv t = Some (m', st', 0)" "env_ok m' st'"
    "env_value m' (envv st') xs = Some (s + length xs + 1)" "cstring m' (s + length xs + 1) vs"
    "\<forall>zs. name_ok zs \<longrightarrow> 0 \<notin> set zs \<longrightarrow> zs \<noteq> xs \<longrightarrow> env_value m' (envv st') zs = env_value m (envv st) zs"
    using setenv_ok[OF assms] by blast
  have "getenv m' st' q = Some (if zs = xs then Some (s + length xs + 1) else env_value m (envv st) zs)"
    if "cstring m' q zs" "name_ok zs" for q zs
  proof -
    have "0 \<notin> set zs" using that(1) by (simp add: cstring_def)
    then show ?thesis using getenv_ok[OF that r(2)] r(3,5) that(2) by simp
  qed
  then show ?thesis using r(1,2,4) by blast
qed

theorem setenv_getenv_witness:
  "\<exists>m' st'. setenv (\<lambda>a. if a = 1 then 65 else if a = 3 then 66 else 0)
      \<lparr>environ = 0, envv = [], oldenv = 0, env_alloced = [], freed = []\<rparr> 1 3 True 10 20 30 = Some (m', st', 0) \<and> cstring m' 12 [66]"
  using setenv_getenv[of "\<lambda>a. if a = 1 then 65 else if a = 3 then 66 else 0" 1 "[65]" 3 "[66]"
      "\<lparr>environ = 0, envv = [], oldenv = 0, env_alloced = [], freed = []\<rparr>" 10 20 30]
  by (auto simp: cstring_step cstring_end name_ok_def env_ok_def apart_def env_apart_def)

text \<open>
  After \<^verbatim>\<open>unsetenv\<close>, \<^verbatim>\<open>getenv\<close> of the name returns \<^verbatim>\<open>NULL\<close>, however many entries defined it,
  and \<^verbatim>\<open>getenv\<close> of every other name returns what it returned before.
\<close>

theorem unsetenv_getenv:
  assumes "cstring m n xs" and "name_ok xs" and "env_ok m st"
  shows "\<exists>st'. unsetenv m st n = Some (st', 0) \<and> env_ok m st' \<and>
    (\<forall>q zs. cstring m q zs \<longrightarrow> name_ok zs \<longrightarrow> getenv m st' q = (if zs = xs then Some None else getenv m st q))"
proof -
  obtain st' where r: "unsetenv m st n = Some (st', 0)" "env_ok m st'" "env_value m (envv st') xs = None"
    "\<forall>zs. name_ok zs \<longrightarrow> 0 \<notin> set zs \<longrightarrow> zs \<noteq> xs \<longrightarrow> env_value m (envv st') zs = env_value m (envv st) zs"
    using unsetenv_ok[OF assms] by blast
  have "getenv m st' q = (if zs = xs then Some None else getenv m st q)" if "cstring m q zs" "name_ok zs" for q zs
  proof -
    have "0 \<notin> set zs" using that(1) by (simp add: cstring_def)
    then show ?thesis using getenv_ok[OF that r(2)] getenv_ok[OF that assms(3)] r(3,4) that(2) by simp
  qed
  then show ?thesis using r(1,2) by blast
qed

theorem unsetenv_getenv_witness:
  "\<exists>st'. unsetenv (\<lambda>a. if a = 1 then 65 else 0) \<lparr>environ = 0, envv = [], oldenv = 0, env_alloced = [], freed = []\<rparr> 1 = Some (st', 0)"
  using unsetenv_getenv[of "\<lambda>a. if a = 1 then 65 else 0" 1 "[65]" "\<lparr>environ = 0, envv = [], oldenv = 0, env_alloced = [], freed = []\<rparr>"]
  by (auto simp: cstring_step cstring_end name_ok_def env_ok_def)

end
