(* ===== verification/C_Printf.thy ===== *)
theory C_Printf
  imports C_Env
begin

text \<open>
  Formatted output, \<^verbatim>\<open>libc/src/stdio/printf.c\<close>. Every character goes through an output function
  with the position it has in the output; \<open>'b\<close> is what the output function writes to. The
  format and the string arguments are read from memory, which the output does not overlap. The
  variable arguments are a list of 64-bit slots; reading past the last has no result. The
  conversions of floating-point numbers, \<^verbatim>\<open>_ftoa\<close> and \<^verbatim>\<open>_etoa\<close>, are an argument: the characters
  they print.
\<close>

section \<open>Flags and output functions\<close>

definition NTOA_BUFFER_SIZE :: nat where "NTOA_BUFFER_SIZE = 32"

definition FLAGS_ZEROPAD :: "32 word" where "FLAGS_ZEROPAD = push_bit 0 1"
definition FLAGS_LEFT :: "32 word" where "FLAGS_LEFT = push_bit 1 1"
definition FLAGS_PLUS :: "32 word" where "FLAGS_PLUS = push_bit 2 1"
definition FLAGS_SPACE :: "32 word" where "FLAGS_SPACE = push_bit 3 1"
definition FLAGS_HASH :: "32 word" where "FLAGS_HASH = push_bit 4 1"
definition FLAGS_UPPERCASE :: "32 word" where "FLAGS_UPPERCASE = push_bit 5 1"
definition FLAGS_CHAR :: "32 word" where "FLAGS_CHAR = push_bit 6 1"
definition FLAGS_SHORT :: "32 word" where "FLAGS_SHORT = push_bit 7 1"
definition FLAGS_LONG :: "32 word" where "FLAGS_LONG = push_bit 8 1"
definition FLAGS_LONG_LONG :: "32 word" where "FLAGS_LONG_LONG = push_bit 9 1"
definition FLAGS_PRECISION :: "32 word" where "FLAGS_PRECISION = push_bit 10 1"
definition FLAGS_ADAPT_EXP :: "32 word" where "FLAGS_ADAPT_EXP = push_bit 11 1"

definition has :: "32 word \<Rightarrow> 32 word \<Rightarrow> bool" where
  "has flags f \<longleftrightarrow> and flags f \<noteq> 0"

text \<open>The arguments of an output function: character, buffer, index, limit.\<close>

type_synonym 'b out_fct_type = "byte \<Rightarrow> nat \<Rightarrow> nat \<Rightarrow> nat \<Rightarrow> 'b \<Rightarrow> 'b"

definition out_buffer :: "cmem out_fct_type" where
  "out_buffer character buffer idx maxlen m = (if idx < maxlen then m(buffer + idx := character) else m)"

definition out_null :: "'b out_fct_type" where
  "out_null character buffer idx maxlen b = b"

text \<open>What \<^verbatim>\<open>putchar\<close> has written is a list.\<close>

definition out_char :: "byte list out_fct_type" where
  "out_char character buffer idx maxlen b = (if character \<noteq> 0 then b @ [character] else b)"

definition out_fct :: "(byte \<Rightarrow> 'b \<Rightarrow> 'b) \<Rightarrow> 'b out_fct_type" where
  "out_fct fct character buffer idx maxlen b = (if character \<noteq> 0 then fct character b else b)"

definition fprintf_writer :: "(byte \<Rightarrow> nat \<Rightarrow> 'b \<Rightarrow> 'b) \<Rightarrow> 'b out_fct_type" where
  "fprintf_writer fputc c a idx maxlen b = fputc c a b"

text \<open>\<^verbatim>\<open>out(c, buffer, idx++, maxlen)\<close>, with the buffer and the limit in \<open>out\<close>.\<close>

definition emit :: "(byte \<Rightarrow> nat \<Rightarrow> 'b \<Rightarrow> 'b) \<Rightarrow> nat \<times> 'b \<Rightarrow> byte \<Rightarrow> nat \<times> 'b" where
  "emit out = (\<lambda>(idx, b) c. (idx + 1, out c idx b))"

definition emit_pad :: "(byte \<Rightarrow> nat \<Rightarrow> 'b \<Rightarrow> 'b) \<Rightarrow> nat \<Rightarrow> nat \<times> 'b \<Rightarrow> nat \<times> 'b" where
  "emit_pad out n st = foldl (emit out) st (replicate n 32)"

section \<open>Numbers\<close>

definition strnlen_s :: "cmem \<Rightarrow> nat \<Rightarrow> nat \<Rightarrow> nat" where
  "strnlen_s m str maxsize = (nlen_loop m str maxsize - str) mod 2 ^ 32"

definition is_digit :: "byte \<Rightarrow> bool" where
  "is_digit ch \<longleftrightarrow> sint ch \<ge> 48 \<and> sint ch \<le> 57"

partial_function (option) fmt_atoi :: "cmem \<Rightarrow> nat \<Rightarrow> nat \<Rightarrow> (nat \<times> nat) option" where
  "fmt_atoi m str i =
     (if is_digit (m str) then fmt_atoi m (str + 1) ((i * 10 + nat (sint (m str) - 48)) mod 2 ^ 32) else Some (i, str))"

definition out_rev :: "(byte \<Rightarrow> nat \<Rightarrow> 'b \<Rightarrow> 'b) \<Rightarrow> byte list \<Rightarrow> nat \<Rightarrow> 32 word \<Rightarrow> nat \<times> 'b \<Rightarrow> nat \<times> 'b" where
  "out_rev out buf width flags st =
     (let start_idx = fst st;
          st = (if \<not> has flags FLAGS_LEFT \<and> \<not> has flags FLAGS_ZEROPAD then emit_pad out (width - length buf) st else st);
          st = foldl (emit out) st (rev buf)
      in if has flags FLAGS_LEFT then emit_pad out (width - (fst st - start_idx)) st else st)"

text \<open>The buffer is the list of its first \<^verbatim>\<open>len\<close> characters.\<close>

definition put :: "byte \<Rightarrow> byte list \<Rightarrow> byte list" where
  "put c buf = (if length buf < NTOA_BUFFER_SIZE then buf @ [c] else buf)"

definition zero_fill :: "nat \<Rightarrow> byte list \<Rightarrow> byte list" where
  "zero_fill n buf = buf @ replicate (min n NTOA_BUFFER_SIZE - length buf) 48"

definition ntoa_hash :: "byte list \<Rightarrow> nat \<Rightarrow> nat \<Rightarrow> nat \<Rightarrow> 32 word \<Rightarrow> byte list" where
  "ntoa_hash buf base prec width flags =
     (let buf = (if \<not> has flags FLAGS_PRECISION \<and> buf \<noteq> [] \<and> (length buf = prec \<or> length buf = width)
                 then let buf = butlast buf in if buf \<noteq> [] \<and> base = 16 then butlast buf else buf
                 else buf);
          buf = (if base = 16 \<and> \<not> has flags FLAGS_UPPERCASE \<and> length buf < NTOA_BUFFER_SIZE then buf @ [120]
                 else if base = 16 \<and> has flags FLAGS_UPPERCASE \<and> length buf < NTOA_BUFFER_SIZE then buf @ [88]
                 else if base = 2 \<and> length buf < NTOA_BUFFER_SIZE then buf @ [98]
                 else buf)
      in put 48 buf)"

definition ntoa_format :: "(byte \<Rightarrow> nat \<Rightarrow> 'b \<Rightarrow> 'b) \<Rightarrow> byte list \<Rightarrow> bool \<Rightarrow> nat \<Rightarrow> nat \<Rightarrow> nat \<Rightarrow> 32 word \<Rightarrow> nat \<times> 'b \<Rightarrow> nat \<times> 'b" where
  "ntoa_format out buf negative base prec width flags st =
     (let (width, buf) =
            (if \<not> has flags FLAGS_LEFT
             then let width = (if width \<noteq> 0 \<and> has flags FLAGS_ZEROPAD \<and> (negative \<or> has flags (or FLAGS_PLUS FLAGS_SPACE))
                               then width - 1 else width);
                      buf = zero_fill prec buf;
                      buf = (if has flags FLAGS_ZEROPAD then zero_fill width buf else buf)
                  in (width, buf)
             else (width, buf));
          buf = (if has flags FLAGS_HASH then ntoa_hash buf base prec width flags else buf);
          buf = (if length buf < NTOA_BUFFER_SIZE
                 then if negative then buf @ [45]
                      else if has flags FLAGS_PLUS then buf @ [43]
                      else if has flags FLAGS_SPACE then buf @ [32]
                      else buf
                 else buf)
      in out_rev out buf width flags st)"

definition digit_char :: "32 word \<Rightarrow> nat \<Rightarrow> byte" where
  "digit_char flags digit =
     (if digit < 10 then word_of_nat (48 + digit)
      else word_of_nat ((if has flags FLAGS_UPPERCASE then 65 else 97) + digit - 10))"

function ntoa_digits :: "nat \<Rightarrow> nat \<Rightarrow> 32 word \<Rightarrow> byte list \<Rightarrow> byte list" where
  "ntoa_digits val base flags buf =
     (let digit = val mod base;
          buf' = buf @ [digit_char flags digit];
          val = val div base
      in if val \<noteq> 0 \<and> length buf' < NTOA_BUFFER_SIZE then ntoa_digits val base flags buf' else buf')"
  by auto
termination by (relation "measure (\<lambda>(val, base, flags, buf). NTOA_BUFFER_SIZE - length buf)") auto

declare ntoa_digits.simps [simp del]

definition ntoa_long :: "(byte \<Rightarrow> nat \<Rightarrow> 'b \<Rightarrow> 'b) \<Rightarrow> nat \<Rightarrow> bool \<Rightarrow> nat \<Rightarrow> nat \<Rightarrow> nat \<Rightarrow> 32 word \<Rightarrow> nat \<times> 'b \<Rightarrow> nat \<times> 'b" where
  "ntoa_long out val negative base prec width flags st =
     (let flags = (if val = 0 then and flags (not FLAGS_HASH) else flags);
          buf = (if \<not> has flags FLAGS_PRECISION \<or> val \<noteq> 0 then ntoa_digits val base flags [] else [])
      in ntoa_format out buf negative base prec width flags st)"

definition ntoa_long_long :: "(byte \<Rightarrow> nat \<Rightarrow> 'b \<Rightarrow> 'b) \<Rightarrow> nat \<Rightarrow> bool \<Rightarrow> nat \<Rightarrow> nat \<Rightarrow> nat \<Rightarrow> 32 word \<Rightarrow> nat \<times> 'b \<Rightarrow> nat \<times> 'b" where
  "ntoa_long_long out val negative base prec width flags st =
     (let flags = (if val = 0 then and flags (not FLAGS_HASH) else flags);
          buf = (if \<not> has flags FLAGS_PRECISION \<or> val \<noteq> 0 then ntoa_digits val base flags [] else [])
      in ntoa_format out buf negative base prec width flags st)"

section \<open>Directives\<close>

type_synonym va_list = "64 word list"

fun va_arg :: "va_list \<Rightarrow> (64 word \<times> va_list) option" where
  "va_arg [] = None"
| "va_arg (w # va) = Some (w, va)"

definition int_arg :: "64 word \<Rightarrow> int" where
  "int_arg w = sint (ucast w :: 32 word)"

definition flag_of :: "byte \<Rightarrow> 32 word option" where
  "flag_of c =
     (if c = 48 then Some FLAGS_ZEROPAD
      else if c = 45 then Some FLAGS_LEFT
      else if c = 43 then Some FLAGS_PLUS
      else if c = 32 then Some FLAGS_SPACE
      else if c = 35 then Some FLAGS_HASH
      else None)"

partial_function (option) fmt_flags :: "cmem \<Rightarrow> nat \<Rightarrow> 32 word \<Rightarrow> (32 word \<times> nat) option" where
  "fmt_flags m format flags =
     (case flag_of (m format) of Some f \<Rightarrow> fmt_flags m (format + 1) (or flags f) | None \<Rightarrow> Some (flags, format))"

definition star_width :: "int \<Rightarrow> 32 word \<Rightarrow> nat \<times> 32 word" where
  "star_width w flags = (if w < 0 then (nat (- w), or flags FLAGS_LEFT) else (nat w, flags))"

definition fmt_width :: "cmem \<Rightarrow> nat \<Rightarrow> 32 word \<Rightarrow> va_list \<Rightarrow> (nat \<times> 32 word \<times> nat \<times> va_list) option" where
  "fmt_width m format flags va =
     (if is_digit (m format) then Option.bind (fmt_atoi m format 0) (\<lambda>(width, format). Some (width, flags, format, va))
      else if m format = 42
      then Option.bind (va_arg va) (\<lambda>(w, va). case star_width (int_arg w) flags of (width, flags) \<Rightarrow> Some (width, flags, format + 1, va))
      else Some (0, flags, format, va))"

definition fmt_precision :: "cmem \<Rightarrow> nat \<Rightarrow> 32 word \<Rightarrow> va_list \<Rightarrow> (nat \<times> 32 word \<times> nat \<times> va_list) option" where
  "fmt_precision m format flags va =
     (if m format = 46
      then let flags = or flags FLAGS_PRECISION; format = format + 1
           in if is_digit (m format) then Option.bind (fmt_atoi m format 0) (\<lambda>(prec, format). Some (prec, flags, format, va))
              else if m format = 42
              then Option.bind (va_arg va) (\<lambda>(w, va). Some (if int_arg w > 0 then nat (int_arg w) else 0, flags, format + 1, va))
              else Some (0, flags, format, va)
      else Some (0, flags, format, va))"

text \<open>\<^verbatim>\<open>ptrdiff_t\<close>, \<^verbatim>\<open>uint64_t\<close> and \<^verbatim>\<open>size_t\<close> have the size of \<^verbatim>\<open>long\<close>.\<close>

definition fmt_length :: "cmem \<Rightarrow> nat \<Rightarrow> 32 word \<Rightarrow> 32 word \<times> nat" where
  "fmt_length m format flags =
     (if m format = 108
      then let flags = or flags FLAGS_LONG; format = format + 1
           in if m format = 108 then (or flags FLAGS_LONG_LONG, format + 1) else (flags, format)
      else if m format = 104
      then let flags = or flags FLAGS_SHORT; format = format + 1
           in if m format = 104 then (or flags FLAGS_CHAR, format + 1) else (flags, format)
      else if m format = 116 \<or> m format = 106 \<or> m format = 122 then (or flags FLAGS_LONG, format + 1)
      else (flags, format))"

definition int_base :: "byte \<Rightarrow> nat" where
  "int_base c = (if c = 120 \<or> c = 88 then 16 else if c = 111 then 8 else if c = 98 then 2 else 10)"

definition int_flags :: "byte \<Rightarrow> 32 word \<Rightarrow> 32 word" where
  "int_flags c flags =
     (let flags = (if int_base c = 10 then and flags (not FLAGS_HASH) else flags);
          flags = (if c = 88 then or flags FLAGS_UPPERCASE else flags);
          flags = (if c \<noteq> 105 \<and> c \<noteq> 100 then and flags (not (or FLAGS_PLUS FLAGS_SPACE)) else flags)
      in if has flags FLAGS_PRECISION then and flags (not FLAGS_ZEROPAD) else flags)"

definition fmt_int :: "(byte \<Rightarrow> nat \<Rightarrow> 'b \<Rightarrow> 'b) \<Rightarrow> byte \<Rightarrow> nat \<Rightarrow> nat \<Rightarrow> 32 word \<Rightarrow> 64 word \<Rightarrow> nat \<times> 'b \<Rightarrow> nat \<times> 'b" where
  "fmt_int out c prec width flags w st =
     (let base = int_base c; flags = int_flags c flags
      in if c = 105 \<or> c = 100
         then if has flags FLAGS_LONG_LONG
              then ntoa_long_long out (nat (if sint w > 0 then sint w else - sint w)) (sint w < 0) base prec width flags st
              else if has flags FLAGS_LONG
              then ntoa_long out (nat (if sint w > 0 then sint w else - sint w)) (sint w < 0) base prec width flags st
              else let v = (if has flags FLAGS_CHAR then sint (ucast w :: 8 word)
                            else if has flags FLAGS_SHORT then sint (ucast w :: 16 word)
                            else int_arg w)
                   in ntoa_long out (nat (if v > 0 then v else - v)) (v < 0) base prec width flags st
         else if has flags FLAGS_LONG_LONG then ntoa_long_long out (unat w) False base prec width flags st
         else if has flags FLAGS_LONG then ntoa_long out (unat w) False base prec width flags st
         else let v = (if has flags FLAGS_CHAR then unat (ucast w :: 8 word)
                       else if has flags FLAGS_SHORT then unat (ucast w :: 16 word)
                       else unat (ucast w :: 32 word))
              in ntoa_long out v False base prec width flags st)"

definition fmt_char :: "(byte \<Rightarrow> nat \<Rightarrow> 'b \<Rightarrow> 'b) \<Rightarrow> nat \<Rightarrow> 32 word \<Rightarrow> 64 word \<Rightarrow> nat \<times> 'b \<Rightarrow> nat \<times> 'b" where
  "fmt_char out width flags w st =
     (let st = (if \<not> has flags FLAGS_LEFT then emit_pad out (width - 1) st else st);
          st = emit out st (ucast w)
      in if has flags FLAGS_LEFT then emit_pad out (width - 1) st else st)"

partial_function (option) str_loop :: "(byte \<Rightarrow> nat \<Rightarrow> 'b \<Rightarrow> 'b) \<Rightarrow> cmem \<Rightarrow> nat \<Rightarrow> bool \<Rightarrow> nat \<Rightarrow> nat \<times> 'b \<Rightarrow> (nat \<times> 'b) option" where
  "str_loop out m p limited prec st =
     (if m p \<noteq> 0 \<and> (\<not> limited \<or> prec \<noteq> 0)
      then str_loop out m (p + 1) limited (if limited then prec - 1 else prec) (emit out st (m p))
      else Some st)"

definition fmt_str :: "(byte \<Rightarrow> nat \<Rightarrow> 'b \<Rightarrow> 'b) \<Rightarrow> cmem \<Rightarrow> nat \<Rightarrow> nat \<Rightarrow> 32 word \<Rightarrow> 64 word \<Rightarrow> nat \<times> 'b \<Rightarrow> (nat \<times> 'b) option" where
  "fmt_str out m prec width flags w st =
     (let p = unat w
      in if p = 0 then Some (foldl (emit out) st [40, 78, 73, 76, 41])
         else let l = strnlen_s m p (if prec \<noteq> 0 then prec else 2 ^ 64 - 1);
                  l = (if has flags FLAGS_PRECISION then if l < prec then l else prec else l);
                  st = (if \<not> has flags FLAGS_LEFT then emit_pad out (width - l) st else st)
              in Option.bind (str_loop out m p (has flags FLAGS_PRECISION) prec st) (\<lambda>st.
                   Some (if has flags FLAGS_LEFT then emit_pad out (width - l) st else st)))"

definition fmt_ptr :: "(byte \<Rightarrow> nat \<Rightarrow> 'b \<Rightarrow> 'b) \<Rightarrow> nat \<Rightarrow> 32 word \<Rightarrow> 64 word \<Rightarrow> nat \<times> 'b \<Rightarrow> nat \<times> 'b" where
  "fmt_ptr out prec flags w st =
     ntoa_long_long out (unat w) False 16 prec 16 (or flags (or FLAGS_ZEROPAD FLAGS_UPPERCASE)) st"

text \<open>The characters of a floating-point conversion: specifier, value, precision, width, flags.\<close>

type_synonym float_conv = "byte \<Rightarrow> 64 word \<Rightarrow> nat \<Rightarrow> nat \<Rightarrow> 32 word \<Rightarrow> byte list"

definition float_flags :: "byte \<Rightarrow> 32 word \<Rightarrow> 32 word" where
  "float_flags c flags =
     (let flags = (if c = 103 \<or> c = 71 then or flags FLAGS_ADAPT_EXP else flags)
      in if c = 70 \<or> c = 69 \<or> c = 71 then or flags FLAGS_UPPERCASE else flags)"

text \<open>The switch on the specifier: how many characters of the format it uses, the rest of the arguments, and the output.\<close>

definition fmt_spec :: "float_conv \<Rightarrow> (byte \<Rightarrow> nat \<Rightarrow> 'b \<Rightarrow> 'b) \<Rightarrow> cmem \<Rightarrow> byte \<Rightarrow> nat \<Rightarrow> nat \<Rightarrow> 32 word \<Rightarrow> va_list \<Rightarrow> nat \<times> 'b \<Rightarrow>
    (nat \<times> va_list \<times> nat \<times> 'b) option" where
  "fmt_spec fl out m c prec width flags va st =
     (if c \<in> {100, 105, 117, 120, 88, 111, 98}
      then Option.bind (va_arg va) (\<lambda>(w, va). Some (1, va, fmt_int out c prec width flags w st))
      else if c \<in> {102, 70, 101, 69, 103, 71}
      then Option.bind (va_arg va) (\<lambda>(w, va). Some (1, va, foldl (emit out) st (fl c w prec width (float_flags c flags))))
      else if c = 99 then Option.bind (va_arg va) (\<lambda>(w, va). Some (1, va, fmt_char out width flags w st))
      else if c = 115
      then Option.bind (va_arg va) (\<lambda>(w, va). Option.bind (fmt_str out m prec width flags w st) (\<lambda>st. Some (1, va, st)))
      else if c = 112 then Option.bind (va_arg va) (\<lambda>(w, va). Some (1, va, fmt_ptr out prec flags w st))
      else if c = 85 then Some (0, va, st)
      else if c = 37 then Some (1, va, emit out st 37)
      else Some (1, va, emit out st c))"

partial_function (option) vsnprintf_loop :: "float_conv \<Rightarrow> (byte \<Rightarrow> nat \<Rightarrow> 'b \<Rightarrow> 'b) \<Rightarrow> cmem \<Rightarrow> nat \<Rightarrow> va_list \<Rightarrow> nat \<times> 'b \<Rightarrow>
    (nat \<times> 'b) option" where
  "vsnprintf_loop fl out m format va st =
     (if m format = 0 then Some st
      else if m format \<noteq> 37 then vsnprintf_loop fl out m (format + 1) va (emit out st (m format))
      else Option.bind (fmt_flags m (format + 1) 0) (\<lambda>(flags, format).
           Option.bind (fmt_width m format flags va) (\<lambda>(width, flags, format, va).
           Option.bind (fmt_precision m format flags va) (\<lambda>(prec, flags, format, va).
             case fmt_length m format flags of (flags, format) \<Rightarrow>
           Option.bind (fmt_spec fl out m (m format) prec width flags va st) (\<lambda>(n, va, st).
             vsnprintf_loop fl out m (format + n) va st)))))"

definition vsnprintf_core :: "float_conv \<Rightarrow> 'b out_fct_type \<Rightarrow> nat \<Rightarrow> nat \<Rightarrow> cmem \<Rightarrow> nat \<Rightarrow> va_list \<Rightarrow> 'b \<Rightarrow> (int \<times> 'b) option" where
  "vsnprintf_core fl out buffer maxlen m format va b =
     (let out = (if buffer = 0 then out_null else out)
      in Option.bind (vsnprintf_loop fl (\<lambda>c idx. out c buffer idx maxlen) m format va (0, b)) (\<lambda>(idx, b).
           Some (wrap32 (int idx), out 0 buffer (if idx < maxlen then idx else sub64 maxlen 1) maxlen b)))"

section \<open>The printing functions\<close>

text \<open>The one-byte buffer of \<^verbatim>\<open>printf\<close> is some address other than 0; the output functions that get it ignore it.\<close>

definition vprintf :: "float_conv \<Rightarrow> cmem \<Rightarrow> nat \<Rightarrow> va_list \<Rightarrow> byte list \<Rightarrow> (int \<times> byte list) option" where
  "vprintf fl m format va b = vsnprintf_core fl out_char 1 (2 ^ 64 - 1) m format va b"

definition printf :: "float_conv \<Rightarrow> cmem \<Rightarrow> nat \<Rightarrow> va_list \<Rightarrow> byte list \<Rightarrow> (int \<times> byte list) option" where
  "printf fl m format va b = vsnprintf_core fl out_char 1 (2 ^ 64 - 1) m format va b"

definition vsnprintf :: "float_conv \<Rightarrow> nat \<Rightarrow> nat \<Rightarrow> cmem \<Rightarrow> nat \<Rightarrow> va_list \<Rightarrow> cmem \<Rightarrow> (int \<times> cmem) option" where
  "vsnprintf fl buffer maxcount m format va b = vsnprintf_core fl out_buffer buffer maxcount m format va b"

definition snprintf :: "float_conv \<Rightarrow> nat \<Rightarrow> nat \<Rightarrow> cmem \<Rightarrow> nat \<Rightarrow> va_list \<Rightarrow> cmem \<Rightarrow> (int \<times> cmem) option" where
  "snprintf fl buffer maxcount m format va b = vsnprintf_core fl out_buffer buffer maxcount m format va b"

definition sprintf :: "float_conv \<Rightarrow> nat \<Rightarrow> cmem \<Rightarrow> nat \<Rightarrow> va_list \<Rightarrow> cmem \<Rightarrow> (int \<times> cmem) option" where
  "sprintf fl buffer m format va b = vsnprintf_core fl out_buffer buffer (2 ^ 64 - 1) m format va b"

definition vsprintf :: "float_conv \<Rightarrow> nat \<Rightarrow> cmem \<Rightarrow> nat \<Rightarrow> va_list \<Rightarrow> cmem \<Rightarrow> (int \<times> cmem) option" where
  "vsprintf fl buffer m format va b = vsnprintf fl buffer 0x7FFFFFF m format va b"

definition vfctprintf :: "float_conv \<Rightarrow> (byte \<Rightarrow> 'b \<Rightarrow> 'b) \<Rightarrow> cmem \<Rightarrow> nat \<Rightarrow> va_list \<Rightarrow> 'b \<Rightarrow> (int \<times> 'b) option" where
  "vfctprintf fl out m format va b = vsnprintf_core fl (out_fct out) 1 (2 ^ 64 - 1) m format va b"

definition fctprintf :: "float_conv \<Rightarrow> (byte \<Rightarrow> 'b \<Rightarrow> 'b) \<Rightarrow> cmem \<Rightarrow> nat \<Rightarrow> va_list \<Rightarrow> 'b \<Rightarrow> (int \<times> 'b) option" where
  "fctprintf fl out m format va b = vsnprintf_core fl (out_fct out) 1 (2 ^ 64 - 1) m format va b"

definition vsnfprintf :: "float_conv \<Rightarrow> (byte \<Rightarrow> nat \<Rightarrow> 'b \<Rightarrow> 'b) \<Rightarrow> nat \<Rightarrow> cmem \<Rightarrow> nat \<Rightarrow> va_list \<Rightarrow> 'b \<Rightarrow> (int \<times> 'b) option" where
  "vsnfprintf fl fputc stream m fmt va b = vsnprintf_core fl (fprintf_writer fputc) stream (2 ^ 64 - 1) m fmt va b"

definition vfprintf :: "float_conv \<Rightarrow> (byte \<Rightarrow> nat \<Rightarrow> 'b \<Rightarrow> 'b) \<Rightarrow> nat \<Rightarrow> cmem \<Rightarrow> nat \<Rightarrow> va_list \<Rightarrow> 'b \<Rightarrow> (int \<times> 'b) option" where
  "vfprintf fl fputc stream m fmt va b = vsnprintf_core fl (fprintf_writer fputc) stream (2 ^ 64 - 1) m fmt va b"

definition fprintf :: "float_conv \<Rightarrow> (byte \<Rightarrow> nat \<Rightarrow> 'b \<Rightarrow> 'b) \<Rightarrow> nat \<Rightarrow> cmem \<Rightarrow> nat \<Rightarrow> va_list \<Rightarrow> 'b \<Rightarrow> (int \<times> 'b) option" where
  "fprintf fl fputc stream m format va b = vsnfprintf fl fputc stream m format va b"

end
