(* ===== verification/C_Printf_Spec.thy ===== *)
theory C_Printf_Spec
  imports C_Printf
begin

text \<open>
  What the printing functions print. \<open>fmt_run\<close> is the specification: the characters of a format
  with its arguments, read as lists. \<open>vsnprintf_loop_ok\<close> shows that the code returns and sends
  exactly these characters, in order, to whatever output function it was given.
\<close>

section \<open>The characters of the conversions\<close>

text \<open>What each conversion prints, as a list of characters, whatever the output function does with them.\<close>

definition pad :: "nat \<Rightarrow> byte list" where "pad n = replicate n 32"

definition rev_chars :: "byte list \<Rightarrow> nat \<Rightarrow> 32 word \<Rightarrow> byte list" where
  "rev_chars buf width flags =
     (if \<not> has flags FLAGS_LEFT \<and> \<not> has flags FLAGS_ZEROPAD then pad (width - length buf) else []) @ rev buf @
     (if has flags FLAGS_LEFT then pad (width - length buf) else [])"

lemma emit_all_idx: "fst (foldl (emit out) st cs) = fst st + length cs"
  by (induction cs arbitrary: st) (auto simp: emit_def split: prod.splits)

lemma out_rev_chars: "out_rev out buf width flags st = foldl (emit out) st (rev_chars buf width flags)"
  by (simp add: out_rev_def rev_chars_def emit_pad_def pad_def Let_def emit_all_idx)

definition chars :: "((byte \<Rightarrow> nat \<Rightarrow> byte list \<Rightarrow> byte list) \<Rightarrow> nat \<times> byte list \<Rightarrow> nat \<times> byte list) \<Rightarrow> byte list" where
  "chars f = snd (f (\<lambda>c idx b. b @ [c]) (0, []))"

lemma emit_append: "foldl (emit (\<lambda>c idx b. b @ [c])) (n, xs) cs = (n + length cs, xs @ cs)"
  by (induction cs arbitrary: n xs) (auto simp: emit_def)

text \<open>The digits and signs of a number, in the order printed.\<close>

definition format_chars :: "byte list \<Rightarrow> bool \<Rightarrow> nat \<Rightarrow> nat \<Rightarrow> nat \<Rightarrow> 32 word \<Rightarrow> byte list" where
  "format_chars buf negative base prec width flags = chars (\<lambda>out. ntoa_format out buf negative base prec width flags)"

lemma ntoa_format_chars:
  "ntoa_format out buf negative base prec width flags st = foldl (emit out) st (format_chars buf negative base prec width flags)"
  unfolding format_chars_def chars_def ntoa_format_def Let_def out_rev_chars
  by (simp add: emit_append split: prod.splits)

definition num_chars :: "nat \<Rightarrow> bool \<Rightarrow> nat \<Rightarrow> nat \<Rightarrow> nat \<Rightarrow> 32 word \<Rightarrow> byte list" where
  "num_chars val negative base prec width flags =
     (let flags = (if val = 0 then and flags (not FLAGS_HASH) else flags);
          buf = (if \<not> has flags FLAGS_PRECISION \<or> val \<noteq> 0 then ntoa_digits val base flags [] else [])
      in format_chars buf negative base prec width flags)"

lemma ntoa_long_chars: "ntoa_long out val negative base prec width flags st = foldl (emit out) st (num_chars val negative base prec width flags)"
  unfolding ntoa_long_def num_chars_def Let_def ntoa_format_chars ..

lemma ntoa_long_long_chars: "ntoa_long_long out val negative base prec width flags st = foldl (emit out) st (num_chars val negative base prec width flags)"
  unfolding ntoa_long_long_def num_chars_def Let_def ntoa_format_chars ..

definition int_chars :: "byte \<Rightarrow> nat \<Rightarrow> nat \<Rightarrow> 32 word \<Rightarrow> 64 word \<Rightarrow> byte list" where
  "int_chars c prec width flags w = chars (\<lambda>out. fmt_int out c prec width flags w)"

lemma fmt_int_chars: "fmt_int out c prec width flags w st = foldl (emit out) st (int_chars c prec width flags w)"
  unfolding int_chars_def chars_def fmt_int_def Let_def ntoa_long_chars ntoa_long_long_chars by (simp add: emit_append)

definition char_chars :: "nat \<Rightarrow> 32 word \<Rightarrow> 64 word \<Rightarrow> byte list" where
  "char_chars width flags w =
     (if has flags FLAGS_LEFT then ucast w # pad (width - 1) else pad (width - 1) @ [ucast w])"

lemma fmt_char_chars: "fmt_char out width flags w st = foldl (emit out) st (char_chars width flags w)"
  by (simp add: fmt_char_def char_chars_def Let_def emit_pad_def pad_def)

definition str_chars :: "byte list \<Rightarrow> nat \<Rightarrow> nat \<Rightarrow> 32 word \<Rightarrow> byte list" where
  "str_chars xs prec width flags =
     (let xs = (if has flags FLAGS_PRECISION then take prec xs else xs); p = pad (width - length xs)
      in if has flags FLAGS_LEFT then xs @ p else p @ xs)"

lemma nlen_loop_ok: "cstring m s xs \<Longrightarrow> nlen_loop m s n = s + min n (length xs)"
proof (induction n arbitrary: s xs)
  case (Suc n)
  then show ?case by (cases xs) (auto simp: cstring_step cstring_end)
qed simp

lemma str_loop_ok:
  "cstring m p xs \<Longrightarrow> str_loop out m p limited prec st = Some (foldl (emit out) st (if limited then take prec xs else xs))"
proof (induction xs arbitrary: p prec st)
  case Nil
  then show ?case by (subst str_loop.simps) (simp add: cstring_end)
next
  case (Cons x xs)
  have x: "m p = x" "x \<noteq> 0" "cstring m (p + 1) xs" using Cons.prems by (simp_all add: cstring_step)
  show ?case
  proof (cases "limited \<and> prec = 0")
    case True
    then show ?thesis by (subst str_loop.simps) simp
  next
    case False
    then have "str_loop out m p limited prec st = str_loop out m (p + 1) limited (if limited then prec - 1 else prec) (emit out st x)"
      using x by (subst str_loop.simps) simp
    also have "\<dots> = Some (foldl (emit out) (emit out st x) (if limited then take (if limited then prec - 1 else prec) xs else xs))"
      by (rule Cons.IH[OF x(3)])
    finally show ?thesis using False by (cases prec) auto
  qed
qed

lemma fmt_str_ok:
  assumes "cstring m (unat w) xs" and "unat w \<noteq> 0" and "length xs < 2 ^ 32" and "\<not> has flags FLAGS_PRECISION \<Longrightarrow> prec = 0"
  shows "fmt_str out m prec width flags w st = Some (foldl (emit out) st (str_chars xs prec width flags))"
proof -
  let ?k = "if prec \<noteq> 0 then prec else 2 ^ 64 - 1" and ?h = "has flags FLAGS_PRECISION"
  have "min ?k (length xs) < 2 ^ 32" using assms(3) by (simp add: min_def)
  then have l: "strnlen_s m (unat w) ?k = min ?k (length xs)"
    unfolding strnlen_s_def nlen_loop_ok[OF assms(1)] by simp
  have n: "(if ?h then if strnlen_s m (unat w) ?k < prec then strnlen_s m (unat w) ?k else prec else strnlen_s m (unat w) ?k) =
      length (if ?h then take prec xs else xs)"
    unfolding l using assms(3,4) by (auto simp: min_def)
  show ?thesis
    unfolding fmt_str_def Let_def n str_loop_ok[OF assms(1)] bind.simps
    using assms(2) by (simp add: str_chars_def emit_pad_def pad_def Let_def)
qed

section \<open>Directives on lists\<close>

text \<open>The specification reads the format as a list of characters; at its end the character is 0.\<close>

definition cur :: "byte list \<Rightarrow> byte" where
  "cur cs = (case cs of [] \<Rightarrow> 0 | c # _ \<Rightarrow> c)"

lemma cstring_cur: "cstring m p cs \<Longrightarrow> m p = cur cs"
  by (cases cs) (auto simp: cur_def cstring_step cstring_end)

lemma cstring_tl: "cstring m p cs \<Longrightarrow> cur cs \<noteq> 0 \<Longrightarrow> cstring m (p + 1) (tl cs)"
  by (cases cs) (auto simp: cur_def cstring_step)

fun lst_flags :: "byte list \<Rightarrow> 32 word \<Rightarrow> 32 word \<times> byte list" where
  "lst_flags [] flags = (flags, [])"
| "lst_flags (c # cs) flags = (case flag_of c of Some f \<Rightarrow> lst_flags cs (or flags f) | None \<Rightarrow> (flags, c # cs))"

fun lst_atoi :: "byte list \<Rightarrow> nat \<Rightarrow> nat \<times> byte list" where
  "lst_atoi [] i = (i, [])"
| "lst_atoi (c # cs) i = (if is_digit c then lst_atoi cs ((i * 10 + nat (sint c - 48)) mod 2 ^ 32) else (i, c # cs))"

definition lst_width :: "byte list \<Rightarrow> 32 word \<Rightarrow> va_list \<Rightarrow> (nat \<times> 32 word \<times> byte list \<times> va_list) option" where
  "lst_width cs flags va =
     (if is_digit (cur cs) then case lst_atoi cs 0 of (width, cs) \<Rightarrow> Some (width, flags, cs, va)
      else if cur cs = 42
      then Option.bind (va_arg va) (\<lambda>(w, va). case star_width (int_arg w) flags of (width, flags) \<Rightarrow> Some (width, flags, tl cs, va))
      else Some (0, flags, cs, va))"

definition lst_precision :: "byte list \<Rightarrow> 32 word \<Rightarrow> va_list \<Rightarrow> (nat \<times> 32 word \<times> byte list \<times> va_list) option" where
  "lst_precision cs flags va =
     (if cur cs = 46
      then let flags = or flags FLAGS_PRECISION; cs = tl cs
           in if is_digit (cur cs) then case lst_atoi cs 0 of (prec, cs) \<Rightarrow> Some (prec, flags, cs, va)
              else if cur cs = 42
              then Option.bind (va_arg va) (\<lambda>(w, va). Some (if int_arg w > 0 then nat (int_arg w) else 0, flags, tl cs, va))
              else Some (0, flags, cs, va)
      else Some (0, flags, cs, va))"

definition lst_length :: "byte list \<Rightarrow> 32 word \<Rightarrow> 32 word \<times> byte list" where
  "lst_length cs flags =
     (if cur cs = 108
      then let flags = or flags FLAGS_LONG; cs = tl cs
           in if cur cs = 108 then (or flags FLAGS_LONG_LONG, tl cs) else (flags, cs)
      else if cur cs = 104
      then let flags = or flags FLAGS_SHORT; cs = tl cs
           in if cur cs = 104 then (or flags FLAGS_CHAR, tl cs) else (flags, cs)
      else if cur cs = 116 \<or> cur cs = 106 \<or> cur cs = 122 then (or flags FLAGS_LONG, tl cs)
      else (flags, cs))"

text \<open>Everything between the percent sign and the specifier.\<close>

definition lst_directive :: "byte list \<Rightarrow> va_list \<Rightarrow> (nat \<times> nat \<times> 32 word \<times> byte list \<times> va_list) option" where
  "lst_directive cs va =
     (case lst_flags cs 0 of (flags, cs) \<Rightarrow>
      Option.bind (lst_width cs flags va) (\<lambda>(width, flags, cs, va).
      Option.bind (lst_precision cs flags va) (\<lambda>(prec, flags, cs, va).
        case lst_length cs flags of (flags, cs) \<Rightarrow> Some (prec, width, flags, cs, va))))"

text \<open>What a specifier prints; \<open>str\<close> gives the strings of memory.\<close>

definition lst_spec :: "float_conv \<Rightarrow> (nat \<Rightarrow> byte list option) \<Rightarrow> byte \<Rightarrow> nat \<Rightarrow> nat \<Rightarrow> 32 word \<Rightarrow> va_list \<Rightarrow>
    (nat \<times> va_list \<times> byte list) option" where
  "lst_spec fl str c prec width flags va =
     (if c \<in> {100, 105, 117, 120, 88, 111, 98}
      then Option.bind (va_arg va) (\<lambda>(w, va). Some (1, va, int_chars c prec width flags w))
      else if c \<in> {102, 70, 101, 69, 103, 71}
      then Option.bind (va_arg va) (\<lambda>(w, va). Some (1, va, fl c w prec width (float_flags c flags)))
      else if c = 99 then Option.bind (va_arg va) (\<lambda>(w, va). Some (1, va, char_chars width flags w))
      else if c = 115
      then Option.bind (va_arg va) (\<lambda>(w, va).
             if unat w = 0 then Some (1, va, [40, 78, 73, 76, 41])
             else Option.bind (str (unat w)) (\<lambda>xs. Some (1, va, str_chars xs prec width flags)))
      else if c = 112
      then Option.bind (va_arg va) (\<lambda>(w, va).
             Some (1, va, num_chars (unat w) False 16 prec 16 (or flags (or FLAGS_ZEROPAD FLAGS_UPPERCASE))))
      else if c = 85 then Some (0, va, [])
      else Some (1, va, [c]))"

lemma lst_flags_length: "lst_flags cs f = (f', cs') \<Longrightarrow> length cs' \<le> length cs"
  by (induction cs f rule: lst_flags.induct) (auto split: option.splits)

lemma lst_atoi_length: "lst_atoi cs i = (j, cs') \<Longrightarrow> length cs' \<le> length cs"
  by (induction cs i rule: lst_atoi.induct) (auto split: if_splits)

lemma lst_directive_length:
  assumes "lst_directive cs va = Some (prec, width, flags, cs', va')"
  shows "length cs' \<le> length cs"
proof -
  obtain f1 c1 where 1: "lst_flags cs 0 = (f1, c1)" by fastforce
  obtain w2 f2 c2 v2 where 2: "lst_width c1 f1 va = Some (w2, f2, c2, v2)" using assms 1 by (cases "lst_width c1 f1 va") (auto simp: lst_directive_def)
  obtain p3 f3 c3 v3 where 3: "lst_precision c2 f2 v2 = Some (p3, f3, c3, v3)" using assms 1 2 by (cases "lst_precision c2 f2 v2") (auto simp: lst_directive_def)
  have "length c1 \<le> length cs" by (rule lst_flags_length[OF 1])
  moreover have "length c2 \<le> length c1" using 2 lst_atoi_length[of c1 0 "fst (lst_atoi c1 0)" "snd (lst_atoi c1 0)"]
    by (auto simp: lst_width_def bind_eq_Some_conv case_prod_unfold split: if_splits)
  moreover have "length c3 \<le> length c2" using 3 lst_atoi_length[of "tl c2" 0]
    by (fastforce simp: lst_precision_def bind_eq_Some_conv Let_def split: if_splits prod.splits)
  moreover have "length cs' \<le> length c3" using assms 1 2 3
    by (auto simp: lst_directive_def lst_length_def Let_def split: if_splits)
  ultimately show ?thesis by simp
qed

text \<open>
  The characters a format prints. There are none for a format that ends within a directive, or
  for missing arguments.
\<close>

function fmt_run :: "float_conv \<Rightarrow> (nat \<Rightarrow> byte list option) \<Rightarrow> byte list \<Rightarrow> va_list \<Rightarrow> byte list option" where
  "fmt_run fl str cs va =
     (if cs = [] then Some []
      else if hd cs \<noteq> 37 then map_option (Cons (hd cs)) (fmt_run fl str (tl cs) va)
      else case lst_directive (tl cs) va of
             None \<Rightarrow> None
           | Some (prec, width, flags, cs', va') \<Rightarrow>
               if cs' = [] then None
               else Option.bind (lst_spec fl str (hd cs') prec width flags va') (\<lambda>(n, va'', xs).
                 map_option (append xs) (fmt_run fl str (drop n cs') va'')))"
  by pat_completeness auto
termination
proof (relation "measure (\<lambda>(fl, str, cs, va). length cs)", goal_cases)
  case (3 fl str cs va d prec x1 width x2 flags x3 cs' va' y n z va'' xs)
  have "lst_directive (tl cs) va = Some (prec, width, flags, cs', va')" using 3 by (simp only:)
  then have "length cs' \<le> length (tl cs)" by (rule lst_directive_length)
  then show ?case using 3 by (cases cs) auto
qed auto

declare fmt_run.simps [simp del]

section \<open>The code implements the specification\<close>

lemma fmt_flags_ok: "cstring m p cs \<Longrightarrow> lst_flags cs f = (f', cs') \<Longrightarrow> \<exists>p'. fmt_flags m p f = Some (f', p') \<and> cstring m p' cs'"
proof (induction cs arbitrary: p f)
  case Nil
  then show ?case by (subst fmt_flags.simps) (simp add: cstring_end flag_of_def)
next
  case (Cons c cs)
  then show ?case by (subst fmt_flags.simps) (auto simp: cstring_step split: option.splits)
qed

lemma fmt_atoi_ok: "cstring m p cs \<Longrightarrow> lst_atoi cs i = (j, cs') \<Longrightarrow> \<exists>p'. fmt_atoi m p i = Some (j, p') \<and> cstring m p' cs'"
proof (induction cs arbitrary: p i)
  case Nil
  then show ?case by (subst fmt_atoi.simps) (simp add: cstring_end is_digit_def)
next
  case (Cons c cs)
  then show ?case by (subst fmt_atoi.simps) (auto simp: cstring_step split: if_splits)
qed

lemma cur_digit: "is_digit (cur cs) \<Longrightarrow> cur cs \<noteq> 0"
  by (auto simp: is_digit_def)

lemma fmt_width_ok:
  assumes "cstring m p cs" and "lst_width cs flags va = Some (width, flags', cs', va')"
  shows "\<exists>p'. fmt_width m p flags va = Some (width, flags', p', va') \<and> cstring m p' cs'"
proof -
  obtain i c where a: "lst_atoi cs 0 = (i, c)" by fastforce
  consider "is_digit (cur cs)" | "\<not> is_digit (cur cs)" "cur cs = 42" | "\<not> is_digit (cur cs)" "cur cs \<noteq> 42" by blast
  then show ?thesis
  proof cases
    case 1
    then show ?thesis using assms(2) fmt_atoi_ok[OF assms(1) a]
      by (auto simp: fmt_width_def lst_width_def cstring_cur[OF assms(1)] a)
  next
    case 2
    then obtain w va1 where w: "va_arg va = Some (w, va1)" using assms(2) by (cases "va_arg va") (auto simp: lst_width_def)
    obtain width1 flags1 where "star_width (int_arg w) flags = (width1, flags1)" by fastforce
    then show ?thesis using 2 w assms(2) cstring_tl[OF assms(1)]
      by (auto simp: fmt_width_def lst_width_def cstring_cur[OF assms(1)])
  next
    case 3
    then show ?thesis using assms by (auto simp: fmt_width_def lst_width_def cstring_cur[OF assms(1)])
  qed
qed

lemma fmt_precision_ok:
  assumes "cstring m p cs" and "lst_precision cs flags va = Some (prec, flags', cs', va')"
  shows "\<exists>p'. fmt_precision m p flags va = Some (prec, flags', p', va') \<and> cstring m p' cs'"
proof (cases "cur cs = 46")
  case False
  then show ?thesis using assms by (auto simp: fmt_precision_def lst_precision_def cstring_cur[OF assms(1)])
next
  case True
  then have t: "cstring m (p + 1) (tl cs)" using cstring_tl[OF assms(1)] by simp
  obtain i c where a: "lst_atoi (tl cs) 0 = (i, c)" by fastforce
  show ?thesis
    using assms(2) fmt_atoi_ok[OF t a] t cstring_tl[OF t] True
    unfolding fmt_precision_def lst_precision_def cstring_cur[OF assms(1)] cstring_cur[OF t] a Let_def
    by (auto simp: bind_eq_Some_conv split: if_splits)
qed

lemma fmt_length_ok:
  assumes "cstring m p cs" and "lst_length cs flags = (flags', cs')"
  shows "\<exists>p'. fmt_length m p flags = (flags', p') \<and> cstring m p' cs'"
proof (cases "cur cs = 0")
  case True
  then show ?thesis using assms by (auto simp: fmt_length_def lst_length_def cstring_cur[OF assms(1)])
next
  case False
  then have t: "cstring m (p + 1) (tl cs)" using cstring_tl[OF assms(1)] by simp
  show ?thesis
    using assms t cstring_tl[OF t]
    unfolding fmt_length_def lst_length_def cstring_cur[OF assms(1)] cstring_cur[OF t] Let_def
    by (auto split: if_splits)
qed

text \<open>A precision is only given with its flag.\<close>

lemma has_bit: "has f (push_bit k 1) \<longleftrightarrow> bit f k"
  by (simp add: has_def bit_iff_and_push_bit_not_eq_0)

lemma has_PRECISION: "has f FLAGS_PRECISION \<longleftrightarrow> bit f 10"
  unfolding FLAGS_PRECISION_def by (rule has_bit)

lemma bit_PRECISION: "bit FLAGS_PRECISION 10"
  by (simp add: FLAGS_PRECISION_def bit_simps)

lemma lst_precision_flag:
  "lst_precision cs flags va = Some (prec, flags', cs', va') \<Longrightarrow> \<not> bit flags' 10 \<Longrightarrow> prec = 0"
  by (auto simp: lst_precision_def Let_def bind_eq_Some_conv bit_or_iff bit_PRECISION split: if_splits prod.splits)

lemma lst_length_flag: "lst_length cs flags = (flags', cs') \<Longrightarrow> bit flags k \<Longrightarrow> bit flags' k"
  by (auto simp: lst_length_def Let_def bit_or_iff split: if_splits)

definition strings_at :: "cmem \<Rightarrow> (nat \<Rightarrow> byte list option) \<Rightarrow> bool" where
  "strings_at m str \<longleftrightarrow> (\<forall>p xs. str p = Some xs \<longrightarrow> cstring m p xs \<and> length xs < 2 ^ 32)"

lemma fmt_spec_ok:
  assumes "strings_at m str" and "lst_spec fl str c prec width flags va = Some (n, va', xs)" and "\<not> has flags FLAGS_PRECISION \<Longrightarrow> prec = 0"
  shows "fmt_spec fl out m c prec width flags va st = Some (n, va', foldl (emit out) st xs)"
proof (cases "c = 115")
  case True
  then obtain w va1 where w: "va_arg va = Some (w, va1)" using assms(2) by (cases "va_arg va") (auto simp: lst_spec_def)
  show ?thesis
  proof (cases "unat w = 0")
    case z: True
    then show ?thesis using assms(2) True w by (auto simp: lst_spec_def fmt_spec_def fmt_str_def)
  next
    case False
    then obtain ys where ys: "str (unat w) = Some ys" using assms(2) True w by (cases "str (unat w)") (auto simp: lst_spec_def)
    then have "cstring m (unat w) ys" "length ys < 2 ^ 32" using assms(1) by (auto simp: strings_at_def)
    then have "fmt_str out m prec width flags w st = Some (foldl (emit out) st (str_chars ys prec width flags))"
      using False assms(3) by (intro fmt_str_ok)
    then show ?thesis using assms(2) True w False ys by (auto simp: lst_spec_def fmt_spec_def)
  qed
next
  case False
  show ?thesis
    using assms(2) False unfolding lst_spec_def fmt_spec_def fmt_int_chars fmt_char_chars fmt_ptr_def ntoa_long_long_chars
    by (auto simp: bind_eq_Some_conv split: if_splits)
qed

lemma vsnprintf_loop_ok:
  assumes "strings_at m str"
  shows "cstring m p cs \<Longrightarrow> fmt_run fl str cs va = Some xs \<Longrightarrow> vsnprintf_loop fl out m p va st = Some (foldl (emit out) st xs)"
proof (induction "length cs" arbitrary: p cs va xs st rule: less_induct)
  case less
  show ?case
  proof (cases cs)
    case Nil
    then show ?thesis using less.prems by (subst vsnprintf_loop.simps) (simp add: cstring_end fmt_run.simps)
  next
    case (Cons c rest)
    then have c: "m p = c" "c \<noteq> 0" "cstring m (p + 1) rest" using less.prems(1) by (simp_all add: cstring_step)
    show ?thesis
    proof (cases "c = 37")
      case False
      obtain ys where ys: "fmt_run fl str rest va = Some ys" "xs = c # ys"
        using less.prems(2) Cons False by (subst (asm) fmt_run.simps) auto
      have "vsnprintf_loop fl out m p va st = vsnprintf_loop fl out m (p + 1) va (emit out st c)"
        using c False by (subst vsnprintf_loop.simps) simp
      then show ?thesis using less.hyps[OF _ c(3) ys(1)] Cons ys(2) by simp
    next
      case True
      obtain prec width flags cs' va' where d: "lst_directive rest va = Some (prec, width, flags, cs', va')" "cs' \<noteq> []"
        using less.prems(2) Cons True by (subst (asm) fmt_run.simps) (auto split: option.splits if_splits)
      obtain n va'' ys zs where sp: "lst_spec fl str (hd cs') prec width flags va' = Some (n, va'', ys)"
        "fmt_run fl str (drop n cs') va'' = Some zs" "xs = ys @ zs"
        using less.prems(2) Cons True d by (subst (asm) fmt_run.simps) (auto simp: bind_eq_Some_conv)
      obtain f1 c1 where 1: "lst_flags rest 0 = (f1, c1)" by fastforce
      obtain w2 f2 c2 v2 where 2: "lst_width c1 f1 va = Some (w2, f2, c2, v2)"
        using d(1) 1 by (cases "lst_width c1 f1 va") (auto simp: lst_directive_def)
      obtain p3 f3 c3 v3 where 3: "lst_precision c2 f2 v2 = Some (p3, f3, c3, v3)"
        using d(1) 1 2 by (cases "lst_precision c2 f2 v2") (auto simp: lst_directive_def)
      obtain f4 c4 where 4: "lst_length c3 f3 = (f4, c4)" by fastforce
      have e: "prec = p3" "width = w2" "flags = f4" "cs' = c4" "va' = v3" using d(1) 1 2 3 4 by (auto simp: lst_directive_def)
      obtain q1 where q1: "fmt_flags m (p + 1) 0 = Some (f1, q1)" "cstring m q1 c1" using fmt_flags_ok[OF c(3) 1] by blast
      obtain q2 where q2: "fmt_width m q1 f1 va = Some (w2, f2, q2, v2)" "cstring m q2 c2" using fmt_width_ok[OF q1(2) 2] by blast
      obtain q3 where q3: "fmt_precision m q2 f2 v2 = Some (p3, f3, q3, v3)" "cstring m q3 c3" using fmt_precision_ok[OF q2(2) 3] by blast
      obtain q4 where q4: "fmt_length m q3 f3 = (f4, q4)" "cstring m q4 c4" using fmt_length_ok[OF q3(2) 4] by blast
      have fl4: "p3 = 0" if "\<not> has f4 FLAGS_PRECISION"
        using that lst_precision_flag[OF 3] lst_length_flag[OF 4, of 10] unfolding has_PRECISION by blast
      have hd: "m q4 = hd c4" using cstring_cur[OF q4(2)] d(2) e(4) by (cases c4) (auto simp: cur_def)
      have s: "fmt_spec fl out m (m q4) p3 w2 f4 v3 st = Some (n, va'', foldl (emit out) st ys)"
        unfolding hd by (rule fmt_spec_ok[OF assms sp(1)[unfolded e] fl4])
      have "n \<le> 1" using sp(1) by (auto simp: lst_spec_def bind_eq_Some_conv split: if_splits)
      then have n: "n \<le> length c4" using d(2) e(4) by (cases c4) auto
      have "vsnprintf_loop fl out m p va st = vsnprintf_loop fl out m (q4 + n) va'' (foldl (emit out) st ys)"
        using c(1,2) True by (subst vsnprintf_loop.simps) (simp only: q1(1) q2(1) q3(1) q4(1) s bind.simps prod.case if_False simp_thms)
      moreover have "length (drop n cs') < length cs" using lst_directive_length[OF d(1)] Cons by simp
      ultimately show ?thesis
        using less.hyps[OF _ cstring_drop[OF q4(2) n]] sp(2,3) e(4) by simp
    qed
  qed
qed

section \<open>Output to a buffer\<close>

lemma out_buffer_all:
  "foldl (emit (\<lambda>c idx. out_buffer c a idx n)) (k, b) cs =
    (k + length cs, \<lambda>q. if a + k \<le> q \<and> q < a + n \<and> q < a + k + length cs then cs ! (q - (a + k)) else b q)"
proof (induction cs arbitrary: k b)
  case (Cons c cs)
  have "foldl (emit (\<lambda>c idx. out_buffer c a idx n)) (k, b) (c # cs) =
      foldl (emit (\<lambda>c idx. out_buffer c a idx n)) (k + 1, out_buffer c a k n b) cs" by (simp add: emit_def)
  also have "\<dots> = (k + 1 + length cs, \<lambda>q. if a + (k + 1) \<le> q \<and> q < a + n \<and> q < a + (k + 1) + length cs
      then cs ! (q - (a + (k + 1))) else out_buffer c a k n b q)" by (rule Cons.IH)
  also have "\<dots> = (k + length (c # cs), \<lambda>q. if a + k \<le> q \<and> q < a + n \<and> q < a + k + length (c # cs) then (c # cs) ! (q - (a + k)) else b q)"
    (is "(_, ?L) = (_, ?R)")
  proof -
    have "?L q = ?R q" for q
    proof (cases "q \<le> a + k")
      case True
      then show ?thesis by (auto simp: out_buffer_def)
    next
      case False
      then obtain i where "q = Suc (a + k + i)" using less_iff_Suc_add by (metis not_le)
      then show ?thesis by (auto simp: out_buffer_def)
    qed
    then show ?thesis by auto
  qed
  finally show ?case .
qed (auto simp: fun_eq_iff)

lemma snprintf_core_ok:
  assumes "strings_at m str" and "cstring m p cs" and "fmt_run fl str cs va = Some xs" and "a \<noteq> 0" and "n < 2 ^ 64"
  shows "vsnprintf_core fl out_buffer a n m p va b = Some (wrap32 (int (length xs)),
    if n = 0 then b else (\<lambda>q. if a \<le> q \<and> q < a + min (n - 1) (length xs) then xs ! (q - a)
      else if q = a + min (n - 1) (length xs) then 0 else b q))"
proof -
  have l: "vsnprintf_loop fl (\<lambda>c idx. out_buffer c a idx n) m p va (0, b) =
      Some (length xs, \<lambda>q. if a \<le> q \<and> q < a + n \<and> q < a + length xs then xs ! (q - a) else b q)"
    using vsnprintf_loop_ok[OF assms(1-3), of "\<lambda>c idx. out_buffer c a idx n" "(0, b)"] out_buffer_all[of a n 0 b xs, unfolded add_0_right add_0]
    by simp
  show ?thesis
  proof (cases "n = 0")
    case True
    then show ?thesis using assms(4) l by (auto simp: vsnprintf_core_def out_buffer_def fun_eq_iff)
  next
    case False
    then have s: "sub64 n 1 = n - 1" using assms(5) by (intro sub64_exact) auto
    show ?thesis using assms(4) l False s by (auto simp: vsnprintf_core_def out_buffer_def fun_eq_iff min_def)
  qed
qed

section \<open>Decimal numbers\<close>

lemma dec_val_snoc: "dec_val v (ds @ [d]) = 10 * dec_val v ds + (sint d - 48)"
  by (simp add: dec_val_def)

lemma digit_char_dec: "d < 10 \<Longrightarrow> sint (digit_char f d) = 48 + int d"
  unfolding digit_char_def
  by (simp only: if_True signed_of_nat) (subst signed_take_bit_int_eq_self; simp)

lemma ntoa_digits_ok:
  "v < 10 ^ k \<Longrightarrow> 0 < k \<Longrightarrow> length buf + k \<le> NTOA_BUFFER_SIZE \<Longrightarrow> \<exists>ds. ntoa_digits v 10 f buf = buf @ ds \<and> ds \<noteq> [] \<and> length ds \<le> k \<and>
    (\<forall>d \<in> set ds. isdigit (sint d)) \<and> dec_val 0 (rev ds) = int v"
proof (induction k arbitrary: v buf)
  case (Suc k)
  let ?d = "digit_char f (v mod 10)"
  have d: "sint ?d = 48 + int (v mod 10)" by (rule digit_char_dec) simp
  then have dig: "isdigit (sint ?d)" by (auto simp: isdigit_def)
  show ?case
  proof (cases "v div 10 = 0")
    case True
    then have "ntoa_digits v 10 f buf = buf @ [?d]" by (subst ntoa_digits.simps) (simp add: Let_def)
    then show ?thesis using True dig d by (intro exI[of _ "[?d]"]) (auto simp: dec_val_def)
  next
    case False
    have k: "v div 10 < 10 ^ k" using Suc.prems(1) by (simp add: less_mult_imp_div_less mult.commute)
    then have k0: "0 < k" using False by (cases k) auto
    then have "ntoa_digits v 10 f buf = ntoa_digits (v div 10) 10 f (buf @ [?d])"
      using False Suc.prems(3) by (subst ntoa_digits.simps) (simp add: Let_def)
    moreover obtain ds where "ntoa_digits (v div 10) 10 f (buf @ [?d]) = (buf @ [?d]) @ ds" "ds \<noteq> []" "length ds \<le> k"
      "\<forall>d \<in> set ds. isdigit (sint d)" "dec_val 0 (rev ds) = int (v div 10)"
      using Suc.IH[OF k k0, of "buf @ [?d]"] Suc.prems(3) by auto
    ultimately show ?thesis using dig d
      by (intro exI[of _ "?d # ds"]) (auto simp: dec_val_snoc zdiv_int zmod_int)
  qed
qed simp

lemma has_0: "\<not> has 0 f"
  by (simp add: has_def)

lemma decimal_chars:
  assumes "v < 10 ^ k" and "0 < k" and "k < NTOA_BUFFER_SIZE"
  shows "\<exists>ds. num_chars v neg 10 0 0 0 = (if neg then [45] else []) @ ds \<and> ds \<noteq> [] \<and> length ds \<le> k \<and>
    (\<forall>d \<in> set ds. isdigit (sint d)) \<and> dec_val 0 ds = int v"
proof -
  obtain ds where ds: "ntoa_digits v 10 0 [] = ds" "ds \<noteq> []" "length ds \<le> k" "\<forall>d \<in> set ds. isdigit (sint d)" "dec_val 0 (rev ds) = int v"
    using ntoa_digits_ok[OF assms(1,2), of "[]" 0] assms(3) by auto
  have "num_chars v neg 10 0 0 0 = (if neg then [45] else []) @ rev ds"
    using ds(1,3) assms(3)
    by (cases "v = 0") (simp_all add: num_chars_def format_chars_def chars_def ntoa_format_def out_rev_chars rev_chars_def has_0 zero_fill_def emit_append pad_def Let_def)
  then show ?thesis using ds by (intro exI[of _ "rev ds"]) auto
qed

lemma fmt_d:
  "fmt_run fl str [37, 100] [w] = Some (num_chars (nat \<bar>int_arg w\<bar>) (int_arg w < 0) 10 0 0 0)"
proof -
  have "int_chars 100 0 0 0 w = num_chars (nat \<bar>int_arg w\<bar>) (int_arg w < 0) 10 0 0 0"
    by (simp add: int_chars_def chars_def fmt_int_def int_base_def int_flags_def has_0 ntoa_long_chars emit_append abs_if Let_def)
  then show ?thesis
    by (simp add: fmt_run.simps lst_directive_def flag_of_def lst_width_def lst_precision_def lst_length_def cur_def is_digit_def lst_spec_def)
qed

lemma int_arg_range: "- (2 ^ 31) \<le> int_arg w" "int_arg w < 2 ^ 31"
  using sint_range_size[of "ucast w :: 32 word"] by (simp_all add: int_arg_def word_size)

lemma snprintf_atoi:
  assumes "cstring m p [37, 100]" and "a \<noteq> 0" and "12 \<le> n" and "n < 2 ^ 64"
  shows "\<exists>r b'. snprintf fl a n m p [w] b = Some (r, b') \<and> atoi b' a = Some (int_arg w)"
proof -
  let ?v = "int_arg w"
  have "nat \<bar>?v\<bar> < 10 ^ 10" using int_arg_range[of w] by auto
  then obtain ds where ds: "num_chars (nat \<bar>?v\<bar>) (?v < 0) 10 0 0 0 = (if ?v < 0 then [45] else []) @ ds" "ds \<noteq> []" "length ds \<le> 10"
    "\<forall>d \<in> set ds. isdigit (sint d)" "dec_val 0 ds = \<bar>?v\<bar>"
    using decimal_chars[of "nat \<bar>?v\<bar>" 10 "?v < 0"] by (auto simp: NTOA_BUFFER_SIZE_def)
  let ?sg = "if ?v < 0 then [45] else [] :: byte list"
  define xs where "xs = ?sg @ ds"
  have l: "length xs \<le> 11" using ds(3) by (simp add: xs_def)
  have run: "fmt_run fl (\<lambda>_. None) [37, 100] [w] = Some xs" unfolding fmt_d ds(1) xs_def ..
  let ?b = "\<lambda>q. if a \<le> q \<and> q < a + min (n - 1) (length xs) then xs ! (q - a) else if q = a + min (n - 1) (length xs) then 0 else b q"
  have "snprintf fl a n m p [w] b = Some (wrap32 (int (length xs)), ?b)"
    unfolding snprintf_def using snprintf_core_ok[OF _ assms(1) run assms(2,4), of b] assms(3) by (simp add: strings_at_def)
  moreover have "min (n - 1) (length xs) = length xs" using l assms(3) by simp
  then have "cstring ?b a xs" using ds(4) unfolding cstring_def by (auto simp: xs_def isdigit_def)
  then have "cstring ?b a ([] @ ?sg @ ds @ [])" by (simp add: xs_def)
  then have "atoi ?b a = Some (wrap32 (if ?sg = [45] then - dec_val 0 ds else dec_val 0 ds))"
    by (rule atoi_ok) (use ds in auto)
  then have "atoi ?b a = Some ?v" using ds(5) int_arg_range[of w] by (auto simp: wrap32_id)
  ultimately show ?thesis by blast
qed

section \<open>Streams\<close>

lemma vsnfprintf_zero:
  assumes "strings_at m str" and "cstring m p cs" and "fmt_run fl str cs va = Some xs" and "stream \<noteq> 0"
  shows "fprintf fl (\<lambda>c a b. b @ [c]) stream m p va b = Some (wrap32 (int (length xs)), b @ xs @ [0])"
proof -
  have "vsnprintf_loop fl (\<lambda>c idx b. b @ [c]) m p va (0, b) = Some (length xs, b @ xs)"
    using vsnprintf_loop_ok[OF assms(1-3), of "\<lambda>c idx b. b @ [c]" "(0, b)"] by (simp add: emit_append)
  then show ?thesis using assms(4) by (simp add: fprintf_def vsnfprintf_def vsnprintf_core_def fprintf_writer_def[abs_def])
qed

section \<open>Properties\<close>

text \<open>
  C23: \<^verbatim>\<open>snprintf\<close> returns on every format whose directives are complete and have their arguments.
  Its result is the number of characters of the whole output; the buffer gets as many of them as
  fit before a terminating zero, and no other byte of memory changes.
\<close>

theorem snprintf_correct:
  assumes "strings_at m str" and "cstring m p cs" and "fmt_run fl str cs va = Some xs" and "a \<noteq> 0" and "n < 2 ^ 64"
  shows "snprintf fl a n m p va b = Some (wrap32 (int (length xs)),
    if n = 0 then b else (\<lambda>q. if a \<le> q \<and> q < a + min (n - 1) (length xs) then xs ! (q - a)
      else if q = a + min (n - 1) (length xs) then 0 else b q))"
  unfolding snprintf_def by (rule snprintf_core_ok[OF assms])

theorem snprintf_correct_witness:
  "snprintf (\<lambda>_ _ _ _ _. []) 50 3 (\<lambda>q. if q = 10 then 37 else if q = 11 then 115 else if 20 \<le> q \<and> q < 24 then 65 else 0) 10 [20] (\<lambda>_. 1) =
    Some (4, \<lambda>q. if 50 \<le> q \<and> q < 52 then 65 else if q = 52 then 0 else 1)"
proof -
  let ?m = "\<lambda>q. if q = 10 then 37 else if q = 11 then 115 else if 20 \<le> q \<and> q < 24 then 65 else 0 :: byte"
  let ?s = "\<lambda>p. if p = 20 then Some [65, 65, 65, 65] else None :: byte list option"
  have "fmt_run (\<lambda>_ _ _ _ _. []) ?s [37, 115] [20] = Some [65, 65, 65, 65]"
    by (simp add: fmt_run.simps lst_directive_def flag_of_def lst_width_def lst_precision_def lst_length_def cur_def is_digit_def
        lst_spec_def str_chars_def has_0 pad_def)
  moreover have "strings_at ?m ?s" by (auto simp: strings_at_def cstring_step cstring_end)
  moreover have "cstring ?m 10 [37, 115]" by (simp add: cstring_step cstring_end)
  moreover have "q - 50 = 0 \<or> q - 50 = 1" if "50 \<le> q" "q < (52 :: nat)" for q using that by linarith
  ultimately show ?thesis
    using snprintf_correct[of ?m ?s 10 "[37, 115]" "\<lambda>_ _ _ _ _. []" "[20]" "[65, 65, 65, 65]" 50 3 "\<lambda>_. 1"]
    by (fastforce simp: wrap32_def fun_eq_iff)
qed

text \<open>
  C24: \<^verbatim>\<open>atoi\<close> reads back what \<^verbatim>\<open>snprintf\<close> prints for \<^verbatim>\<open>%d\<close>, for every \<^verbatim>\<open>int\<close> and every buffer of at
  least twelve bytes.
\<close>

theorem printf_atoi_roundtrip:
  assumes "cstring m p [37, 100]" and "a \<noteq> 0" and "12 \<le> n" and "n < 2 ^ 64"
  shows "\<exists>r b'. snprintf fl a n m p [w] b = Some (r, b') \<and> atoi b' a = Some (int_arg w)"
  by (rule snprintf_atoi[OF assms])

theorem printf_atoi_roundtrip_witness:
  "\<exists>r b'. snprintf (\<lambda>_ _ _ _ _. []) 50 16 (\<lambda>q. if q = 10 then 37 else if q = 11 then 100 else 0) 10 [0xFFFFFFFE] (\<lambda>_. 1) = Some (r, b') \<and> atoi b' 50 = Some (-2)"
  using printf_atoi_roundtrip[of "\<lambda>q. if q = 10 then 37 else if q = 11 then 100 else 0" 10 50 16 "\<lambda>_ _ _ _ _. []" "0xFFFFFFFE" "\<lambda>_. 1"]
  by (simp add: cstring_step cstring_end int_arg_def)

text \<open>
  On a format that ends with a percent sign the zero byte is taken as the specifier: it is
  printed, and the code goes on behind the end of the format.
\<close>

theorem printf_trailing_percent:
  assumes "cstring m p [37]"
  shows "vsnprintf_loop fl out m p va st = vsnprintf_loop fl out m (p + 2) va (emit out st 0)"
proof -
  have "m p = 37" "m (p + 1) = 0" using assms by (simp_all add: cstring_step cstring_end)
  then show ?thesis
    by (subst vsnprintf_loop.simps) (simp add: fmt_flags.simps flag_of_def fmt_width_def fmt_precision_def fmt_length_def fmt_spec_def is_digit_def)
qed

theorem printf_trailing_percent_witness:
  "vsnprintf_loop (\<lambda>_ _ _ _ _. []) (\<lambda>c i b. b @ [c]) (\<lambda>q. if q = 10 then 37 else if q = 12 then 65 else 0) 10 [] (0, []) = Some (2, [0, 65])"
proof -
  let ?m = "\<lambda>q. if q = 10 then 37 else if q = 12 then 65 else 0 :: byte"
  have "cstring ?m 10 [37]" by (simp add: cstring_step cstring_end)
  from printf_trailing_percent[OF this, of "\<lambda>_ _ _ _ _. []" "\<lambda>c i b. b @ [c]" "[]" "(0, [])"] show ?thesis
    by (simp add: vsnprintf_loop.simps emit_def)
qed

end
