(* ===== verification/C_Stdio.thy ===== *)
theory C_Stdio
  imports C_Printf_Spec
begin

text \<open>
  Streams, \<^verbatim>\<open>libc/src/stdio/stdio.c\<close>. The system calls \<open>wr\<close> and \<open>rd\<close>, \<^verbatim>\<open>sysbind_write\<close> and
  \<^verbatim>\<open>sysbind_read\<close>, are arguments that work on the outside world \<open>'w\<close>. The mutex of a stream is
  not modelled: each operation runs alone.
\<close>

section \<open>Streams\<close>

text \<open>\<open>buf\<close> holds the first \<^verbatim>\<open>buf_len\<close> bytes of the buffer; the booleans say which operations are not null.\<close>

record cfile =
  fd :: int
  eof :: bool
  buffered :: bool
  has_buffer :: bool
  buf :: "byte list"
  buf_cap :: nat
  op_close :: bool
  op_read :: bool
  op_write :: bool

type_synonym 'w sys_write = "int \<Rightarrow> byte list \<Rightarrow> 'w \<Rightarrow> int \<times> 'w"
type_synonym 'w sys_read = "int \<Rightarrow> nat \<Rightarrow> 'w \<Rightarrow> int \<times> byte list \<times> 'w"

definition BUFSIZ :: nat where "BUFSIZ = 1024"
definition UNGET :: nat where "UNGET = 8"

definition c_stdout :: cfile where
  "c_stdout = \<lparr>fd = 1, eof = False, buffered = True, has_buffer = True, buf = [], buf_cap = BUFSIZ, op_close = False, op_read = False, op_write = True\<rparr>"

definition new_file :: "int \<Rightarrow> cfile" where
  "new_file n = \<lparr>fd = n, eof = False, buffered = True, has_buffer = True, buf = [], buf_cap = BUFSIZ, op_close = True, op_read = True, op_write = True\<rparr>"

definition O_RDONLY :: int where "O_RDONLY = 0x000"
definition O_WRONLY :: int where "O_WRONLY = 0x001"
definition O_RDWR :: int where "O_RDWR = 0x002"
definition O_CREAT :: int where "O_CREAT = 0x040"
definition O_TRUNC :: int where "O_TRUNC = 0x200"
definition O_APPEND :: int where "O_APPEND = 0x400"

text \<open>The mode is the string it points to, if any.\<close>

definition string_to_mode :: "string option \<Rightarrow> int" where
  "string_to_mode mode =
     (case mode of
        None \<Rightarrow> -1
      | Some s \<Rightarrow>
          if s = ''r'' then O_RDONLY else if s = ''rb'' then O_RDONLY
          else if s = ''w'' then or O_WRONLY (or O_CREAT O_TRUNC) else if s = ''wb'' then or O_WRONLY (or O_CREAT O_TRUNC)
          else if s = ''a'' then or O_WRONLY (or O_CREAT O_APPEND) else if s = ''ab'' then or O_WRONLY (or O_CREAT O_APPEND)
          else if s = ''r+'' then O_RDWR else if s = ''rb+'' then O_RDWR
          else if s = ''w+'' then or O_RDWR (or O_CREAT O_TRUNC) else if s = ''wb+'' then or O_RDWR (or O_CREAT O_TRUNC)
          else if s = ''a+'' then or O_RDWR (or O_CREAT O_APPEND) else if s = ''ab+'' then or O_RDWR (or O_CREAT O_APPEND)
          else -1)"

definition fdopen :: "int \<Rightarrow> string option \<Rightarrow> cfile option" where
  "fdopen n mode = (if string_to_mode mode = -1 then None else Some (new_file n))"

text \<open>\<open>sys_open\<close> is \<^verbatim>\<open>open\<close>, on the path and the mode.\<close>

definition fopen :: "(string \<Rightarrow> int \<Rightarrow> int) \<Rightarrow> string \<Rightarrow> string option \<Rightarrow> cfile option" where
  "fopen sys_open path mode =
     (if string_to_mode mode = -1 then None
      else let n = sys_open path (string_to_mode mode) in if n < 0 then None else fdopen n mode)"

definition fileno :: "cfile option \<Rightarrow> int" where
  "fileno f = (case f of None \<Rightarrow> -1 | Some f \<Rightarrow> fd f)"

section \<open>Writing\<close>

text \<open>The result of the system call is dropped.\<close>

definition stdio_flush_buffer :: "'w sys_write \<Rightarrow> cfile \<times> 'w \<Rightarrow> cfile \<times> 'w" where
  "stdio_flush_buffer wr = (\<lambda>(f, w).
     if buffered f \<and> has_buffer f \<and> buf f \<noteq> [] then (f\<lparr>buf := []\<rparr>, snd (wr (fd f) (buf f) w)) else (f, w))"

definition stdio_put :: "'w sys_write \<Rightarrow> cfile \<times> 'w \<Rightarrow> byte \<Rightarrow> cfile \<times> 'w" where
  "stdio_put wr = (\<lambda>(f, w) c.
     let f = f\<lparr>buf := buf f @ [c]\<rparr>
     in if c = 10 \<or> length (buf f) = buf_cap f then stdio_flush_buffer wr (f, w) else (f, w))"

definition stdio_write :: "'w sys_write \<Rightarrow> byte list \<Rightarrow> cfile \<times> 'w \<Rightarrow> nat \<times> cfile \<times> 'w" where
  "stdio_write wr src = (\<lambda>(f, w).
     if fd f = -1 then (0, f, w)
     else if buffered f \<and> has_buffer f then (length src, foldl (stdio_put wr) (f, w) src)
     else case wr (fd f) src w of (k, w) \<Rightarrow> (if k < 0 then 0 else nat k, f, w))"

text \<open>\<open>src\<close> are the \<^verbatim>\<open>size * nmemb\<close> bytes.\<close>

definition fwrite :: "'w sys_write \<Rightarrow> byte list \<Rightarrow> nat \<Rightarrow> cfile \<times> 'w \<Rightarrow> nat \<times> cfile \<times> 'w" where
  "fwrite wr src sz = (\<lambda>(f, w).
     if op_write f
     then case stdio_write wr src (f, w) of (k, f, w) \<Rightarrow> (if k \<noteq> 0 then k div sz else 0, f, w)
     else (0, f, w))"

definition fflush :: "'w sys_write \<Rightarrow> cfile \<times> 'w \<Rightarrow> cfile \<times> 'w" where
  "fflush wr st = stdio_flush_buffer wr st"

definition fputc :: "'w sys_write \<Rightarrow> int \<Rightarrow> cfile \<times> 'w \<Rightarrow> int \<times> cfile \<times> 'w" where
  "fputc wr c st = (c, snd (fwrite wr [word_of_int c] 1 st))"

definition putchar :: "'w sys_write \<Rightarrow> int \<Rightarrow> cfile \<times> 'w \<Rightarrow> int \<times> cfile \<times> 'w" where
  "putchar wr c st = fputc wr c st"

definition fputs :: "'w sys_write \<Rightarrow> cmem \<Rightarrow> nat \<Rightarrow> cfile \<times> 'w \<Rightarrow> (int \<times> cfile \<times> 'w) option" where
  "fputs wr m s st =
     Option.bind (strlen m s) (\<lambda>len. case fwrite wr (map (\<lambda>i. m (s + i)) [0..<len]) len st of (r, st) \<Rightarrow> Some (0, st))"

definition puts :: "'w sys_write \<Rightarrow> cmem \<Rightarrow> nat \<Rightarrow> cfile \<times> 'w \<Rightarrow> (int \<times> cfile \<times> 'w) option" where
  "puts wr m s st =
     Option.bind (fputs wr m s st) (\<lambda>(r, st).
       if r < 0 then Some (-1, st)
       else case fputc wr 10 st of (c, st) \<Rightarrow> Some (if c < 0 then -1 else 0, st))"

text \<open>\<^verbatim>\<open>fclose\<close>: the operation closes the descriptor; the stream is freed without a flush.\<close>

definition fclose :: "(int \<Rightarrow> 'w \<Rightarrow> 'w) \<Rightarrow> cfile \<times> 'w \<Rightarrow> int \<times> 'w" where
  "fclose close = (\<lambda>(f, w). (0, if op_close f then close (fd f) w else w))"

text \<open>The buffering modes; only the buffer and its size change.\<close>

definition setvbuf :: "bool \<Rightarrow> nat \<Rightarrow> nat \<Rightarrow> cfile \<Rightarrow> cfile" where
  "setvbuf nbf b sz f =
     (if nbf then f\<lparr>buf_cap := 0\<rparr>
      else if b \<noteq> 0 \<and> sz \<ge> UNGET then f\<lparr>buf_cap := sz - UNGET\<rparr>
      else f)"

definition setbuf :: "nat \<Rightarrow> cfile \<Rightarrow> cfile" where
  "setbuf b f = setvbuf (b = 0) b BUFSIZ f"

section \<open>Reading\<close>

definition stdio_read :: "'w sys_read \<Rightarrow> nat \<Rightarrow> cfile \<times> 'w \<Rightarrow> nat \<times> byte list \<times> cfile \<times> 'w" where
  "stdio_read rd sz = (\<lambda>(f, w).
     if fd f = -1 then (0, [], f, w)
     else case rd (fd f) sz w of (k, bs, w) \<Rightarrow> (if k < 0 then 0 else nat k, bs, f, w))"

text \<open>The test \<^verbatim>\<open>k < 0\<close> of \<^verbatim>\<open>_fread\<close> never holds of a \<^verbatim>\<open>size_t\<close>.\<close>

definition fread :: "'w sys_read \<Rightarrow> nat \<Rightarrow> nat \<Rightarrow> cfile \<times> 'w \<Rightarrow> nat \<times> byte list \<times> cfile \<times> 'w" where
  "fread rd sz nmemb = (\<lambda>(f, w).
     if op_read f
     then case stdio_read rd (sz * nmemb) (f, w) of (k, bs, f, w) \<Rightarrow> (if k \<noteq> 0 then k div sz else 0, bs, f, w)
     else (0, [], f, w))"

definition fgetc :: "'w sys_read \<Rightarrow> cfile \<times> 'w \<Rightarrow> int \<times> cfile \<times> 'w" where
  "fgetc rd st =
     (case fread rd 1 1 st of (r, bs, f, w) \<Rightarrow>
        if r = 0 then (-1, f\<lparr>eof := True\<rparr>, w) else (uint (hd bs), f, w))"

definition getchar :: "'w sys_read \<Rightarrow> cfile \<times> 'w \<Rightarrow> int \<times> cfile \<times> 'w" where
  "getchar rd st = fgetc rd st"

partial_function (option) fgets_loop :: "'w sys_read \<Rightarrow> cmem \<Rightarrow> nat \<Rightarrow> nat \<Rightarrow> int \<Rightarrow> cfile \<times> 'w \<Rightarrow>
    (nat option \<times> cmem \<times> cfile \<times> 'w) option" where
  "fgets_loop rd m out s sz st =
     (case fgetc rd st of (c, f, w) \<Rightarrow>
        if c > 0
        then let m = m(s := word_of_int c); s = s + 1; sz = sz - 1
             in if sz = 0 then Some (Some out, m, f, w)
                else let m = m(s := 0)
                     in if c = 10 then Some (Some out, m, f, w) else fgets_loop rd m out s sz (f, w)
        else if c = -1 then Some (if out = s then None else Some out, m, f\<lparr>eof := True\<rparr>, w)
        else Some (None, m, f, w))"

definition fgets :: "'w sys_read \<Rightarrow> cmem \<Rightarrow> nat \<Rightarrow> int \<Rightarrow> cfile \<times> 'w \<Rightarrow> (nat option \<times> cmem \<times> cfile \<times> 'w) option" where
  "fgets rd m s sz st = fgets_loop rd m s s sz st"

text \<open>
  The loop of \<^verbatim>\<open>getdelim\<close>: \<open>line\<close> are the bytes read, \<open>n\<close> the size of the buffer, \<open>ok\<close> whether
  \<^verbatim>\<open>realloc\<close> succeeds.
\<close>

partial_function (option) getdelim_loop :: "'w sys_read \<Rightarrow> (nat \<Rightarrow> bool) \<Rightarrow> int \<Rightarrow> byte list \<Rightarrow> nat \<Rightarrow> cfile \<times> 'w \<Rightarrow>
    (int \<times> byte list \<times> nat \<times> cfile \<times> 'w) option" where
  "getdelim_loop rd ok delim line n st =
     (case fgetc rd st of (c, f, w) \<Rightarrow>
        if c = -1
        then if eof f then Some (if line = [] then -1 else int (length line), line, n, f, w) else Some (-1, line, n, f, w)
        else let line = line @ [word_of_int c]
             in if c = delim then Some (int (length line), line, n, f, w)
                else if length line + 2 \<ge> n
                then if ok (n * 2) then getdelim_loop rd ok delim line (n * 2) (f, w) else Some (-1, line, n, f, w)
                else getdelim_loop rd ok delim line n (f, w))"

definition getdelim :: "'w sys_read \<Rightarrow> (nat \<Rightarrow> bool) \<Rightarrow> bool \<Rightarrow> nat \<Rightarrow> int \<Rightarrow> cfile \<times> 'w \<Rightarrow>
    (int \<times> byte list \<times> nat \<times> cfile \<times> 'w) option" where
  "getdelim rd ok has_line n delim st =
     (if \<not> has_line \<or> n = 0
      then if ok BUFSIZ then getdelim_loop rd ok delim [] BUFSIZ st else Some (-1, [], BUFSIZ, fst st, snd st)
      else getdelim_loop rd ok delim [] n st)"

definition getline :: "'w sys_read \<Rightarrow> (nat \<Rightarrow> bool) \<Rightarrow> bool \<Rightarrow> nat \<Rightarrow> cfile \<times> 'w \<Rightarrow> (int \<times> byte list \<times> nat \<times> cfile \<times> 'w) option" where
  "getline rd ok has_line n st = getdelim rd ok has_line n 10 st"

section \<open>Buffered output\<close>

text \<open>A stream that is open for writing and whose buffer has room for a byte.\<close>

definition stream_ok :: "cfile \<Rightarrow> bool" where
  "stream_ok f \<longleftrightarrow> buffered f \<and> has_buffer f \<and> fd f \<noteq> -1 \<and> op_write f \<and> length (buf f) < buf_cap f"

lemma stdio_put_ok:
  assumes "\<And>n bs w. written (snd (wr n bs w)) = written w @ bs" and "stream_ok f" and "stdio_put wr (f, w) c = (f', w')"
  shows "stream_ok f' \<and> op_close f' = op_close f \<and> fd f' = fd f \<and> written w' @ buf f' = written w @ buf f @ [c]"
  using assms(2,3) unfolding stdio_put_def stdio_flush_buffer_def
  by (auto simp: Let_def stream_ok_def assms(1) split: if_splits)

lemma stdio_puts_ok:
  assumes "\<And>n bs w. written (snd (wr n bs w)) = written w @ bs"
  shows "stream_ok f \<Longrightarrow> foldl (stdio_put wr) (f, w) src = (f', w') \<Longrightarrow>
    stream_ok f' \<and> op_close f' = op_close f \<and> fd f' = fd f \<and> written w' @ buf f' = written w @ buf f @ src"
proof (induction src arbitrary: f w)
  case (Cons c src)
  obtain f1 w1 where 1: "stdio_put wr (f, w) c = (f1, w1)" by fastforce
  note p = stdio_put_ok[OF assms Cons.prems(1) 1]
  then show ?case using Cons.IH[of f1 w1] Cons.prems(2) 1 by simp
qed simp

lemma fwrite_ok:
  assumes "\<And>n bs w. written (snd (wr n bs w)) = written w @ bs" and "stream_ok f" and "fwrite wr src sz (f, w) = (r, f', w')"
  shows "r = length src div sz \<and> stream_ok f' \<and> op_close f' = op_close f \<and> fd f' = fd f \<and> written w' @ buf f' = written w @ buf f @ src"
proof -
  obtain f1 w1 where 1: "foldl (stdio_put wr) (f, w) src = (f1, w1)" by fastforce
  have "fwrite wr src sz (f, w) = (length src div sz, f1, w1)"
    using assms(2) 1 by (simp add: fwrite_def stdio_write_def stream_ok_def)
  then show ?thesis using assms(3) stdio_puts_ok[OF assms(1,2) 1] by simp
qed

lemma fflush_ok:
  assumes "\<And>n bs w. written (snd (wr n bs w)) = written w @ bs" and "stream_ok f" and "fflush wr (f, w) = (f', w')"
  shows "stream_ok f' \<and> buf f' = [] \<and> written w' = written w @ buf f"
  using assms(2,3) by (auto simp: fflush_def stdio_flush_buffer_def stream_ok_def assms(1) split: if_splits)

definition fwrites :: "'w sys_write \<Rightarrow> byte list list \<Rightarrow> cfile \<times> 'w \<Rightarrow> cfile \<times> 'w" where
  "fwrites wr srcs st = foldl (\<lambda>st src. snd (fwrite wr src 1 st)) st srcs"

lemma fwrites_ok:
  assumes "\<And>n bs w. written (snd (wr n bs w)) = written w @ bs"
  shows "stream_ok f \<Longrightarrow> fwrites wr srcs (f, w) = (f', w') \<Longrightarrow> stream_ok f' \<and> written w' @ buf f' = written w @ buf f @ concat srcs"
proof (induction srcs arbitrary: f w)
  case (Cons src srcs)
  obtain r f1 w1 where 1: "fwrite wr src 1 (f, w) = (r, f1, w1)" by (metis prod_cases3)
  note p = fwrite_ok[OF assms Cons.prems(1) 1]
  then show ?case using Cons.IH[of f1 w1] Cons.prems(2) 1 by (simp add: fwrites_def)
qed (simp add: fwrites_def)

text \<open>Without a newline and with room left, writing only fills the buffer.\<close>

lemma stdio_put_quiet:
  "10 \<notin> set src \<Longrightarrow> length (buf f) + length src < buf_cap f \<Longrightarrow> foldl (stdio_put wr) (f, w) src = (f\<lparr>buf := buf f @ src\<rparr>, w)"
proof (induction src arbitrary: f)
  case (Cons c src)
  have "stdio_put wr (f, w) c = (f\<lparr>buf := buf f @ [c]\<rparr>, w)" using Cons.prems by (auto simp: stdio_put_def Let_def)
  then show ?case using Cons.IH[of "f\<lparr>buf := buf f @ [c]\<rparr>"] Cons.prems by simp
qed simp

section \<open>Lines\<close>

text \<open>\<open>inp\<close> are the bytes still to be read; a read of one byte returns the next.\<close>

definition reads_from :: "'w sys_read \<Rightarrow> ('w \<Rightarrow> byte list) \<Rightarrow> bool" where
  "reads_from rd inp \<longleftrightarrow> (\<forall>n w. case inp w of
     [] \<Rightarrow> fst (rd n 1 w) = 0 \<and> inp (snd (snd (rd n 1 w))) = []
   | x # xs \<Rightarrow> \<exists>w'. rd n 1 w = (1, [x], w') \<and> inp w' = xs)"

lemma fgetc_next:
  assumes "reads_from rd inp" and "op_read f" and "fd f \<noteq> -1" and "inp w = x # xs"
  shows "\<exists>w'. fgetc rd (f, w) = (uint x, f, w') \<and> inp w' = xs"
proof -
  obtain w' where "rd (fd f) 1 w = (1, [x], w')" "inp w' = xs"
    using assms(1)[unfolded reads_from_def, rule_format, of "fd f" w] unfolding assms(4) list.case by blast
  then show ?thesis using assms(2,3) by (simp add: fgetc_def fread_def stdio_read_def)
qed

lemma fgetc_end:
  assumes "reads_from rd inp" and "op_read f" and "fd f \<noteq> -1" and "inp w = []"
  shows "\<exists>w'. fgetc rd (f, w) = (-1, f\<lparr>eof := True\<rparr>, w') \<and> inp w' = []"
proof -
  obtain k bs w' where "rd (fd f) 1 w = (k, bs, w')" by (metis prod_cases3)
  moreover have "fst (rd (fd f) 1 w) = 0" "inp (snd (snd (rd (fd f) 1 w))) = []"
    using assms(1)[unfolded reads_from_def, rule_format, of "fd f" w] unfolding assms(4) list.case by blast+
  ultimately show ?thesis using assms(2,3) by (simp add: fgetc_def fread_def stdio_read_def)
qed

lemma getdelim_loop_ok:
  assumes "reads_from rd inp" and "op_read f" and "fd f \<noteq> -1" and "\<And>k. ok k"
  shows "inp w = xs @ x # ys \<Longrightarrow> x \<notin> set xs \<Longrightarrow> length line + 2 \<le> n \<Longrightarrow>
    \<exists>n' w'. getdelim_loop rd ok (uint x) line n (f, w) = Some (int (length line + length xs + 1), line @ xs @ [x], n', f, w') \<and>
      inp w' = ys \<and> length line + length xs + 1 < n'"
proof (induction xs arbitrary: line n w)
  case Nil
  obtain w' where w': "fgetc rd (f, w) = (uint x, f, w')" "inp w' = ys" using fgetc_next[OF assms(1-3)] Nil.prems(1) by fastforce
  have "uint x \<noteq> -1" using uint_ge_0[of x] by linarith
  then show ?case using w' Nil.prems(3) by (subst getdelim_loop.simps) (simp add: Let_def)
next
  case (Cons y xs)
  obtain w1 where w1: "fgetc rd (f, w) = (uint y, f, w1)" "inp w1 = xs @ x # ys" using fgetc_next[OF assms(1-3)] Cons.prems(1) by fastforce
  let ?n = "if length line + 3 \<ge> n then n * 2 else n"
  have "uint y \<noteq> -1" using uint_ge_0[of y] by linarith
  moreover have "uint y \<noteq> uint x" using Cons.prems(2) by (auto simp: word_uint_eq_iff)
  ultimately have "getdelim_loop rd ok (uint x) line n (f, w) = getdelim_loop rd ok (uint x) (line @ [y]) ?n (f, w1)"
    using w1(1) assms(4) by (subst getdelim_loop.simps) (simp add: Let_def)
  moreover have "length (line @ [y]) + 2 \<le> ?n" using Cons.prems(3) by auto
  ultimately show ?case using Cons.IH[OF w1(2), of "line @ [y]" ?n] Cons.prems(2) by auto
qed

section \<open>Properties\<close>



text \<open>
  \<^verbatim>\<open>fclose\<close> does not flush: what was written to a new stream without a newline, and fits its
  buffer, is reported as written and never reaches the system.
\<close>

theorem fclose_drops_output:
  assumes "10 \<notin> set src" and "length src < BUFSIZ" and "n \<noteq> -1" and "\<And>n w. written (close n w) = written w"
    and "fdopen n mode = Some f"
  shows "case fwrite wr src 1 (f, w) of (r, st) \<Rightarrow> r = length src \<and> written (snd (fclose close st)) = written w"
proof -
  have f: "f = new_file n" using assms(5) by (auto simp: fdopen_def split: if_splits)
  have "foldl (stdio_put wr) (f, w) src = (f\<lparr>buf := src\<rparr>, w)"
    using stdio_put_quiet[of src f wr w] assms(1,2) by (simp add: f new_file_def)
  then show ?thesis using assms(3,4) by (simp add: fwrite_def stdio_write_def fclose_def) (simp add: f new_file_def)
qed

theorem fclose_drops_output_witness:
  "case fwrite (\<lambda>n bs w. (int (length bs), w @ bs)) [1, 2] 1 (the (fdopen 3 (Some ''w'')), []) of (r, st) \<Rightarrow> r = length [1, 2 :: byte] \<and> snd (fclose (\<lambda>n w. w) st) = []"
  using fclose_drops_output[where src = "[1, 2]" and n = 3 and written = "\<lambda>w. w" and close = "\<lambda>n w. w" and
    wr = "\<lambda>n bs w. (int (length bs), w @ bs)" and w = "[]" and mode = "Some ''w''" and f = "new_file 3"]
  by (simp add: BUFSIZ_def fdopen_def string_to_mode_def O_WRONLY_def O_CREAT_def O_TRUNC_def)

text \<open>
  \<^verbatim>\<open>getline\<close> returns the line up to and including the newline, whatever its length, leaves
  the rest of the input, and has room for the terminating zero in the buffer.
\<close>

theorem getline_correct:
  assumes "reads_from rd inp" and "op_read f" and "fd f \<noteq> -1" and "\<And>k. ok k" and "has_line \<longrightarrow> n \<noteq> 1"
    and "inp w = xs @ 10 # ys" and "10 \<notin> set xs"
  shows "\<exists>n' w'. getline rd ok has_line n (f, w) = Some (int (length xs + 1), xs @ [10], n', f, w') \<and> inp w' = ys \<and> length xs + 1 < n'"
proof -
  let ?n = "if \<not> has_line \<or> n = 0 then BUFSIZ else n"
  have "length ([] :: byte list) + 2 \<le> ?n" using assms(5) by (auto simp: BUFSIZ_def)
  then have "\<exists>n' w'. getdelim_loop rd ok (uint (10 :: byte)) [] ?n (f, w) =
      Some (int (length ([] :: byte list) + length xs + 1), [] @ xs @ [10], n', f, w') \<and> inp w' = ys \<and> length ([] :: byte list) + length xs + 1 < n'"
    by (intro getdelim_loop_ok[OF assms(1-4) assms(6,7)])
  moreover have "getline rd ok has_line n (f, w) = getdelim_loop rd ok 10 [] ?n (f, w)"
    using assms(4) by (simp add: getline_def getdelim_def)
  ultimately show ?thesis by simp
qed

theorem getline_correct_witness:
  "\<exists>n' w'. getline (\<lambda>n k w. case w of [] \<Rightarrow> (0, [], []) | x # xs \<Rightarrow> (1, [x], xs)) (\<lambda>_. True) False 0 (new_file 3, [7, 10, 8]) = Some (2, [7, 10], n', new_file 3, w') \<and> w' = [8]"
proof -
  let ?rd = "\<lambda>(n :: int) (k :: nat) (w :: byte list). case w of [] \<Rightarrow> (0, [], []) | x # xs \<Rightarrow> (1, [x], xs)"
  have "reads_from ?rd (\<lambda>w. w)" unfolding reads_from_def by (auto split: list.split)
  then have "\<exists>n' w'. getline ?rd (\<lambda>_. True) False 0 (new_file 3, [7, 10, 8]) = Some (int (length [7 :: byte] + 1), [7] @ [10], n', new_file 3, w') \<and>
      w' = [8] \<and> length [7 :: byte] + 1 < n'"
    by (rule getline_correct) (auto simp: new_file_def)
  then show ?thesis by auto
qed

text \<open>
  \<^verbatim>\<open>fprintf\<close> sends the terminating zero to the stream, after the characters of the format.
\<close>

theorem fprintf_zero_byte:
  assumes "strings_at m str" and "cstring m p cs" and "fmt_run fl str cs va = Some xs" and "stream \<noteq> 0"
  shows "fprintf fl (\<lambda>c a b. b @ [c]) stream m p va b = Some (wrap32 (int (length xs)), b @ xs @ [0])"
  by (rule vsnfprintf_zero[OF assms])

theorem fprintf_zero_byte_witness:
  "fprintf (\<lambda>_ _ _ _ _. []) (\<lambda>c a b. b @ [c]) 1 (\<lambda>q. if q = 10 then 65 else 0) 10 [] [] = Some (1, [65, 0])"
  using fprintf_zero_byte[of "\<lambda>q. if q = 10 then 65 else 0" "\<lambda>_. None" 10 "[65]" "\<lambda>_ _ _ _ _. []" "[]" "[65]" 1 "[]"]
  by (simp add: strings_at_def cstring_step cstring_end fmt_run.simps wrap32_def)

end
