(* ===== verification/C_Time.thy ===== *)
theory C_Time
  imports "HOL-Library.Signed_Division" Chariot_Prelude
begin

text \<open>
  Calendar time, \<^verbatim>\<open>libc/src/time.c\<close>. Numbers are unbounded: with a 64-bit \<^verbatim>\<open>time_t\<close> the years of
  all times below \<open>6 * 10 ^ 16\<close> seconds fit an \<^verbatim>\<open>int\<close>. Division truncates towards zero. A failed
  \<^verbatim>\<open>assert\<close> has no result.
\<close>

section \<open>Days\<close>

definition is_leap_year :: "int \<Rightarrow> bool" where
  "is_leap_year year \<longleftrightarrow> year smod 4 = 0 \<and> (year smod 100 \<noteq> 0 \<or> year smod 400 = 0)"

definition days_in_year :: "int \<Rightarrow> int" where
  "days_in_year year = 365 + (if is_leap_year year then 1 else 0)"

definition day_table :: "int list" where
  "day_table = [0, 31, 59, 90, 120, 151, 181, 212, 243, 273, 304, 334]"

definition day_of_year :: "int \<Rightarrow> int \<Rightarrow> int \<Rightarrow> int option" where
  "day_of_year year month day =
     (if month \<ge> 1 \<and> month \<le> 12
      then let d = day_table ! nat (month - 1) + day - 1
           in Some (if is_leap_year year \<and> month \<ge> 3 then d + 1 else d)
      else None)"

definition days_in_month :: "int \<Rightarrow> int \<Rightarrow> int option" where
  "days_in_month year month =
     (if month \<ge> 1 \<and> month \<le> 12
      then Some (if month = 2 then if is_leap_year year then 29 else 28
                 else if month \<in> {1, 3, 5, 7, 8, 10, 12} then 31 else 30)
      else None)"

definition week_table :: "int list" where
  "week_table = [0, 3, 2, 5, 0, 3, 5, 1, 4, 6, 2, 4]"

definition day_of_week :: "int \<Rightarrow> int \<Rightarrow> int \<Rightarrow> int option" where
  "day_of_week year month day =
     (if month \<ge> 1 \<and> month \<le> 12
      then let year = (if month < 3 then year - 1 else year)
           in Some ((year + year sdiv 4 - year sdiv 100 + year sdiv 400 + week_table ! nat (month - 1) + day) smod 7)
      else None)"

function years_up :: "int \<Rightarrow> int \<Rightarrow> int \<Rightarrow> int" where
  "years_up current_year year days =
     (if current_year < year then years_up (current_year + 1) year (days + days_in_year current_year) else days)"
  by auto
termination by (relation "measure (\<lambda>(c, y, d). nat (y - c))") auto

function years_down :: "int \<Rightarrow> int \<Rightarrow> int" where
  "years_down current_year days =
     (if current_year < 1970 then years_down (current_year + 1) (days - days_in_year current_year) else days)"
  by auto
termination by (relation "measure (\<lambda>(c, d). nat (1970 - c))") auto

declare years_up.simps [simp del] years_down.simps [simp del]

definition years_to_days_since_epoch :: "int \<Rightarrow> int" where
  "years_to_days_since_epoch year = years_down year (years_up 1970 year 0)"

section \<open>Broken-down time\<close>

record ctm =
  tm_sec :: int
  tm_min :: int
  tm_hour :: int
  tm_mday :: int
  tm_mon :: int
  tm_year :: int
  tm_wday :: int
  tm_yday :: int
  tm_isdst :: int

definition seconds_per_day :: int where "seconds_per_day = 60 * 60 * 24"

function year_up :: "int \<Rightarrow> int \<Rightarrow> int \<times> int" where
  "year_up t year =
     (if t \<ge> days_in_year year * seconds_per_day then year_up (t - days_in_year year * seconds_per_day) (year + 1)
      else (t, year))"
  by auto
termination by (relation "measure (\<lambda>(t, y). nat t)") (auto simp: days_in_year_def seconds_per_day_def split: if_splits)

function year_down :: "int \<Rightarrow> int \<Rightarrow> int \<times> int" where
  "year_down t year = (if t < 0 then year_down (t + days_in_year (year - 1) * seconds_per_day) (year - 1) else (t, year))"
  by auto
termination by (relation "measure (\<lambda>(t, y). nat (- t))") (auto simp: days_in_year_def seconds_per_day_def split: if_splits)

declare year_up.simps [simp del] year_down.simps [simp del]

partial_function (option) month_scan :: "int \<Rightarrow> int \<Rightarrow> int \<Rightarrow> (int \<times> int) option" where
  "month_scan year month days =
     (if month < 12
      then Option.bind (days_in_month year month) (\<lambda>n.
             if days \<ge> n then month_scan year (month + 1) (days - n) else Some (month, days))
      else Some (month, days))"

definition time_to_tm :: "ctm \<Rightarrow> int \<Rightarrow> ctm option" where
  "time_to_tm tm t =
     (case year_up t 1970 of (t, year) \<Rightarrow>
      case year_down t year of (t, year) \<Rightarrow>
        if t \<ge> 0
        then let days = t sdiv seconds_per_day;
                 remaining = t smod seconds_per_day;
                 tm = tm\<lparr>tm_year := year - 1900, tm_yday := days, tm_sec := remaining smod 60\<rparr>;
                 remaining = remaining sdiv 60;
                 tm = tm\<lparr>tm_min := remaining smod 60, tm_hour := remaining sdiv 60\<rparr>
             in Option.bind (month_scan year 1 days) (\<lambda>(month, days).
                  let tm = tm\<lparr>tm_mday := days + 1\<rparr>
                  in Option.bind (day_of_week year month (tm_mday tm)) (\<lambda>wday.
                       Some (tm\<lparr>tm_wday := wday, tm_mon := month - 1\<rparr>)))
        else None)"

text \<open>The time stamp and the normalised broken-down time.\<close>

definition tm_to_time :: "ctm \<Rightarrow> int \<Rightarrow> (int \<times> ctm) option" where
  "tm_to_time tm adjust =
     (let tm = tm\<lparr>tm_year := tm_year tm + tm_mon tm sdiv 12, tm_mon := tm_mon tm smod 12\<rparr>;
          tm = (if tm_mon tm < 0 then tm\<lparr>tm_year := tm_year tm - 1, tm_mon := tm_mon tm + 12\<rparr> else tm)
      in Option.bind (day_of_year (1900 + tm_year tm) (tm_mon tm + 1) (tm_mday tm)) (\<lambda>yday.
           let tm = tm\<lparr>tm_yday := yday\<rparr>;
               days = years_to_days_since_epoch (1900 + tm_year tm) + tm_yday tm;
               timestamp = ((days * 24 + tm_hour tm) * 60 + tm_min tm) * 60 + tm_sec tm + adjust
           in Option.bind (time_to_tm tm timestamp) (\<lambda>tm. Some (timestamp, tm))))"

definition mktime :: "ctm \<Rightarrow> (int \<times> ctm) option" where
  "mktime tm = tm_to_time tm 0"

definition gmtime_r :: "int option \<Rightarrow> ctm \<Rightarrow> ctm option option" where
  "gmtime_r t tm = (case t of None \<Rightarrow> Some None | Some t \<Rightarrow> map_option Some (time_to_tm tm t))"

definition gmtime :: "int option \<Rightarrow> ctm \<Rightarrow> ctm option option" where
  "gmtime t tm_buf = gmtime_r t tm_buf"

section \<open>Clocks\<close>

text \<open>The microseconds from the system call; the results are nanoseconds or microseconds, and seconds.\<close>

definition clock_gettime :: "int \<Rightarrow> int \<times> int" where
  "clock_gettime us = (us * 1000, us sdiv 1000 sdiv 1000)"

definition gettimeofday :: "nat \<Rightarrow> nat \<times> nat" where
  "gettimeofday usec = (usec div 1000000, usec mod 1000000)"

definition clock :: "nat \<Rightarrow> nat" where
  "clock usec = usec div 1000"

section \<open>The calendar\<close>

text \<open>The leap days before a year and the days from the epoch to its first day, counted by division.\<close>

definition leap_days :: "int \<Rightarrow> int" where
  "leap_days y = y div 4 - y div 100 + y div 400"

definition year_start :: "int \<Rightarrow> int" where
  "year_start y = 365 * (y - 1970) + leap_days (y - 1) - 477"

lemma smod_zero_iff: "b > 0 \<Longrightarrow> (a :: int) smod b = 0 \<longleftrightarrow> b dvd a"
  by (auto simp: signed_modulo_int_def sgn_if dvd_eq_mod_eq_0 [symmetric])

lemma is_leap_year_iff: "is_leap_year y \<longleftrightarrow> 4 dvd y \<and> (\<not> 100 dvd y \<or> 400 dvd y)"
  by (simp add: is_leap_year_def smod_zero_iff)

lemma div_step:
  assumes "n > 0"
  shows "(y :: int) div n = (y - 1) div n + (if n dvd y then 1 else 0)"
proof (cases "n dvd y")
  case True
  then obtain k where y: "y = n * k" by auto
  have "(n * k - 1) div n = k - 1"
    using assms by (intro int_div_pos_eq [where r = "n - 1"]) (simp_all add: algebra_simps)
  then show ?thesis using True assms y by simp
next
  case False
  then have "y mod n \<noteq> 0" by (simp add: dvd_eq_mod_eq_0)
  moreover have "0 \<le> y mod n" "y mod n < n" using assms by simp_all
  ultimately have r: "1 \<le> y mod n" by linarith
  have "(y - 1) div n = y div n"
    using assms r \<open>y mod n < n\<close>
    by (intro int_div_pos_eq [where r = "y mod n - 1"]) simp_all
  then show ?thesis using False by simp
qed

lemma leap_days_step: "leap_days y = leap_days (y - 1) + (if is_leap_year y then 1 else 0)"
proof -
  have "100 dvd y \<Longrightarrow> 4 dvd y" "400 dvd y \<Longrightarrow> 100 dvd y"
    by (rule dvd_trans, simp_all)+
  note dvds = this
  define a b c a' b' c' where "a = y div 4" and "b = y div 100" and "c = y div 400"
    and "a' = (y - 1) div 4" and "b' = (y - 1) div 100" and "c' = (y - 1) div 400"
  note quotients = this
  have "a = a' + (if 4 dvd y then 1 else 0)" "b = b' + (if 100 dvd y then 1 else 0)"
    "c = c' + (if 400 dvd y then 1 else 0)"
    unfolding quotients by (rule div_step; simp)+
  then have "a - b + c = a' - b' + c' + (if is_leap_year y then 1 else 0)"
    unfolding is_leap_year_iff using dvds by (cases "4 dvd y"; cases "100 dvd y"; cases "400 dvd y") simp_all
  then show ?thesis unfolding leap_days_def quotients .
qed

lemma year_start_Suc: "year_start (y + 1) = year_start y + days_in_year y"
  using leap_days_step [of y] by (simp add: year_start_def days_in_year_def algebra_simps)

lemma year_start_pred: "year_start y = year_start (y - 1) + days_in_year (y - 1)"
  using year_start_Suc [of "y - 1"] by simp

lemma year_start_epoch [simp]: "year_start 1970 = 0"
  by (simp add: year_start_def leap_days_def)

lemma days_in_year_bounds: "365 \<le> days_in_year y" "days_in_year y \<le> 366"
  by (auto simp: days_in_year_def)

lemma years_up_eq: "c \<le> y \<Longrightarrow> years_up c y d = d + year_start y - year_start c"
proof (induction c y d rule: years_up.induct)
  case (1 c y d)
  show ?case using 1 by (cases "c < y") (simp_all add: years_up.simps [of c y d] years_up.simps [of y y d] year_start_Suc)
qed

lemma years_down_eq: "c \<le> 1970 \<Longrightarrow> years_down c d = d + year_start c"
proof (induction c d rule: years_down.induct)
  case (1 c d)
  show ?case using 1 by (cases "c < 1970") (simp_all add: years_down.simps [of c d] years_down.simps [of 1970 d] year_start_Suc)
qed

lemma years_to_days_eq: "years_to_days_since_epoch y = year_start y"
proof (cases "y \<le> 1970")
  case True
  then have "years_up 1970 y 0 = 0" by (subst years_up.simps) simp
  then show ?thesis using True by (simp add: years_to_days_since_epoch_def years_down_eq)
next
  case False
  then show ?thesis
    by (subst years_to_days_since_epoch_def, subst years_down.simps) (simp add: years_up_eq)
qed

lemma year_up_eq:
  assumes "year_up t y = (t', y')"
  shows "t' + year_start y' * seconds_per_day = t + year_start y * seconds_per_day
         \<and> t' < days_in_year y' * seconds_per_day \<and> (t \<ge> 0 \<longrightarrow> t' \<ge> 0) \<and> (t < 0 \<longrightarrow> t' = t \<and> y' = y)"
  using assms
proof (induction t y arbitrary: t' y' rule: year_up.induct)
  case (1 t y)
  have pos: "days_in_year y * seconds_per_day > 0"
    using days_in_year_bounds [of y] by (simp add: seconds_per_day_def)
  show ?case
  proof (cases "t \<ge> days_in_year y * seconds_per_day")
    case True
    have "year_up (t - days_in_year y * seconds_per_day) (y + 1) = (t', y')"
      using 1(2) True by (subst (asm) year_up.simps) simp
    from 1(1) [OF True this] show ?thesis
      using True pos by (simp add: year_start_Suc distrib_right)
  next
    case False
    then have "t' = t \<and> y' = y" using 1(2) by (subst (asm) year_up.simps) simp
    then show ?thesis using False by auto
  qed
qed

lemma year_down_eq:
  assumes "year_down t y = (t', y')" and "t < days_in_year y * seconds_per_day"
  shows "t' + year_start y' * seconds_per_day = t + year_start y * seconds_per_day
         \<and> 0 \<le> t' \<and> t' < days_in_year y' * seconds_per_day"
  using assms
proof (induction t y arbitrary: t' y' rule: year_down.induct)
  case (1 t y)
  show ?case
  proof (cases "t < 0")
    case True
    have "year_down (t + days_in_year (y - 1) * seconds_per_day) (y - 1) = (t', y')"
      using 1(2) True by (subst (asm) year_down.simps) simp
    from 1(1) [OF True this] show ?thesis
      using True year_start_pred [of y] by (simp add: distrib_right)
  next
    case False
    then have "t' = t \<and> y' = y" using 1(2) by (subst (asm) year_down.simps) simp
    then show ?thesis using False 1(3) by auto
  qed
qed

definition month_start :: "int \<Rightarrow> int \<Rightarrow> int" where
  "month_start year month = day_table ! nat (month - 1) + (if is_leap_year year \<and> month \<ge> 3 then 1 else 0)"

lemma month_cases:
  assumes "1 \<le> (m :: int)" "m \<le> 12"
  shows "m \<in> {1, 2, 3, 4, 5, 6, 7, 8, 9, 10, 11, 12}"
proof -
  have "m = 1 \<or> m = 2 \<or> m = 3 \<or> m = 4 \<or> m = 5 \<or> m = 6 \<or> m = 7 \<or> m = 8 \<or> m = 9 \<or> m = 10 \<or> m = 11 \<or> m = 12"
    using assms by presburger
  then show ?thesis by simp
qed

lemma day_of_year_eq:
  "1 \<le> m \<Longrightarrow> m \<le> 12 \<Longrightarrow> day_of_year y m d = Some (month_start y m + d - 1)"
  by (simp add: day_of_year_def month_start_def Let_def)

lemma month_start_first [simp]: "month_start y 1 = 0"
  by (simp add: month_start_def day_table_def)

lemma month_start_Suc:
  assumes "1 \<le> m" "m < 12" "days_in_month y m = Some n"
  shows "month_start y (m + 1) = month_start y m + n"
proof -
  have "m \<in> {1, 2, 3, 4, 5, 6, 7, 8, 9, 10, 11, 12}" using assms by (intro month_cases) simp_all
  then show ?thesis using assms(2, 3)
    by (elim insertE emptyE) (auto simp: month_start_def days_in_month_def day_table_def)
qed

lemma month_start_last: "month_start y 12 + 31 = days_in_year y"
  by (simp add: month_start_def day_table_def days_in_year_def)

lemma days_in_month_some: "1 \<le> m \<Longrightarrow> m \<le> 12 \<Longrightarrow> \<exists>n. days_in_month y m = Some n \<and> 28 \<le> n \<and> n \<le> 31"
  by (auto simp: days_in_month_def)

lemma month_scan_eq:
  assumes "1 \<le> m" "m \<le> 12" "0 \<le> d" "month_start y m + d < days_in_year y"
  shows "\<exists>m' d' n. month_scan y m d = Some (m', d') \<and> 1 \<le> m' \<and> m' \<le> 12 \<and> 0 \<le> d'
           \<and> month_start y m' + d' = month_start y m + d \<and> days_in_month y m' = Some n \<and> d' < n"
  using assms
proof (induction "nat (12 - m)" arbitrary: m d)
  case 0
  then have m: "m = 12" by simp
  have "month_scan y 12 d = Some (12, d)" by (simp add: month_scan.simps)
  moreover have "days_in_month y 12 = Some 31" by (simp add: days_in_month_def)
  ultimately show ?case using 0 m month_start_last [of y] by auto
next
  case (Suc k)
  then have m: "m < 12" by simp
  obtain n where n: "days_in_month y m = Some n" using days_in_month_some Suc.prems by blast
  show ?case
  proof (cases "d \<ge> n")
    case True
    have "k = nat (12 - (m + 1))" using Suc(2) by simp
    from Suc(1) [OF this, of "d - n"] show ?thesis
      using Suc.prems m True month_start_Suc [OF Suc.prems(1) m n] n
      by (simp add: month_scan.simps [of y m d])
  next
    case False
    then show ?thesis using Suc.prems n m by (simp add: month_scan.simps [of y m d])
  qed
qed

text \<open>The day of the week, from the number of days since the epoch, a Thursday.\<close>

lemma mod_7I: "a = b + 7 * k \<Longrightarrow> a mod 7 = (b :: int) mod 7"
  by simp

lemma week_table_cong:
  assumes "1 \<le> m" "m \<le> 12"
  shows "\<exists>k. day_table ! nat (m - 1) = week_table ! nat (m - 1) + (if m < 3 then 0 else 1) + 7 * k"
proof -
  have "7 dvd day_table ! nat (m - 1) - week_table ! nat (m - 1) - (if m < 3 then 0 else 1)"
    using month_cases [OF assms] by (elim insertE emptyE) (simp_all add: day_table_def week_table_def)
  then obtain k where "day_table ! nat (m - 1) - week_table ! nat (m - 1) - (if m < 3 then 0 else 1) = 7 * k" ..
  then show ?thesis by (intro exI [of _ k]) linarith
qed

lemma day_of_week_eq:
  assumes "1 \<le> y" "1 \<le> m" "m \<le> 12" "1 \<le> d"
  shows "day_of_week y m d = Some ((4 + year_start y + (month_start y m + d - 1)) mod 7)"
proof -
  define z where "z = (if m < 3 then y - 1 else y)"
  have z: "z \<ge> 0" using assms by (simp add: z_def)
  have w: "0 \<le> week_table ! nat (m - 1)"
    using month_cases [OF assms(2, 3)] by (elim insertE emptyE) (simp_all add: week_table_def)
  have lp: "0 \<le> z + leap_days z"
    unfolding leap_days_def using z div_le_dividend by (simp add: zdiv_mono2)
  obtain k where k: "day_table ! nat (m - 1) = week_table ! nat (m - 1) + (if m < 3 then 0 else 1) + 7 * k"
    using week_table_cong assms by blast
  have ld: "leap_days (y - 1) + (if is_leap_year y \<and> m \<ge> 3 then 1 else 0) = leap_days z"
    using leap_days_step [of y] by (auto simp: z_def)
  have "4 + year_start y + (month_start y m + d - 1)
        = z + leap_days z + week_table ! nat (m - 1) + d + 7 * (k + 52 * y - 102789)"
    unfolding year_start_def month_start_def k ld [symmetric] by (auto simp: z_def)
  from mod_7I [OF this]
  have "(z + leap_days z + week_table ! nat (m - 1) + d) mod 7 = (4 + year_start y + (month_start y m + d - 1)) mod 7"
    by simp
  moreover have "(z + leap_days z + week_table ! nat (m - 1) + d) smod 7 = (z + leap_days z + week_table ! nat (m - 1) + d) mod 7"
    using lp w assms(4) by (intro smod_mod_positive) simp_all
  moreover have "z sdiv 4 = z div 4" "z sdiv 100 = z div 100" "z sdiv 400 = z div 400"
    using z by (simp_all add: signed_divide_int_def sgn_if)
  ultimately show ?thesis
    using assms(2, 3) by (simp add: day_of_week_def Let_def leap_days_def z_def [symmetric] algebra_simps)
qed

section \<open>Broken-down time is the calendar date\<close>

text \<open>A normalised broken-down time, and the seconds since the epoch that it stands for.\<close>

definition tm_valid :: "ctm \<Rightarrow> bool" where
  "tm_valid tm \<longleftrightarrow>
     0 \<le> tm_sec tm \<and> tm_sec tm < 60 \<and> 0 \<le> tm_min tm \<and> tm_min tm < 60 \<and> 0 \<le> tm_hour tm \<and> tm_hour tm < 24
     \<and> 0 \<le> tm_mon tm \<and> tm_mon tm < 12 \<and> 1 \<le> tm_mday tm
     \<and> (case days_in_month (1900 + tm_year tm) (tm_mon tm + 1) of None \<Rightarrow> False | Some n \<Rightarrow> tm_mday tm \<le> n)
     \<and> day_of_year (1900 + tm_year tm) (tm_mon tm + 1) (tm_mday tm) = Some (tm_yday tm)"

definition tm_seconds :: "ctm \<Rightarrow> int" where
  "tm_seconds tm =
     (((year_start (1900 + tm_year tm) + tm_yday tm) * 24 + tm_hour tm) * 60 + tm_min tm) * 60 + tm_sec tm"

lemma sdiv_nonneg: "0 \<le> a \<Longrightarrow> 0 < b \<Longrightarrow> (a :: int) sdiv b = a div b"
  by (simp add: signed_divide_int_def sgn_if)

lemma smod_nonneg: "0 \<le> a \<Longrightarrow> 0 < b \<Longrightarrow> (a :: int) smod b = a mod b"
  by (simp add: smod_mod_positive)

lemma clock_split:
  assumes "0 \<le> (t :: int)" "t < n * 86400"
  shows "t = ((t div 86400 * 24 + t mod 86400 div 60 div 60) * 60 + t mod 86400 div 60 mod 60) * 60 + t mod 86400 mod 60"
    and "t mod 86400 div 60 div 60 < 24" "0 \<le> t mod 86400 div 60 div 60" "t div 86400 < n" "0 \<le> t div 86400"
proof -
  define q r where "q = t div 86400" and "r = t mod 86400"
  have t: "t = q * 86400 + r" by (simp add: q_def r_def)
  have r: "0 \<le> r" "r < 86400" by (simp_all add: r_def)
  define s where "s = r div 60"
  have s: "r = s * 60 + r mod 60" "s = s div 60 * 60 + s mod 60" by (simp_all add: s_def)
  have b: "0 \<le> s" "s < 1440" using r by (simp_all add: s_def div_less_iff_less_mult pos_imp_zdiv_nonneg_iff)
  show "t mod 86400 div 60 div 60 < 24" "0 \<le> t mod 86400 div 60 div 60"
    using b unfolding r_def [symmetric] s_def [symmetric] by (simp_all add: div_less_iff_less_mult pos_imp_zdiv_nonneg_iff)
  show "t = ((t div 86400 * 24 + t mod 86400 div 60 div 60) * 60 + t mod 86400 div 60 mod 60) * 60 + t mod 86400 mod 60"
    unfolding r_def [symmetric] q_def [symmetric] s_def [symmetric] using t s by simp
  show "t div 86400 < n" "0 \<le> t div 86400"
    using assms by (simp_all add: div_less_iff_less_mult pos_imp_zdiv_nonneg_iff)
qed

lemma time_to_tm_run:
  fixes tm :: ctm
  obtains y s m d n where
    "s + year_start y * 86400 = t" "0 \<le> s" "s < days_in_year y * 86400"
    "1 \<le> m" "m \<le> 12" "0 \<le> d" "month_start y m + d = s div 86400"
    "days_in_month y m = Some n" "d < n"
    "time_to_tm tm t =
      Option.bind (day_of_week y m (d + 1)) (\<lambda>wday.
        Some (tm\<lparr>tm_year := y - 1900, tm_yday := s div 86400, tm_sec := s mod 86400 mod 60,
               tm_min := s mod 86400 div 60 mod 60, tm_hour := s mod 86400 div 60 div 60,
               tm_mday := d + 1, tm_wday := wday, tm_mon := m - 1\<rparr>))"
proof -
  obtain t1 y1 where u: "year_up t 1970 = (t1, y1)" by fastforce
  obtain s y where dn: "year_down t1 y1 = (s, y)" by fastforce
  have s: "s + year_start y * 86400 = t" "0 \<le> s" "s < days_in_year y * 86400"
    using year_up_eq [OF u] year_down_eq [OF dn] by (simp_all add: seconds_per_day_def)
  have "month_start y 1 + s div 86400 < days_in_year y" "0 \<le> s div 86400"
    using clock_split(4, 5) [OF s(2, 3)] by simp_all
  then obtain m d n where m: "month_scan y 1 (s div 86400) = Some (m, d)" "1 \<le> m" "m \<le> 12" "0 \<le> d"
      "month_start y m + d = s div 86400" "days_in_month y m = Some n" "d < n"
    using month_scan_eq [of 1 "s div 86400" y] by auto
  have "0 \<le> s mod 86400" "0 \<le> s mod 86400 div 60" by (simp_all add: pos_imp_zdiv_nonneg_iff)
  then have "time_to_tm tm t =
      Option.bind (day_of_week y m (d + 1)) (\<lambda>wday.
        Some (tm\<lparr>tm_year := y - 1900, tm_yday := s div 86400, tm_sec := s mod 86400 mod 60,
               tm_min := s mod 86400 div 60 mod 60, tm_hour := s mod 86400 div 60 div 60,
               tm_mday := d + 1, tm_wday := wday, tm_mon := m - 1\<rparr>))"
    using s(2) by (simp add: time_to_tm_def u dn seconds_per_day_def sdiv_nonneg smod_nonneg Let_def m(1))
  then show thesis using that s m(2-7) by blast
qed

lemma year_start_mono:
  assumes "a \<le> b"
  shows "year_start a \<le> year_start b"
  using assms
proof (induction b rule: int_ge_induct)
  case (step i)
  then show ?case using days_in_year_bounds(1) [of i] by (simp add: year_start_Suc)
qed simp

lemma time_to_tm_valid:
  "\<exists>r. time_to_tm tm t = Some r \<and> tm_valid r \<and> tm_seconds r = t \<and> tm_isdst r = tm_isdst tm
       \<and> (year_start 1 * 86400 \<le> t \<longrightarrow> tm_wday r = (4 + t div 86400) mod 7)"
proof (rule time_to_tm_run [of t tm])
  fix y s m d n
  assume s: "s + year_start y * 86400 = t" "0 \<le> s" "s < days_in_year y * 86400"
    and m: "1 \<le> m" "m \<le> 12" "0 \<le> d" "month_start y m + d = s div 86400" "days_in_month y m = Some n" "d < n"
    and run: "time_to_tm tm t =
      Option.bind (day_of_week y m (d + 1)) (\<lambda>wday.
        Some (tm\<lparr>tm_year := y - 1900, tm_yday := s div 86400, tm_sec := s mod 86400 mod 60,
               tm_min := s mod 86400 div 60 mod 60, tm_hour := s mod 86400 div 60 div 60,
               tm_mday := d + 1, tm_wday := wday, tm_mon := m - 1\<rparr>))"
  obtain w where w: "day_of_week y m (d + 1) = Some w" using m by (auto simp: day_of_week_def Let_def)
  have wd: "w = (4 + t div 86400) mod 7" if "year_start 1 * 86400 \<le> t"
  proof -
    have "y \<ge> 1"
    proof (rule ccontr)
      assume "\<not> y \<ge> 1"
      then have "year_start (y + 1) \<le> year_start 1" by (intro year_start_mono) simp
      then show False using that s(1, 3) by (simp add: year_start_Suc)
    qed
    then have "Some w = Some ((4 + year_start y + (month_start y m + (d + 1) - 1)) mod 7)"
      unfolding w [symmetric] using m(1-3) by (intro day_of_week_eq) simp_all
    then have "w = (4 + year_start y + (month_start y m + (d + 1) - 1)) mod 7" by (rule option.inject [THEN iffD1])
    also have "t div 86400 = s div 86400 + year_start y" unfolding s(1) [symmetric] by simp
    then have "4 + year_start y + (month_start y m + (d + 1) - 1) = 4 + t div 86400"
      unfolding m(4) [symmetric] by simp
    finally show ?thesis .
  qed
  define r where "r = tm\<lparr>tm_year := y - 1900, tm_yday := s div 86400, tm_sec := s mod 86400 mod 60,
               tm_min := s mod 86400 div 60 mod 60, tm_hour := s mod 86400 div 60 div 60,
               tm_mday := d + 1, tm_wday := w, tm_mon := m - 1\<rparr>"
  have fields: "tm_year r = y - 1900" "tm_yday r = s div 86400" "tm_sec r = s mod 86400 mod 60"
    "tm_min r = s mod 86400 div 60 mod 60" "tm_hour r = s mod 86400 div 60 div 60"
    "tm_mday r = d + 1" "tm_wday r = w" "tm_mon r = m - 1" "tm_isdst r = tm_isdst tm"
    by (simp_all add: r_def)
  have "tm_valid r"
    using m clock_split(2, 3) [OF s(2, 3)] unfolding tm_valid_def fields
    by (simp add: day_of_year_eq)
  moreover have "tm_seconds r = t"
  proof -
    define q h mi se where "q = s div 86400" and "h = s mod 86400 div 60 div 60"
      and "mi = s mod 86400 div 60 mod 60" and "se = s mod 86400 mod 60"
    note clock = this
    have "s = ((q * 24 + h) * 60 + mi) * 60 + se"
      unfolding clock by (rule clock_split(1) [OF s(2, 3)])
    then show ?thesis unfolding tm_seconds_def fields clock [symmetric] using s(1) by simp
  qed
  moreover have "time_to_tm tm t = Some r" unfolding run w r_def by simp
  ultimately show ?thesis using wd unfolding fields(7) [symmetric] by (intro exI [of _ r] conjI impI fields(9))
qed

lemma time_to_tm_same:
  "tm_isdst tm = tm_isdst tm' \<Longrightarrow> time_to_tm tm t = time_to_tm tm' t"
  by (cases tm; cases tm') (simp add: time_to_tm_def Let_def split: prod.splits)

lemma month_normalise:
  "(if (m :: int) smod 12 < 0 then (y - 1 + m sdiv 12, m smod 12 + 12) else (y + m sdiv 12, m smod 12))
   = (y + m div 12, m mod 12)"
proof -
  have a: "m = m sdiv 12 * 12 + m smod 12" by (simp add: sdiv_mult_smod_eq)
  have "- 12 < m smod 12" "m smod 12 < 12" using smod_int_compares [of m 12] by (auto simp: smod_int_alt_def sgn_if)
  then have "m div 12 = (if m smod 12 < 0 then m sdiv 12 - 1 else m sdiv 12)"
    and "m mod 12 = (if m smod 12 < 0 then m smod 12 + 12 else m smod 12)"
    using a int_div_pos_eq [of m 12 "m sdiv 12 - 1" "m smod 12 + 12"] int_div_pos_eq [of m 12 "m sdiv 12" "m smod 12"]
      int_mod_pos_eq [of m 12 "m sdiv 12 - 1" "m smod 12 + 12"] int_mod_pos_eq [of m 12 "m sdiv 12" "m smod 12"]
    by (auto split: if_splits)
  then show ?thesis by simp
qed

text \<open>The seconds that an arbitrary broken-down time stands for, with months counted over years.\<close>

definition tm_normal_seconds :: "ctm \<Rightarrow> int" where
  "tm_normal_seconds tm =
     (let year = 1900 + tm_year tm + tm_mon tm div 12; month = tm_mon tm mod 12 + 1
      in (((year_start year + month_start year month + tm_mday tm - 1) * 24 + tm_hour tm) * 60 + tm_min tm) * 60
         + tm_sec tm)"

lemma tm_to_time_eq:
  "tm_to_time tm adjust =
     map_option (\<lambda>r. (tm_normal_seconds tm + adjust, r)) (time_to_tm tm (tm_normal_seconds tm + adjust))"
proof -
  define y m where "y = tm_year tm + tm_mon tm div 12" and "m = tm_mon tm mod 12"
  define tm0 where "tm0 = tm\<lparr>tm_year := tm_year tm + tm_mon tm sdiv 12, tm_mon := tm_mon tm smod 12\<rparr>"
  define tm1 where "tm1 = (if tm_mon tm0 < 0 then tm0\<lparr>tm_year := tm_year tm0 - 1, tm_mon := tm_mon tm0 + 12\<rparr> else tm0)"
  have tm1: "tm1 = tm\<lparr>tm_year := y, tm_mon := m\<rparr>"
    using month_normalise [of "tm_mon tm" "tm_year tm"]
    by (auto simp: tm1_def tm0_def y_def m_def split: if_splits)
  have m: "1 \<le> m + 1" "m + 1 \<le> 12" by (simp_all add: m_def)
  define s where "s = tm_normal_seconds tm + adjust"
  have "time_to_tm (tm1\<lparr>tm_yday := x\<rparr>) s = time_to_tm tm s" for x
    by (rule time_to_tm_same) (simp add: tm1)
  note same = this
  have yday: "day_of_year (1900 + tm_year tm1) (tm_mon tm1 + 1) (tm_mday tm1)
              = Some (month_start (1900 + y) (m + 1) + tm_mday tm - 1)"
    using day_of_year_eq [OF m] by (simp add: tm1)
  have fields: "tm_year (tm1\<lparr>tm_yday := x\<rparr>) = y" "tm_hour (tm1\<lparr>tm_yday := x\<rparr>) = tm_hour tm"
    "tm_min (tm1\<lparr>tm_yday := x\<rparr>) = tm_min tm" "tm_sec (tm1\<lparr>tm_yday := x\<rparr>) = tm_sec tm"
    "tm_yday (tm1\<lparr>tm_yday := x\<rparr>) = x" for x
    by (simp_all add: tm1)
  have total: "(((year_start (1900 + y) + (month_start (1900 + y) (m + 1) + tm_mday tm - 1)) * 24 + tm_hour tm) * 60
          + tm_min tm) * 60 + tm_sec tm + adjust = s"
    by (simp add: s_def tm_normal_seconds_def Let_def y_def m_def algebra_simps)
  show ?thesis
    unfolding tm_to_time_def tm0_def [symmetric] tm1_def [symmetric] s_def [symmetric] Let_def
    unfolding yday bind.bind_lunit years_to_days_eq fields total same
    by (cases "time_to_tm tm s") simp_all
qed

lemma tm_valid_normal: "tm_valid tm \<Longrightarrow> tm_normal_seconds tm = tm_seconds tm"
  using day_of_year_eq [of "tm_mon tm + 1" "1900 + tm_year tm" "tm_mday tm"]
  by (auto simp: tm_valid_def tm_normal_seconds_def tm_seconds_def Let_def)

section \<open>Properties\<close>



text \<open>
  \<^verbatim>\<open>mktime\<close> takes fields out of their ranges, negative ones included: the result counts months
  over years and everything below by its length, and the structure is normalised to the same time.
\<close>

theorem mktime_correct:
  "\<exists>r. mktime tm = Some (tm_normal_seconds tm, r) \<and> tm_valid r \<and> tm_seconds r = tm_normal_seconds tm"
  using time_to_tm_valid [of tm "tm_normal_seconds tm"] by (auto simp: mktime_def tm_to_time_eq)


text \<open>
  \<^verbatim>\<open>clock_gettime\<close> stores all nanoseconds since boot in \<^verbatim>\<open>tv_nsec\<close>, not those of the current
  second: from one second on the field is out of its range.
\<close>

theorem clock_gettime_not_normalised:
  "us \<ge> 1000000 \<Longrightarrow> fst (clock_gettime us) \<ge> 1000000000 \<and> snd (clock_gettime us) = us div 1000000"
  by (simp add: clock_gettime_def sdiv_nonneg zdiv_zmult2_eq)

theorem clock_gettime_not_normalised_witness:
  "fst (clock_gettime 2500000) \<ge> 1000000000 \<and> snd (clock_gettime 2500000) = 2"
  using clock_gettime_not_normalised [of 2500000] by simp

end
