(* ===== verification/Thread.thy ===== *)
theory Thread
  imports List_Head
begin

text \<open>
  Threads, \<^verbatim>\<open>include/chariot/sched.h\<close>, as far as scheduling, waiting and signals read and write
  them, and the run queue \<^verbatim>\<open>mlfq::queue\<close> of \<^verbatim>\<open>kernel/sched/core.cpp\<close>: a doubly linked list through
  the threads' \<^verbatim>\<open>sched.next\<close> and \<^verbatim>\<open>sched.prev\<close>. Threads are named by their addresses and live in
  one store. A failed \<^verbatim>\<open>assert\<close>, and a loop that does not end, has no result.
\<close>

section \<open>Threads\<close>

definition PS_EMBRYO :: int where "PS_EMBRYO = -1"
definition PS_RUNNING :: int where "PS_RUNNING = 0"
definition PS_INTERRUPTIBLE :: int where "PS_INTERRUPTIBLE = 1"
definition PS_UNINTERRUPTIBLE :: int where "PS_UNINTERRUPTIBLE = 2"
definition PS_ZOMBIE :: int where "PS_ZOMBIE = 3"

lemmas PS_defs = PS_EMBRYO_def PS_RUNNING_def PS_INTERRUPTIBLE_def PS_UNINTERRUPTIBLE_def PS_ZOMBIE_def

record thread_sched_info =
  has_run :: int
  timeslice :: int
  priority :: int
  good_streak :: int
  sched_next :: "ptr option"
  sched_prev :: "ptr option"

record thread_statistics =
  run_count :: nat
  current_cpu :: int
  last_cpu :: int

record thread =
  thd_state :: int
  preemptable :: bool
  kernel_ring :: bool
  held_lock :: "ptr option"
  run_locked :: bool
  sched_info :: thread_sched_info
  stats :: thread_statistics
  rudely_awoken :: bool
  joiners :: ptr
  should_die :: bool

type_synonym thread_store = "ptr \<Rightarrow> thread"

definition upd_sched :: "thread_store \<Rightarrow> ptr \<Rightarrow> (thread_sched_info \<Rightarrow> thread_sched_info) \<Rightarrow> thread_store" where
  "upd_sched h t f = h(t := (h t)\<lparr>sched_info := f (sched_info (h t))\<rparr>)"

definition upd_stats :: "thread_store \<Rightarrow> ptr \<Rightarrow> (thread_statistics \<Rightarrow> thread_statistics) \<Rightarrow> thread_store" where
  "upd_stats h t f = h(t := (h t)\<lparr>stats := f (stats (h t))\<rparr>)"

abbreviation nextp :: "thread_store \<Rightarrow> ptr \<Rightarrow> ptr option" where
  "nextp h t \<equiv> sched_next (sched_info (h t))"

abbreviation prevp :: "thread_store \<Rightarrow> ptr \<Rightarrow> ptr option" where
  "prevp h t \<equiv> sched_prev (sched_info (h t))"

definition set_nextp :: "ptr \<Rightarrow> ptr option \<Rightarrow> thread_store \<Rightarrow> thread_store" where
  "set_nextp t v h = upd_sched h t (\<lambda>s. s\<lparr>sched_next := v\<rparr>)"

definition set_prevp :: "ptr \<Rightarrow> ptr option \<Rightarrow> thread_store \<Rightarrow> thread_store" where
  "set_prevp t v h = upd_sched h t (\<lambda>s. s\<lparr>sched_prev := v\<rparr>)"

definition thread_set_state :: "thread_store \<Rightarrow> ptr \<Rightarrow> int \<Rightarrow> thread_store" where
  "thread_set_state h t st = h(t := (h t)\<lparr>thd_state := st\<rparr>)"

definition unblock :: "thread_store \<Rightarrow> ptr \<Rightarrow> bool \<Rightarrow> thread_store" where
  "unblock h t intr = thread_set_state (h(t := (h t)\<lparr>rudely_awoken := intr\<rparr>)) t PS_RUNNING"

definition thread_interrupt :: "thread_store \<Rightarrow> ptr \<Rightarrow> thread_store" where
  "thread_interrupt h t = unblock h t True"

section \<open>The run queue\<close>

record run_queue =
  qfront :: "ptr option"
  qback :: "ptr option"

type_synonym queue_store = "thread_store \<times> run_queue"

definition queue_add_task :: "queue_store \<Rightarrow> ptr \<Rightarrow> queue_store" where
  "queue_add_task s tsk =
     (case s of (h, q) \<Rightarrow>
        case qfront q of
          None \<Rightarrow> (set_prevp tsk None (set_nextp tsk None h), \<lparr>qfront = Some tsk, qback = Some tsk\<rparr>)
        | Some _ \<Rightarrow>
            (let h = (case qback q of Some b \<Rightarrow> set_nextp b (Some tsk) h | None \<Rightarrow> h);
                 h = set_nextp tsk None h;
                 h = set_prevp tsk (qback q) h
             in (h, q\<lparr>qback := Some tsk\<rparr>)))"

text \<open>The stores of \<^verbatim>\<open>remove_task\<close>, and its two assertions, made before the links are cleared.\<close>

definition queue_unlink :: "queue_store \<Rightarrow> ptr \<Rightarrow> queue_store" where
  "queue_unlink s tsk =
     (case s of (h, q) \<Rightarrow>
        let h = (case nextp h tsk of Some n \<Rightarrow> set_prevp n (prevp h tsk) h | None \<Rightarrow> h);
            h = (case prevp h tsk of Some p \<Rightarrow> set_nextp p (nextp h tsk) h | None \<Rightarrow> h);
            q = (if qback q = Some tsk then q\<lparr>qback := prevp h tsk\<rparr> else q);
            q = (if qfront q = Some tsk then q\<lparr>qfront := nextp h tsk\<rparr> else q)
        in (set_nextp tsk None (set_prevp tsk None h), q))"

definition queue_remove_task :: "queue_store \<Rightarrow> ptr \<Rightarrow> queue_store option" where
  "queue_remove_task s tsk =
     (let s' = queue_unlink s tsk; q = snd s'
      in if (qback q = None \<longrightarrow> qfront q = None) \<and> (qfront q = None \<longrightarrow> qback q = None) then Some s' else None)"

partial_function (option) queue_scan :: "thread_store \<Rightarrow> ptr option \<Rightarrow> ptr option option" where
  "queue_scan h thd =
     (case thd of
        None \<Rightarrow> Some None
      | Some t \<Rightarrow> if thd_state (h t) = PS_RUNNING then Some (Some t) else queue_scan h (nextp h t))"

definition queue_pick_next :: "queue_store \<Rightarrow> (ptr option \<times> queue_store) option" where
  "queue_pick_next s =
     (case s of (h, q) \<Rightarrow>
        Option.bind (queue_scan h (qfront q)) (\<lambda>td.
          case td of None \<Rightarrow> Some (None, s)
          | Some t \<Rightarrow> map_option (\<lambda>s. (Some t, s)) (queue_remove_task s t)))"

section \<open>Represented queues\<close>

text \<open>\<open>tseg h p xs n\<close>: the threads \<open>xs\<close> are linked in this order, between \<open>p\<close> and \<open>n\<close>.\<close>

definition hd_or :: "'a list \<Rightarrow> 'a option \<Rightarrow> 'a option" where
  "hd_or xs n = (case xs of [] \<Rightarrow> n | x # _ \<Rightarrow> Some x)"

definition last_or :: "'a list \<Rightarrow> 'a option \<Rightarrow> 'a option" where
  "last_or xs p = (if xs = [] then p else Some (last xs))"

primrec tseg :: "thread_store \<Rightarrow> ptr option \<Rightarrow> ptr list \<Rightarrow> ptr option \<Rightarrow> bool" where
  "tseg h p [] n \<longleftrightarrow> True"
| "tseg h p (x # xs) n \<longleftrightarrow> prevp h x = p \<and> nextp h x = hd_or xs n \<and> tseg h (Some x) xs n"

definition queue_list :: "queue_store \<Rightarrow> ptr list \<Rightarrow> bool" where
  "queue_list s xs \<longleftrightarrow>
     distinct xs \<and> tseg (fst s) None xs None \<and> qfront (snd s) = hd_or xs None \<and> qback (snd s) = last_or xs None"

lemma hd_or_simps [simp]: "hd_or [] n = n" "hd_or (x # xs) n = Some x" "hd_or (xs @ ys) n = hd_or xs (hd_or ys n)"
  by (auto simp: hd_or_def split: list.splits)

lemma last_or_simps [simp]: "last_or [] p = p" "last_or (x # xs) p = last_or xs (Some x)" "last_or (xs @ ys) p = last_or ys (last_or xs p)"
  by (auto simp: last_or_def)

lemma hd_or_None [simp]: "hd_or xs None = None \<longleftrightarrow> xs = []" "None = hd_or xs None \<longleftrightarrow> xs = []"
  by (auto simp: hd_or_def split: list.splits)

lemma last_or_None [simp]: "last_or xs None = None \<longleftrightarrow> xs = []" "None = last_or xs None \<longleftrightarrow> xs = []"
  by (auto simp: last_or_def)

lemma last_or_mem: "last_or xs (Some x) = Some t \<Longrightarrow> t = x \<or> t \<in> set xs"
  by (auto simp: last_or_def split: if_splits)

lemma set_nextp_sel [simp]:
  "sched_info (set_nextp t v h u) = (if u = t then (sched_info (h t))\<lparr>sched_next := v\<rparr> else sched_info (h u))"
  "thd_state (set_nextp t v h u) = thd_state (h u)" "stats (set_nextp t v h u) = stats (h u)"
  by (simp_all add: set_nextp_def upd_sched_def)

lemma set_prevp_sel [simp]:
  "sched_info (set_prevp t v h u) = (if u = t then (sched_info (h t))\<lparr>sched_prev := v\<rparr> else sched_info (h u))"
  "thd_state (set_prevp t v h u) = thd_state (h u)" "stats (set_prevp t v h u) = stats (h u)"
  by (simp_all add: set_prevp_def upd_sched_def)

lemma tseg_append [simp]:
  "tseg h p (xs @ ys) n \<longleftrightarrow> tseg h p xs (hd_or ys n) \<and> tseg h (last_or xs p) ys n"
  by (induction xs arbitrary: p) auto

lemma tseg_cong:
  "(\<And>x. x \<in> set xs \<Longrightarrow> nextp h' x = nextp h x \<and> prevp h' x = prevp h x) \<Longrightarrow> tseg h' p xs n \<longleftrightarrow> tseg h p xs n"
  by (induction xs arbitrary: p) auto

lemma tseg_set_nextp [simp]: "t \<notin> set xs \<Longrightarrow> tseg (set_nextp t v h) p xs n \<longleftrightarrow> tseg h p xs n"
  by (rule tseg_cong) auto

lemma tseg_set_prevp [simp]: "t \<notin> set xs \<Longrightarrow> tseg (set_prevp t v h) p xs n \<longleftrightarrow> tseg h p xs n"
  by (rule tseg_cong) auto

lemma queue_list_distinct: "queue_list s xs \<Longrightarrow> distinct xs"
  by (simp add: queue_list_def)

lemma queue_list_empty: "queue_list (h, \<lparr>qfront = None, qback = None\<rparr>) []"
  by (simp add: queue_list_def)

lemma queue_add_task_list:
  assumes "queue_list s xs" "t \<notin> set xs"
  shows "queue_list (queue_add_task s t) (xs @ [t])"
proof (cases xs rule: rev_cases)
  case Nil
  then show ?thesis using assms by (auto simp: queue_list_def queue_add_task_def split: prod.splits)
next
  case (snoc ys b)
  then show ?thesis using assms
    by (cases s; cases ys) (auto simp: queue_list_def queue_add_task_def Let_def)
qed

lemma queue_unlink_list:
  assumes "queue_list s (xs @ t # ys)"
  shows "queue_list (queue_unlink s t) (xs @ ys)"
proof (cases xs rule: rev_cases)
  case Nil
  then show ?thesis using assms
    by (cases s; cases ys) (auto simp: queue_list_def queue_unlink_def Let_def dest: last_or_mem)
next
  case (snoc zs p)
  then show ?thesis using assms
    by (cases s; cases ys; cases zs) (auto simp: queue_list_def queue_unlink_def Let_def dest: last_or_mem)
qed

interpretation mq: task_queue queue_list "\<lambda>_. True" queue_add_task queue_unlink
  by unfold_locales (auto simp: queue_add_task_list queue_unlink_list dest: queue_list_distinct)

lemma queue_list_ends: "queue_list s xs \<Longrightarrow> qfront (snd s) = None \<longleftrightarrow> qback (snd s) = None"
  by (auto simp: queue_list_def)

lemma queue_remove_task_list:
  assumes "queue_list s (xs @ t # ys)"
  shows "queue_remove_task s t = Some (queue_unlink s t)"
  using queue_list_ends [OF queue_unlink_list [OF assms]] by (simp add: queue_remove_task_def Let_def)

lemma queue_scan_list:
  "tseg h p xs None \<Longrightarrow> queue_scan h (hd_or xs None) = Some (find (\<lambda>t. thd_state (h t) = PS_RUNNING) xs)"
proof (induction xs arbitrary: p)
  case Nil
  show ?case by (simp add: queue_scan.simps)
next
  case (Cons x xs)
  then show ?case by (auto simp: queue_scan.simps [of h "Some x"])
qed

lemma queue_pick_next_none:
  assumes "queue_list s xs" "find (\<lambda>t. thd_state (fst s t) = PS_RUNNING) xs = None"
  shows "queue_pick_next s = Some (None, s)"
  using assms queue_scan_list [of "fst s" None xs] by (cases s) (simp add: queue_pick_next_def queue_list_def)

lemma queue_pick_next_some:
  assumes "queue_list s xs" "find (\<lambda>t. thd_state (fst s t) = PS_RUNNING) xs = Some t"
  shows "queue_pick_next s = Some (Some t, queue_unlink s t)" and "t \<in> set xs"
proof -
  show t: "t \<in> set xs" using assms(2) by (metis find_Some_iff nth_mem)
  then obtain ys zs where "xs = ys @ t # zs" by (meson split_list)
  then have "queue_remove_task s t = Some (queue_unlink s t)" using assms(1) queue_remove_task_list by simp
  then show "queue_pick_next s = Some (Some t, queue_unlink s t)"
    using assms queue_scan_list [of "fst s" None xs] by (cases s) (simp add: queue_pick_next_def queue_list_def)
qed

text \<open>What the queue operations leave alone: all but the links, and the links of other threads.\<close>

definition no_links :: "thread \<Rightarrow> thread" where
  "no_links t = t\<lparr>sched_info := (sched_info t)\<lparr>sched_next := None, sched_prev := None\<rparr>\<rparr>"

lemma no_links_set [simp]:
  "no_links (set_nextp t v h u) = no_links (h u)" "no_links (set_prevp t v h u) = no_links (h u)"
  by (simp_all add: no_links_def set_nextp_def set_prevp_def upd_sched_def)

lemma no_links_eqD:
  assumes "no_links a = no_links b"
  shows "thd_state a = thd_state b" "stats a = stats b" "priority (sched_info a) = priority (sched_info b)"
    "has_run (sched_info a) = has_run (sched_info b)" "timeslice (sched_info a) = timeslice (sched_info b)"
    "good_streak (sched_info a) = good_streak (sched_info b)" "run_locked a = run_locked b"
    "preemptable a = preemptable b" "held_lock a = held_lock b" "rudely_awoken a = rudely_awoken b"
    "joiners a = joiners b" "should_die a = should_die b" "kernel_ring a = kernel_ring b"
  using arg_cong [OF assms, of thd_state]
    arg_cong [OF assms, of stats]
    arg_cong [OF assms, of "\<lambda>t. priority (sched_info t)"]
    arg_cong [OF assms, of "\<lambda>t. has_run (sched_info t)"]
    arg_cong [OF assms, of "\<lambda>t. timeslice (sched_info t)"]
    arg_cong [OF assms, of "\<lambda>t. good_streak (sched_info t)"]
    arg_cong [OF assms, of run_locked]
    arg_cong [OF assms, of preemptable]
    arg_cong [OF assms, of held_lock]
    arg_cong [OF assms, of rudely_awoken]
    arg_cong [OF assms, of joiners]
    arg_cong [OF assms, of should_die]
    arg_cong [OF assms, of kernel_ring]
  by (simp_all add: no_links_def)

lemma set_links_other: "u \<noteq> t \<Longrightarrow> set_nextp t v h u = h u" "u \<noteq> t \<Longrightarrow> set_prevp t v h u = h u"
  by (simp_all add: set_nextp_def set_prevp_def upd_sched_def)

lemma queue_add_task_no_links [simp]: "no_links (fst (queue_add_task s t) u) = no_links (fst s u)"
  by (auto simp: queue_add_task_def Let_def split: prod.splits option.splits)

lemma queue_unlink_no_links [simp]: "no_links (fst (queue_unlink s t) u) = no_links (fst s u)"
  by (auto simp: queue_unlink_def Let_def split: prod.splits option.splits)

lemma queue_add_task_other:
  assumes "queue_list s xs" "u \<notin> set xs" "u \<noteq> t"
  shows "fst (queue_add_task s t) u = fst s u"
  using assms by (cases xs rule: rev_cases)
    (auto simp: queue_add_task_def queue_list_def Let_def set_links_other split: prod.splits option.splits)

lemma queue_unlink_other:
  assumes "queue_list s (xs @ t # ys)" "u \<notin> set (xs @ t # ys)"
  shows "fst (queue_unlink s t) u = fst s u"
  using assms by (cases xs rule: rev_cases; cases ys)
    (auto simp: queue_unlink_def queue_list_def Let_def set_links_other split: prod.splits option.splits)

lemma queue_unlink_links [simp]:
  "nextp (fst (queue_unlink s t)) t = None" "prevp (fst (queue_unlink s t)) t = None"
  by (simp_all add: queue_unlink_def Let_def split: prod.splits)

lemma queue_list_cong:
  assumes "queue_list (h, q) xs" "\<And>u. u \<in> set xs \<Longrightarrow> nextp h' u = nextp h u \<and> prevp h' u = prevp h u"
  shows "queue_list (h', q) xs"
  using assms tseg_cong [of xs h' h None None] by (simp add: queue_list_def)

end
