(* ===== verification/Mlfq.thy ===== *)
theory Mlfq
  imports Thread
begin

text \<open>
  The multi-level feedback queue of a processor, \<^verbatim>\<open>struct mlfq\<close> of \<^verbatim>\<open>kernel/sched/core.cpp\<close>. Its lock
  is held throughout each operation, so operations are atomic; \<^verbatim>\<open>steal\<close> is given whether it got
  the lock. The queues are an array that is only indexed below \<^verbatim>\<open>MLFQ_NQUEUES\<close>.
\<close>

section \<open>Operations\<close>

definition MLFQ_NQUEUES :: nat where "MLFQ_NQUEUES = 32"
definition MLFQ_MIN_RT :: int where "MLFQ_MIN_RT = 1"

datatype behavior = Good | Bad

record mlfq =
  core :: int
  next_worksteal :: int
  active :: bool
  queues :: "nat \<Rightarrow> run_queue"

type_synonym mlfq_store = "thread_store \<times> mlfq"

definition on_queue :: "nat \<Rightarrow> (queue_store \<Rightarrow> queue_store) \<Rightarrow> mlfq_store \<Rightarrow> mlfq_store" where
  "on_queue p f s =
     (case s of (h, m) \<Rightarrow> case f (h, queues m p) of (h, q) \<Rightarrow> (h, m\<lparr>queues := (queues m)(p := q)\<rparr>))"

text \<open>The new priority, streak and time slice of a thread that is added.\<close>

definition mlfq_grade :: "behavior \<Rightarrow> thread_sched_info \<Rightarrow> thread_sched_info" where
  "mlfq_grade b s =
     (let s = (if b = Bad then s\<lparr>good_streak := 0, priority := priority s + 1\<rparr> else s);
          s = (if b = Good
               then let s = s\<lparr>good_streak := good_streak s + 1\<rparr>
                    in if good_streak s > priority s * 2 + int MLFQ_NQUEUES
                       then s\<lparr>good_streak := 0, priority := priority s - 1\<rparr> else s
               else s);
          s = (if priority s < 0 then s\<lparr>priority := 0\<rparr> else s);
          s = (if priority s \<ge> int MLFQ_NQUEUES then s\<lparr>priority := int MLFQ_NQUEUES - 1\<rparr> else s)
      in s\<lparr>timeslice := MLFQ_MIN_RT + priority s * 2\<rparr>)"

definition mlfq_add :: "mlfq_store \<Rightarrow> ptr \<Rightarrow> behavior \<Rightarrow> mlfq_store" where
  "mlfq_add s thd b =
     (case s of (h, m) \<Rightarrow>
        let h = upd_stats h thd (\<lambda>s. s\<lparr>current_cpu := core m\<rparr>);
            h = upd_sched h thd (mlfq_grade b)
        in on_queue (nat (priority (sched_info (h thd)))) (\<lambda>s. queue_add_task s thd) (h, m))"

function pick_loop :: "nat \<Rightarrow> mlfq_store \<Rightarrow> (ptr option \<times> mlfq_store) option" where
  "pick_loop prio (h, m) =
     (if prio < MLFQ_NQUEUES
      then case queue_pick_next (h, queues m prio) of
             None \<Rightarrow> None
           | Some (cur, (h, q)) \<Rightarrow>
               let s = (h, m\<lparr>queues := (queues m)(prio := q)\<rparr>)
               in (case cur of Some t \<Rightarrow> Some (Some t, s) | None \<Rightarrow> pick_loop (prio + 1) s)
      else Some (None, (h, m)))"
  by pat_completeness auto
termination by (relation "measure (\<lambda>(p, s). MLFQ_NQUEUES - p)") auto

declare pick_loop.simps [simp del]

definition mlfq_get_next :: "mlfq_store \<Rightarrow> (ptr option \<times> mlfq_store) option" where
  "mlfq_get_next s = pick_loop 0 s"

definition mlfq_steal :: "bool \<Rightarrow> mlfq_store \<Rightarrow> (ptr option \<times> mlfq_store) option" where
  "mlfq_steal locked s = (if locked then pick_loop 0 s else Some (None, s))"

definition mlfq_remove :: "mlfq_store \<Rightarrow> ptr \<Rightarrow> mlfq_store option" where
  "mlfq_remove s thd =
     (case s of (h, m) \<Rightarrow>
        if current_cpu (stats (h thd)) = core m
        then let h = upd_stats h thd (\<lambda>s. s\<lparr>current_cpu := -1\<rparr>);
                 p = nat (priority (sched_info (h thd)))
             in map_option (\<lambda>(h, q). (h, m\<lparr>queues := (queues m)(p := q)\<rparr>)) (queue_remove_task (h, queues m p) thd)
        else None)"

text \<open>
  The inner loop of \<^verbatim>\<open>boost\<close> takes its next thread from the link that \<^verbatim>\<open>add_task\<close> has just written.
\<close>

partial_function (option) boost_queue :: "nat \<Rightarrow> ptr option \<Rightarrow> mlfq_store \<Rightarrow> mlfq_store option" where
  "boost_queue prio thd s =
     (case thd of
        None \<Rightarrow> Some s
      | Some t \<Rightarrow>
          (case s of (h, m) \<Rightarrow>
             case queue_remove_task (h, queues m prio) t of
               None \<Rightarrow> None
             | Some (h, q) \<Rightarrow>
                 let m = m\<lparr>queues := (queues m)(prio := q)\<rparr>;
                     h = upd_sched h t (\<lambda>s. s\<lparr>priority := priority s div 2\<rparr>);
                     (h, m) = on_queue (nat (priority (sched_info (h t)))) (\<lambda>s. queue_add_task s t) (h, m)
                 in boost_queue prio (nextp h t) (h, m)))"

function boost_loop :: "nat \<Rightarrow> mlfq_store \<Rightarrow> mlfq_store option" where
  "boost_loop prio s =
     (if prio < MLFQ_NQUEUES
      then case boost_queue prio (qfront (queues (snd s) prio)) s of
             None \<Rightarrow> None | Some s \<Rightarrow> boost_loop (prio + 1) s
      else Some s)"
  by pat_completeness auto
termination by (relation "measure (\<lambda>(p, s). MLFQ_NQUEUES - p)") auto

declare boost_loop.simps [simp del]

definition mlfq_boost :: "mlfq_store \<Rightarrow> mlfq_store option" where
  "mlfq_boost s = boost_loop 1 s"

section \<open>Represented levels\<close>

definition mlfq_lists :: "mlfq_store \<Rightarrow> (nat \<Rightarrow> ptr list) \<Rightarrow> bool" where
  "mlfq_lists s qs \<longleftrightarrow>
     (\<forall>p < MLFQ_NQUEUES. queue_list (fst s, queues (snd s) p) (qs p))
     \<and> (\<forall>p < MLFQ_NQUEUES. \<forall>p' < MLFQ_NQUEUES. p \<noteq> p' \<longrightarrow> set (qs p) \<inter> set (qs p') = {})
     \<and> (\<forall>p < MLFQ_NQUEUES. \<forall>t \<in> set (qs p). priority (sched_info (fst s t)) = int p)"

definition mlfq_tids :: "(nat \<Rightarrow> ptr list) \<Rightarrow> ptr set" where
  "mlfq_tids qs = (\<Union>p < MLFQ_NQUEUES. set (qs p))"

lemma on_queue_add_lists:
  assumes l: "mlfq_lists (h, m) qs" and t: "t \<notin> mlfq_tids qs" and p: "p < MLFQ_NQUEUES"
    and prio: "priority (sched_info (h t)) = int p"
  shows "mlfq_lists (on_queue p (\<lambda>s. queue_add_task s t) (h, m)) (qs(p := qs p @ [t]))"
proof -
  let ?s = "queue_add_task (h, queues m p) t"
  have q: "queue_list (h, queues m k) (qs k)" if "k < MLFQ_NQUEUES" for k using l that by (simp add: mlfq_lists_def)
  have tk: "t \<notin> set (qs k)" if "k < MLFQ_NQUEUES" for k using t that by (auto simp: mlfq_tids_def)
  have dj: "set (qs k) \<inter> set (qs p) = {}" if "k < MLFQ_NQUEUES" "k \<noteq> p" for k
    using l that p by (auto simp: mlfq_lists_def)
  have "queue_list ?s (qs p @ [t])" using q [OF p] tk [OF p] by (rule queue_add_task_list)
  moreover have "queue_list (fst ?s, queues m k) (qs k)" if k: "k < MLFQ_NQUEUES" "k \<noteq> p" for k
  proof (rule queue_list_cong [OF q [OF k(1)]])
    fix u assume "u \<in> set (qs k)"
    then have "u \<notin> set (qs p)" "u \<noteq> t" using dj [OF k] tk [OF k(1)] by auto
    then show "nextp (fst ?s) u = nextp h u \<and> prevp (fst ?s) u = prevp h u"
      using queue_add_task_other [OF q [OF p], of u t] by simp
  qed
  moreover have "priority (sched_info (fst ?s u)) = priority (sched_info (h u))" for u
    using no_links_eqD(3) [OF queue_add_task_no_links [of "(h, queues m p)" t u]] by simp
  ultimately show ?thesis
    using l tk dj p prio by (auto simp: mlfq_lists_def on_queue_def split: prod.splits)
qed

lemma on_queue_unlink_lists:
  assumes l: "mlfq_lists (h, m) qs" and p: "p < MLFQ_NQUEUES" and t: "t \<in> set (qs p)"
  shows "mlfq_lists (on_queue p (\<lambda>s. queue_unlink s t) (h, m)) (qs(p := remove1 t (qs p)))"
proof -
  let ?s = "queue_unlink (h, queues m p) t"
  have q: "queue_list (h, queues m k) (qs k)" if "k < MLFQ_NQUEUES" for k using l that by (simp add: mlfq_lists_def)
  have dj: "set (qs k) \<inter> set (qs p) = {}" if "k < MLFQ_NQUEUES" "k \<noteq> p" for k
    using l that p by (auto simp: mlfq_lists_def)
  have "queue_list ?s (remove1 t (qs p))" using q [OF p] t by (rule mq.repr_unlink_member)
  moreover have "queue_list (fst ?s, queues m k) (qs k)" if k: "k < MLFQ_NQUEUES" "k \<noteq> p" for k
  proof (rule queue_list_cong [OF q [OF k(1)]])
    fix u assume "u \<in> set (qs k)"
    then have u: "u \<notin> set (qs p)" using dj [OF k] by auto
    obtain xs ys where "qs p = xs @ t # ys" using t by (meson split_list)
    then show "nextp (fst ?s) u = nextp h u \<and> prevp (fst ?s) u = prevp h u"
      using queue_unlink_other [of "(h, queues m p)" xs t ys u] q [OF p] u by simp
  qed
  moreover have "priority (sched_info (fst ?s u)) = priority (sched_info (h u))" for u
    using no_links_eqD(3) [OF queue_unlink_no_links [of "(h, queues m p)" t u]] by simp
  moreover have "set (remove1 t (qs p)) \<subseteq> set (qs p)" by (rule set_remove1_subset)
  ultimately show ?thesis
    using l dj p by (fastforce simp: mlfq_lists_def on_queue_def split: prod.splits)
qed

section \<open>Each operation on represented levels\<close>

lemma mlfq_lists_cong:
  assumes l: "mlfq_lists (h, m) qs" and q: "queues m' = queues m"
    and same: "\<And>u. u \<in> mlfq_tids qs \<Longrightarrow> nextp h' u = nextp h u \<and> prevp h' u = prevp h u
                 \<and> priority (sched_info (h' u)) = priority (sched_info (h u))"
  shows "mlfq_lists (h', m') qs"
proof -
  have "queue_list (h', queues m p) (qs p)" if p: "p < MLFQ_NQUEUES" for p
    by (rule queue_list_cong [of h]) (use l p same in \<open>auto simp: mlfq_lists_def mlfq_tids_def\<close>)
  moreover have "priority (sched_info (h' t)) = int p" if "p < MLFQ_NQUEUES" "t \<in> set (qs p)" for p t
    using l same [of t] that by (auto simp: mlfq_lists_def mlfq_tids_def)
  ultimately show ?thesis using l by (simp add: mlfq_lists_def q)
qed

lemma mlfq_grade_range: "0 \<le> priority (mlfq_grade b s)" "priority (mlfq_grade b s) < int MLFQ_NQUEUES"
  by (auto simp: mlfq_grade_def Let_def MLFQ_NQUEUES_def)

lemma mlfq_grade_slice: "timeslice (mlfq_grade b s) = 1 + 2 * priority (mlfq_grade b s)"
  by (simp add: mlfq_grade_def Let_def MLFQ_MIN_RT_def)

lemma mlfq_grade_links [simp]:
  "sched_next (mlfq_grade b s) = sched_next s" "sched_prev (mlfq_grade b s) = sched_prev s" "has_run (mlfq_grade b s) = has_run s"
  by (simp_all add: mlfq_grade_def Let_def)

text \<open>Streaks stay small, so the counter does not overflow.\<close>

lemma mlfq_grade_streak:
  assumes "0 \<le> good_streak s" "good_streak s \<le> 94" "0 \<le> priority s" "priority s < 32"
  shows "0 \<le> good_streak (mlfq_grade b s)" "good_streak (mlfq_grade b s) \<le> 94"
  using assms by (auto simp: mlfq_grade_def Let_def MLFQ_NQUEUES_def)

lemma upd_sched_other [simp]: "u \<noteq> t \<Longrightarrow> upd_sched h t f u = h u"
  by (simp add: upd_sched_def)

lemma upd_stats_other [simp]: "u \<noteq> t \<Longrightarrow> upd_stats h t f u = h u"
  by (simp add: upd_stats_def)

lemma upd_sched_sel [simp]: "sched_info (upd_sched h t f t) = f (sched_info (h t))" "thd_state (upd_sched h t f u) = thd_state (h u)"
  "stats (upd_sched h t f u) = stats (h u)"
  by (simp_all add: upd_sched_def)

lemma upd_stats_sel [simp]: "stats (upd_stats h t f t) = f (stats (h t))" "thd_state (upd_stats h t f u) = thd_state (h u)"
  "sched_info (upd_stats h t f u) = sched_info (h u)"
  by (simp_all add: upd_stats_def)

lemma mlfq_add_lists:
  assumes "mlfq_lists (h, m) qs" "t \<notin> mlfq_tids qs" "p = nat (priority (mlfq_grade b (sched_info (h t))))"
  shows "mlfq_lists (mlfq_add (h, m) t b) (qs(p := qs p @ [t]))" and "p < MLFQ_NQUEUES"
proof -
  let ?h = "upd_sched (upd_stats h t (\<lambda>s. s\<lparr>current_cpu := core m\<rparr>)) t (mlfq_grade b)"
  show p: "p < MLFQ_NQUEUES"
    using mlfq_grade_range [of b "sched_info (h t)"] assms(3) by simp
  have "mlfq_lists (?h, m) qs"
  proof (rule mlfq_lists_cong [OF assms(1) refl])
    fix u assume "u \<in> mlfq_tids qs"
    then have "u \<noteq> t" using assms(2) by auto
    then show "nextp ?h u = nextp h u \<and> prevp ?h u = prevp h u \<and> priority (sched_info (?h u)) = priority (sched_info (h u))"
      by simp
  qed
  from on_queue_add_lists [OF this assms(2) p] show "mlfq_lists (mlfq_add (h, m) t b) (qs(p := qs p @ [t]))"
    using mlfq_grade_range [of b "sched_info (h t)"] assms(3) by (simp add: mlfq_add_def Let_def)
qed

lemma pick_loop_lists:
  assumes "mlfq_lists (h, m) qs" "prio \<le> MLFQ_NQUEUES"
  shows "case find (\<lambda>t. thd_state (h t) = PS_RUNNING) (concat (map qs [prio..<MLFQ_NQUEUES])) of
           None \<Rightarrow> pick_loop prio (h, m) = Some (None, (h, m))
         | Some t \<Rightarrow> \<exists>p < MLFQ_NQUEUES. t \<in> set (qs p)
             \<and> pick_loop prio (h, m) = Some (Some t, on_queue p (\<lambda>s. queue_unlink s t) (h, m))"
  using assms(2)
proof (induction "MLFQ_NQUEUES - prio" arbitrary: prio)
  case 0
  then show ?case by (simp add: pick_loop.simps)
next
  case (Suc n)
  then have p: "prio < MLFQ_NQUEUES" by simp
  then have up: "[prio..<MLFQ_NQUEUES] = prio # [Suc prio..<MLFQ_NQUEUES]" by (simp add: upt_conv_Cons)
  have q: "queue_list (h, queues m prio) (qs prio)" using assms(1) p by (simp add: mlfq_lists_def)
  show ?case
  proof (cases "find (\<lambda>t. thd_state (h t) = PS_RUNNING) (qs prio)")
    case None
    have "queue_pick_next (h, queues m prio) = Some (None, (h, queues m prio))"
      using queue_pick_next_none [OF q] None by simp
    then have "pick_loop prio (h, m) = pick_loop (Suc prio) (h, m)"
      using p by (simp add: pick_loop.simps [of prio])
    moreover have "n = MLFQ_NQUEUES - Suc prio" "Suc prio \<le> MLFQ_NQUEUES" using Suc p by simp_all
    ultimately show ?thesis using Suc(1) [of "Suc prio"] None by (simp add: up find_append split: option.splits)
  next
    case (Some t)
    have "queue_pick_next (h, queues m prio) = Some (Some t, queue_unlink (h, queues m prio) t)" "t \<in> set (qs prio)"
      using queue_pick_next_some [OF q, of t] Some by simp_all
    then show ?thesis using p Some
      by (auto simp: pick_loop.simps [of prio] up find_append on_queue_def split: prod.splits intro!: exI [of _ prio])
  qed
qed

lemma mlfq_remove_lists:
  assumes "mlfq_lists (h, m) qs" "t \<in> set (qs p)" "p < MLFQ_NQUEUES" "current_cpu (stats (h t)) = core m"
  shows "\<exists>s. mlfq_remove (h, m) t = Some s \<and> mlfq_lists s (qs(p := remove1 t (qs p)))"
proof -
  let ?h = "upd_stats h t (\<lambda>s. s\<lparr>current_cpu := -1\<rparr>)"
  have l: "mlfq_lists (?h, m) qs" by (rule mlfq_lists_cong [OF assms(1) refl]) simp
  have "priority (sched_info (?h t)) = int p" using l assms(2, 3) by (simp add: mlfq_lists_def)
  moreover have "queue_list (?h, queues m p) (qs p)" using l assms(3) by (simp add: mlfq_lists_def)
  moreover obtain xs ys where "qs p = xs @ t # ys" using assms(2) by (meson split_list)
  ultimately have "mlfq_remove (h, m) t = Some (on_queue p (\<lambda>s. queue_unlink s t) (?h, m))"
    using assms(4) queue_remove_task_list [of "(?h, queues m p)" xs t ys]
    by (simp add: mlfq_remove_def on_queue_def Let_def split: prod.splits)
  then show ?thesis using on_queue_unlink_lists [OF l assms(3, 2)] by simp
qed

section \<open>What the queue operations leave alone\<close>

text \<open>\<open>touches T h h'\<close>: only the links and the priorities of the threads in \<open>T\<close> differ.\<close>

definition no_sched :: "thread \<Rightarrow> thread" where
  "no_sched d = d\<lparr>sched_info := (sched_info d)\<lparr>sched_next := None, sched_prev := None, priority := 0\<rparr>\<rparr>"

definition touches :: "ptr set \<Rightarrow> thread_store \<Rightarrow> thread_store \<Rightarrow> bool" where
  "touches T h h' \<longleftrightarrow> (\<forall>u. no_sched (h' u) = no_sched (h u)) \<and> (\<forall>u. u \<notin> T \<longrightarrow> h' u = h u)"

lemma no_sched_no_links: "no_links a = no_links b \<Longrightarrow> no_sched a = no_sched b"
  unfolding no_sched_def no_links_def
  by (drule arg_cong [of _ _ "\<lambda>d. d\<lparr>sched_info := (sched_info d)\<lparr>priority := 0\<rparr>\<rparr>"]) simp

lemma touchesD:
  assumes "touches T h h'"
  shows "thd_state (h' u) = thd_state (h u)" "stats (h' u) = stats (h u)" "run_locked (h' u) = run_locked (h u)"
    "u \<notin> T \<Longrightarrow> h' u = h u"
proof -
  have e: "no_sched (h' u) = no_sched (h u)" and "u \<notin> T \<Longrightarrow> h' u = h u" using assms by (auto simp: touches_def)
  show "thd_state (h' u) = thd_state (h u)" "stats (h' u) = stats (h u)" "run_locked (h' u) = run_locked (h u)"
    using arg_cong [OF e, of thd_state] arg_cong [OF e, of stats] arg_cong [OF e, of run_locked] by (simp_all add: no_sched_def)
  show "u \<notin> T \<Longrightarrow> h' u = h u" by fact
qed

lemma touches_refl: "touches T h h" by (simp add: touches_def)

lemma touches_mono: "touches T h h' \<Longrightarrow> T \<subseteq> T' \<Longrightarrow> touches T' h h'" by (auto simp: touches_def)

lemma touches_trans: "touches T h h' \<Longrightarrow> touches T h' h'' \<Longrightarrow> touches T h h''" by (simp add: touches_def)

lemma on_queue_fst: "fst (on_queue p f (h, m)) = fst (f (h, queues m p))"
  by (simp add: on_queue_def split: prod.splits)

lemma on_queue_snd [simp]: "core (snd (on_queue p f s)) = core (snd s)" "next_worksteal (snd (on_queue p f s)) = next_worksteal (snd s)"
  "active (snd (on_queue p f s)) = active (snd s)"
  by (auto simp: on_queue_def split: prod.splits)

lemma mlfq_lists_queue: "mlfq_lists (h, m) qs \<Longrightarrow> p < MLFQ_NQUEUES \<Longrightarrow> queue_list (h, queues m p) (qs p)"
  by (simp add: mlfq_lists_def)

lemma mlfq_tidsI: "p < MLFQ_NQUEUES \<Longrightarrow> t \<in> set (qs p) \<Longrightarrow> t \<in> mlfq_tids qs"
  by (auto simp: mlfq_tids_def)

lemma unlink_touches:
  assumes "mlfq_lists (h, m) qs" "p < MLFQ_NQUEUES" "t \<in> set (qs p)"
  shows "touches (mlfq_tids qs) h (fst (on_queue p (\<lambda>s. queue_unlink s t) (h, m)))"
proof -
  obtain xs ys where x: "qs p = xs @ t # ys" using assms(3) by (meson split_list)
  have q: "queue_list (h, queues m p) (xs @ t # ys)" using mlfq_lists_queue [OF assms(1, 2)] x by simp
  have "fst (queue_unlink (h, queues m p) t) u = h u" if "u \<notin> mlfq_tids qs" for u
    using queue_unlink_other [OF q, of u] that mlfq_tidsI [OF assms(2), of u qs] x by auto
  then show ?thesis unfolding touches_def on_queue_fst
    using no_sched_no_links [OF queue_unlink_no_links [of "(h, queues m p)" t]] by simp
qed

lemma add_touches:
  assumes "mlfq_lists (h, m) qs" "p < MLFQ_NQUEUES"
  shows "touches (insert t (mlfq_tids qs)) h (fst (on_queue p (\<lambda>s. queue_add_task s t) (h, m)))"
proof -
  have "fst (queue_add_task (h, queues m p) t) u = h u" if "u \<notin> insert t (mlfq_tids qs)" for u
    using queue_add_task_other [OF mlfq_lists_queue [OF assms], of u t] that mlfq_tidsI [OF assms(2), of u qs] by auto
  then show ?thesis unfolding touches_def on_queue_fst
    using no_sched_no_links [OF queue_add_task_no_links [of "(h, queues m p)" t]] by simp
qed

lemma mlfq_tids_remove1:
  assumes "mlfq_lists s qs" "p < MLFQ_NQUEUES" "t \<in> set (qs p)"
  shows "mlfq_tids (qs(p := remove1 t (qs p))) = mlfq_tids qs - {t}"
proof -
  have d: "distinct (qs p)" using assms(1, 2) by (auto simp: mlfq_lists_def queue_list_def)
  have "t \<notin> set (qs k)" if "k < MLFQ_NQUEUES" "k \<noteq> p" for k using assms that by (auto simp: mlfq_lists_def)
  then show ?thesis using d assms(2) by (auto simp: mlfq_tids_def split: if_splits)
qed

lemma mlfq_tids_add: "p < MLFQ_NQUEUES \<Longrightarrow> mlfq_tids (qs(p := qs p @ [t])) = insert t (mlfq_tids qs)"
  by (auto simp: mlfq_tids_def split: if_splits)

section \<open>Boosting\<close>

definition same_but_queues :: "mlfq \<Rightarrow> mlfq \<Rightarrow> bool" where
  "same_but_queues m m' \<longleftrightarrow> core m' = core m \<and> next_worksteal m' = next_worksteal m \<and> active m' = active m"

lemma boost_queue_lists:
  assumes l: "mlfq_lists (h, m) qs" and p: "0 < p" "p < MLFQ_NQUEUES" and t: "qs p = t # xs"
  shows "\<exists>s. boost_queue p (qfront (queues m p)) (h, m) = Some s \<and> same_but_queues m (snd s) \<and> touches (mlfq_tids qs) h (fst s)
           \<and> mlfq_lists s (qs(p := xs, p div 2 := qs (p div 2) @ [t]))"
proof -
  have q: "queue_list (h, queues m p) ([] @ t # xs)" using l p t by (auto simp: mlfq_lists_def)
  then have f: "qfront (queues m p) = Some t" by (simp add: queue_list_def)
  obtain h1 q1 where u: "queue_unlink (h, queues m p) t = (h1, q1)" by fastforce
  then have rm: "queue_remove_task (h, queues m p) t = Some (h1, q1)"
    using queue_remove_task_list [OF q] by simp
  define m1 where "m1 = m\<lparr>queues := (queues m)(p := q1)\<rparr>"
  have l1: "mlfq_lists (h1, m1) (qs(p := xs))"
    using on_queue_unlink_lists [OF l p(2), of t] t by (simp add: on_queue_def u m1_def)
  have td: "t \<notin> mlfq_tids (qs(p := xs))"
    using l p t q by (auto simp: mlfq_tids_def mlfq_lists_def queue_list_def split: if_splits)
  have pr: "priority (sched_info (h1 t)) = int p"
    using no_links_eqD(3) [OF queue_unlink_no_links [of "(h, queues m p)" t t]] u l p t by (auto simp: mlfq_lists_def)
  define h2 where "h2 = upd_sched h1 t (\<lambda>s. s\<lparr>priority := priority s div 2\<rparr>)"
  have l2: "mlfq_lists (h2, m1) (qs(p := xs))"
  proof (rule mlfq_lists_cong [OF l1 refl])
    fix u assume "u \<in> mlfq_tids (qs(p := xs))"
    then have "u \<noteq> t" using td by metis
    then show "nextp h2 u = nextp h1 u \<and> prevp h2 u = prevp h1 u \<and> priority (sched_info (h2 u)) = priority (sched_info (h1 u))"
      by (simp add: h2_def)
  qed
  have pr2: "priority (sched_info (h2 t)) = int (p div 2)" by (simp add: h2_def pr zdiv_int)
  have p2: "p div 2 < MLFQ_NQUEUES" "p div 2 \<noteq> p" using p by auto
  obtain h3 m3 where s3: "on_queue (p div 2) (\<lambda>s. queue_add_task s t) (h2, m1) = (h3, m3)" by fastforce
  have l3: "mlfq_lists (h3, m3) (qs(p := xs, p div 2 := qs (p div 2) @ [t]))"
    using on_queue_add_lists [OF l2 td p2(1) pr2] p2(2) by (simp add: s3)
  have "queue_list (h3, queues m3 (p div 2)) (qs (p div 2) @ [t])" using l3 p2 by (auto simp: mlfq_lists_def)
  then have "nextp h3 t = None" by (simp add: queue_list_def)
  moreover have "nat (priority (sched_info (h1 t)) div 2) = p div 2" unfolding pr by (simp add: nat_div_distrib)
  ultimately have "boost_queue p (Some t) (h, m) = Some (h3, m3)"
    using s3 by (subst boost_queue.simps) (simp add: rm m1_def [symmetric] h2_def [symmetric] boost_queue.simps [of p None])
  moreover have "same_but_queues m m3" using s3 by (auto simp: same_but_queues_def on_queue_def m1_def split: prod.splits)
  moreover have "touches (mlfq_tids qs) h h3"
  proof -
    have t': "t \<in> mlfq_tids qs" using mlfq_tidsI [OF p(2), of t qs] t by simp
    have "touches (mlfq_tids qs) h h1" using unlink_touches [OF l p(2), of t] t by (simp add: on_queue_fst u)
    moreover have "touches (mlfq_tids qs) h1 h2" using t' by (auto simp: touches_def h2_def no_sched_def upd_sched_def)
    moreover have "insert t (mlfq_tids (qs(p := xs))) \<subseteq> mlfq_tids qs" using t' t by (auto simp: mlfq_tids_def split: if_splits)
    then have "touches (mlfq_tids qs) h2 h3" using touches_mono [OF add_touches [OF l2 p2(1), of t]] s3 by simp
    ultimately show ?thesis using touches_trans by blast
  qed
  ultimately show ?thesis using f l3 by simp
qed

text \<open>The levels after \<^verbatim>\<open>boost\<close> has treated those below \<open>n\<close>.\<close>

definition boosted :: "nat \<Rightarrow> (nat \<Rightarrow> ptr list) \<Rightarrow> nat \<Rightarrow> ptr list" where
  "boosted n qs k =
     (if 0 < k \<and> k < n then tl (qs k) else qs k) @ concat (map (\<lambda>j. take 1 (qs j)) (filter (\<lambda>j. j div 2 = k) [1..<n]))"

lemma boosted_first: "boosted 1 qs = qs"
  by (auto simp: boosted_def fun_eq_iff)

lemma boosted_same: "0 < n \<Longrightarrow> boosted n qs n = qs n"
  by (auto simp: boosted_def filter_empty_conv)

lemma boosted_Suc:
  assumes "0 < n"
  shows "boosted (Suc n) qs =
    (case qs n of [] \<Rightarrow> boosted n qs | t # xs \<Rightarrow> (boosted n qs)(n := xs, n div 2 := boosted n qs (n div 2) @ [t]))"
proof -
  have f: "filter (\<lambda>j. j div 2 = n) [Suc 0..<n] = []" by (auto simp: filter_empty_conv)
  have d: "n div 2 \<noteq> n" "n div 2 < n" using assms by auto
  show ?thesis
    using assms d f by (auto simp: boosted_def fun_eq_iff less_Suc_eq split: list.splits)
qed

lemma mlfq_tids_split: "a < MLFQ_NQUEUES \<Longrightarrow> mlfq_tids qs = set (qs a) \<union> (\<Union>p \<in> {..<MLFQ_NQUEUES} - {a}. set (qs p))"
  by (auto simp: mlfq_tids_def)

lemma mlfq_tids_move:
  assumes "a < MLFQ_NQUEUES" "b < MLFQ_NQUEUES" "b \<noteq> a" "qs a = t # xs"
  shows "mlfq_tids (qs(a := xs, b := qs b @ [t])) = mlfq_tids qs"
proof -
  have "mlfq_tids (qs(a := xs)) = set xs \<union> (\<Union>p \<in> {..<MLFQ_NQUEUES} - {a}. set (qs p))"
    using mlfq_tids_split [OF assms(1), of "qs(a := xs)"] by simp
  then have "insert t (mlfq_tids (qs(a := xs))) = mlfq_tids qs"
    using mlfq_tids_split [OF assms(1), of qs] assms(4) by simp
  then show ?thesis using mlfq_tids_add [OF assms(2), of "qs(a := xs)" t] assms(3) by simp
qed

lemma boosted_tids:
  assumes "0 < n" "n \<le> MLFQ_NQUEUES"
  shows "mlfq_tids (boosted n qs) = mlfq_tids qs"
  using assms
proof (induction n rule: nat_induct_non_zero)
  case 1
  then show ?case by (simp only: boosted_first)
next
  case (Suc n)
  then have n: "0 < n" "n < MLFQ_NQUEUES" "n div 2 < MLFQ_NQUEUES" "n div 2 \<noteq> n" by auto
  show ?case
  proof (cases "qs n")
    case Nil
    then show ?thesis using Suc n by (simp add: boosted_Suc)
  next
    case (Cons t xs)
    have "boosted n qs n = t # xs" using boosted_same [OF n(1), of qs] Cons by simp
    then have "mlfq_tids ((boosted n qs)(n := xs, n div 2 := boosted n qs (n div 2) @ [t])) = mlfq_tids (boosted n qs)"
      using n mlfq_tids_move by metis
    then show ?thesis using Suc n unfolding boosted_Suc [OF n(1)] Cons list.case by (simp only: less_imp_le)
  qed
qed

lemma boost_loop_lists:
  assumes "mlfq_lists s (boosted n qs)" "0 < n" "n \<le> MLFQ_NQUEUES"
  shows "\<exists>s'. boost_loop n s = Some s' \<and> same_but_queues (snd s) (snd s') \<and> touches (mlfq_tids qs) (fst s) (fst s')
    \<and> mlfq_lists s' (boosted MLFQ_NQUEUES qs)"
  using assms
proof (induction "MLFQ_NQUEUES - n" arbitrary: n s)
  case 0
  then show ?case by (simp add: boost_loop.simps touches_refl same_but_queues_def)
next
  case (Suc k)
  obtain h m where s: "s = (h, m)" by fastforce
  have n: "n < MLFQ_NQUEUES" using Suc(2) by simp
  have "\<exists>s1. boost_queue n (qfront (queues m n)) (h, m) = Some s1 \<and> same_but_queues m (snd s1) \<and> touches (mlfq_tids qs) h (fst s1)
          \<and> mlfq_lists s1 (boosted (Suc n) qs)"
  proof (cases "qs n")
    case Nil
    then have "queue_list (h, queues m n) []" using Suc.prems(1) n s boosted_same [OF Suc.prems(2), of qs] by (auto simp: mlfq_lists_def)
    then show ?thesis using Nil Suc.prems s by (simp add: queue_list_def boost_queue.simps boosted_Suc touches_refl same_but_queues_def)
  next
    case (Cons t xs)
    then show ?thesis
      using boost_queue_lists [of h m "boosted n qs" n t xs] Suc.prems n s boosted_same [of n qs] boosted_tids [of n qs]
      by (simp add: boosted_Suc)
  qed
  then obtain s1 where s1: "boost_queue n (qfront (queues m n)) (h, m) = Some s1" "same_but_queues m (snd s1)"
      "mlfq_lists s1 (boosted (Suc n) qs)" "touches (mlfq_tids qs) h (fst s1)" by blast
  have "k = MLFQ_NQUEUES - Suc n" "Suc n \<le> MLFQ_NQUEUES" using Suc(2) n by simp_all
  from Suc(1) [OF this(1) s1(3) _ this(2)] obtain s' where "boost_loop (Suc n) s1 = Some s'"
      "same_but_queues (snd s1) (snd s')" "touches (mlfq_tids qs) (fst s1) (fst s')" "mlfq_lists s' (boosted MLFQ_NQUEUES qs)"
    by blast
  then show ?case
    using s1 n s touches_trans [OF s1(4)] by (auto simp: boost_loop.simps [of n] same_but_queues_def)
qed

lemma mlfq_boost_lists:
  assumes "mlfq_lists s qs"
  shows "\<exists>s'. mlfq_boost s = Some s' \<and> same_but_queues (snd s) (snd s') \<and> touches (mlfq_tids qs) (fst s) (fst s')
    \<and> mlfq_lists s' (boosted MLFQ_NQUEUES qs)"
  using boost_loop_lists [of s 1 qs] assms unfolding mlfq_boost_def boosted_first by (simp add: MLFQ_NQUEUES_def)

text \<open>Picking a thread, at this level.\<close>

definition runnable_in :: "thread_store \<Rightarrow> (nat \<Rightarrow> ptr list) \<Rightarrow> ptr option" where
  "runnable_in h qs = find (\<lambda>t. thd_state (h t) = PS_RUNNING) (concat (map qs [0..<MLFQ_NQUEUES]))"

lemma pick_none:
  assumes "mlfq_lists (h, m) qs" "runnable_in h qs = None"
  shows "pick_loop 0 (h, m) = Some (None, (h, m))"
  using pick_loop_lists [OF assms(1), of 0] assms(2) by (simp add: runnable_in_def)

lemma pick_some:
  assumes l: "mlfq_lists (h, m) qs" and t: "runnable_in h qs = Some t"
  obtains s' qs' where "pick_loop 0 (h, m) = Some (Some t, s')" "mlfq_lists s' qs'" "mlfq_tids qs' = mlfq_tids qs - {t}"
    "t \<in> mlfq_tids qs" "touches (mlfq_tids qs) h (fst s')" "core (snd s') = core m" "next_worksteal (snd s') = next_worksteal m"
    "active (snd s') = active m"
    "\<exists>p < MLFQ_NQUEUES. t \<in> set (qs p) \<and> qs' = qs(p := remove1 t (qs p))"
proof -
  obtain p where p: "p < MLFQ_NQUEUES" "t \<in> set (qs p)"
      "pick_loop 0 (h, m) = Some (Some t, on_queue p (\<lambda>s. queue_unlink s t) (h, m))"
    using pick_loop_lists [OF l, of 0] t by (auto simp: runnable_in_def)
  show thesis
    using that [OF p(3) on_queue_unlink_lists [OF l p(1, 2)] mlfq_tids_remove1 [OF l p(1, 2)] mlfq_tidsI [where qs = qs, OF p(1, 2)]
        unlink_touches [OF l p(1, 2)]] p by auto
qed

lemma mlfq_lists_ext: "mlfq_lists s qs \<Longrightarrow> (\<And>p. p < MLFQ_NQUEUES \<Longrightarrow> qs' p = qs p) \<Longrightarrow> mlfq_lists s qs'"
  by (simp add: mlfq_lists_def)

section \<open>Properties\<close>

text \<open>Two threads at level 3, the first of them asleep, for the witnesses.\<close>

definition demo_thread :: "int \<Rightarrow> ptr option \<Rightarrow> ptr option \<Rightarrow> thread" where
  "demo_thread st nx pv = \<lparr>thd_state = st, preemptable = True, kernel_ring = False, held_lock = None, run_locked = False,
     sched_info = \<lparr>has_run = 0, timeslice = 7, priority = 3, good_streak = 0, sched_next = nx, sched_prev = pv\<rparr>,
     stats = \<lparr>run_count = 0, current_cpu = 0, last_cpu = 0\<rparr>, rudely_awoken = False, joiners = 0, should_die = False\<rparr>"

definition demo_threads :: thread_store where
  "demo_threads t = (if t = 8 then demo_thread 1 (Some 9) None else demo_thread 0 None (Some 8))"

definition demo_mlfq :: mlfq where
  "demo_mlfq = \<lparr>core = 0, next_worksteal = 0, active = True,
     queues = (\<lambda>p. if p = 3 then \<lparr>qfront = Some 8, qback = Some 9\<rparr> else \<lparr>qfront = None, qback = None\<rparr>)\<rparr>"

lemma demo_lists: "mlfq_lists (demo_threads, demo_mlfq) (\<lambda>p. if p = 3 then [8, 9] else [])"
  by (auto simp: mlfq_lists_def queue_list_def demo_threads_def demo_mlfq_def demo_thread_def MLFQ_NQUEUES_def)

lemma demo_concat_none: "3 \<notin> set ys \<Longrightarrow> concat (map (\<lambda>j. if j = (3 :: nat) then xs else []) ys) = []"
  by (induction ys) auto

lemma demo_upt: "0 < a \<Longrightarrow> a \<le> 3 \<Longrightarrow> [a..<MLFQ_NQUEUES] = [a..<3] @ 3 # [4..<MLFQ_NQUEUES]" "[0..<MLFQ_NQUEUES] = [0..<3] @ 3 # [4..<MLFQ_NQUEUES]"
  using upt_add_eq_append [of a 3 29] upt_add_eq_append [of 0 3 29] upt_conv_Cons [of 3 MLFQ_NQUEUES]
  by (simp_all add: MLFQ_NQUEUES_def)

lemma demo_concat: "concat (map (\<lambda>j. if j = (3 :: nat) then xs else []) (filter P [0..<MLFQ_NQUEUES])) = (if P 3 then xs else [])"
  unfolding demo_upt(2) by (simp add: demo_concat_none)

lemma demo_concat1: "concat (map (\<lambda>j. if j = (3 :: nat) then xs else []) (filter P [1..<MLFQ_NQUEUES])) = (if P 3 then xs else [])"
  using demo_upt(1) [of 1] by (simp add: demo_concat_none)

text \<open>
  C18: \<^verbatim>\<open>get_next\<close> returns the first runnable thread of the best level that has one, takes it out of its
  queue and leaves all other threads, in their order, where they are.
\<close>

theorem mlfq_get_next_correct:
  assumes "mlfq_lists (h, m) qs"
  shows "\<exists>s'. mlfq_get_next (h, m) = Some (find (\<lambda>t. thd_state (h t) = PS_RUNNING) (concat (map qs [0..<MLFQ_NQUEUES])), s')
    \<and> mlfq_lists s' (\<lambda>p. filter (\<lambda>t. Some t \<noteq> find (\<lambda>t. thd_state (h t) = PS_RUNNING) (concat (map qs [0..<MLFQ_NQUEUES]))) (qs p))"
proof (cases "runnable_in h qs")
  case None
  then show ?thesis using pick_none [OF assms None] assms by (simp add: mlfq_get_next_def runnable_in_def)
next
  case (Some t)
  from pick_some [OF assms Some] obtain s' qs' p where p: "pick_loop 0 (h, m) = Some (Some t, s')" "mlfq_lists s' qs'"
      "p < MLFQ_NQUEUES" "t \<in> set (qs p)" "qs' = qs(p := remove1 t (qs p))" by metis
  have "filter (\<lambda>u. u \<noteq> t) (qs k) = qs' k" if k: "k < MLFQ_NQUEUES" for k
  proof (cases "k = p")
    case True
    have "distinct (qs p)" using mlfq_lists_queue [OF assms p(3)] by (simp add: queue_list_def)
    then have "qs' k = filter (\<lambda>u. t \<noteq> u) (qs p)" using p(5) True by (simp add: distinct_remove1_removeAll removeAll_filter_not_eq)
    then show ?thesis using True by (auto intro: filter_cong)
  next
    case False
    then have "t \<notin> set (qs k)" using assms p(3, 4) k by (auto simp: mlfq_lists_def)
    then show ?thesis using False p(5) by (auto simp: filter_id_conv)
  qed
  then have "mlfq_lists s' (\<lambda>k. filter (\<lambda>u. u \<noteq> t) (qs k))" by (rule mlfq_lists_ext [OF p(2)])
  then show ?thesis using p(1) Some by (simp add: mlfq_get_next_def runnable_in_def)
qed

theorem mlfq_get_next_correct_witness:
  "\<exists>s'. mlfq_get_next (demo_threads, demo_mlfq) = Some (Some 9, s') \<and> mlfq_lists s' (\<lambda>p. if p = 3 then [8] else [])"
proof -
  have "concat (map (\<lambda>p. if p = 3 then [8, 9] else []) [0..<MLFQ_NQUEUES]) = [8, 9 :: ptr]"
    using demo_concat [of "[8, 9]" "\<lambda>_. True"] by simp
  then have f: "find (\<lambda>t. thd_state (demo_threads t) = PS_RUNNING) (concat (map (\<lambda>p. if p = 3 then [8, 9] else []) [0..<MLFQ_NQUEUES])) = Some 9"
    by (simp add: demo_threads_def demo_thread_def PS_RUNNING_def)
  show ?thesis using mlfq_get_next_correct [OF demo_lists] unfolding f
    by (elim exE conjE) (intro exI conjI, assumption, rule mlfq_lists_ext, assumption, simp)
qed

text \<open>
  C19: \<^verbatim>\<open>add\<close> puts a thread at the end of the queue of its new level. A thread that used up its time
  slice goes one level down, any other stays, or goes up after a long streak; the level is always
  one of the 32, and the time slice is one tick plus two per level.
\<close>

theorem mlfq_add_correct:
  assumes "mlfq_lists (h, m) qs" and "t \<notin> mlfq_tids qs" and "0 \<le> priority (sched_info (h t))" and "priority (sched_info (h t)) \<le> 31"
  shows "\<exists>p. mlfq_lists (mlfq_add (h, m) t b) (qs(p := qs p @ [t])) \<and> p < MLFQ_NQUEUES
    \<and> timeslice (sched_info (fst (mlfq_add (h, m) t b) t)) = 1 + 2 * int p
    \<and> (b = Bad \<longrightarrow> int p = min 31 (priority (sched_info (h t)) + 1))
    \<and> (b = Good \<longrightarrow> int p = priority (sched_info (h t)) \<or>
         int p = max 0 (priority (sched_info (h t)) - 1) \<and> good_streak (sched_info (h t)) \<ge> 32 + 2 * priority (sched_info (h t)))"
proof -
  define p where "p = nat (priority (mlfq_grade b (sched_info (h t))))"
  have ip: "int p = priority (mlfq_grade b (sched_info (h t)))" using mlfq_grade_range(1) [of b "sched_info (h t)"] by (simp add: p_def)
  define h1 where "h1 = upd_sched (upd_stats h t (\<lambda>i. i\<lparr>current_cpu := core m\<rparr>)) t (mlfq_grade b)"
  have add: "mlfq_lists (mlfq_add (h, m) t b) (qs(p := qs p @ [t]))" "p < MLFQ_NQUEUES"
    using mlfq_add_lists [OF assms(1, 2), of p b] by (simp_all add: p_def)
  have "fst (mlfq_add (h, m) t b) t = fst (queue_add_task (h1, queues m p) t) t"
    by (simp add: mlfq_add_def Let_def on_queue_fst h1_def p_def)
  then have "timeslice (sched_info (fst (mlfq_add (h, m) t b) t)) = timeslice (sched_info (h1 t))"
    using no_links_eqD(5) [OF queue_add_task_no_links [of "(h1, queues m p)" t t]] by simp
  then have "timeslice (sched_info (fst (mlfq_add (h, m) t b) t)) = 1 + 2 * int p"
    using mlfq_grade_slice [of b "sched_info (h t)"] ip by (simp add: h1_def)
  moreover have "b = Bad \<longrightarrow> int p = min 31 (priority (sched_info (h t)) + 1)"
    using assms(3, 4) unfolding ip by (auto simp: mlfq_grade_def Let_def MLFQ_NQUEUES_def)
  moreover have "b = Good \<longrightarrow> int p = priority (sched_info (h t)) \<or>
       int p = max 0 (priority (sched_info (h t)) - 1) \<and> good_streak (sched_info (h t)) \<ge> 32 + 2 * priority (sched_info (h t))"
    using assms(3, 4) unfolding ip by (auto simp: mlfq_grade_def Let_def MLFQ_NQUEUES_def)
  ultimately show ?thesis using add by blast
qed

theorem mlfq_add_correct_witness:
  "\<exists>p. mlfq_lists (mlfq_add (demo_threads, demo_mlfq) 20 Bad) ((\<lambda>p. if p = 3 then [8, 9] else [])(p := (if p = 3 then [8, 9] else []) @ [20])) \<and> int p = 4"
proof -
  have "20 \<notin> mlfq_tids (\<lambda>p. if p = 3 then [8, 9] else [])" by (auto simp: mlfq_tids_def split: if_splits)
  moreover have "priority (sched_info (demo_threads 20)) = 3" by (simp add: demo_threads_def demo_thread_def)
  ultimately show ?thesis using mlfq_add_correct [OF demo_lists, of 20 Bad] by auto
qed

text \<open>
  C20: \<^verbatim>\<open>boost\<close> moves only the first thread of each level, to the level of half the number; the
  threads behind it stay where they are, because the loop follows the link of the thread it has
  just moved.
\<close>

theorem mlfq_boost_correct:
  assumes "mlfq_lists s qs"
  shows "\<exists>s'. mlfq_boost s = Some s' \<and> mlfq_lists s' (\<lambda>k. (if k = 0 then qs 0 else tl (qs k))
    @ concat (map (\<lambda>j. take 1 (qs j)) (filter (\<lambda>j. j div 2 = k) [1..<MLFQ_NQUEUES])))"
proof -
  obtain s' where s': "mlfq_boost s = Some s'" "mlfq_lists s' (boosted MLFQ_NQUEUES qs)" using mlfq_boost_lists [OF assms] by blast
  have "mlfq_lists s' (\<lambda>k. (if k = 0 then qs 0 else tl (qs k))
      @ concat (map (\<lambda>j. take 1 (qs j)) (filter (\<lambda>j. j div 2 = k) [1..<MLFQ_NQUEUES])))"
    by (rule mlfq_lists_ext [OF s'(2)]) (simp add: boosted_def)
  then show ?thesis using s'(1) by blast
qed

theorem mlfq_boost_correct_witness:
  "\<exists>s'. mlfq_boost (demo_threads, demo_mlfq) = Some s' \<and> mlfq_lists s' (\<lambda>k. if k = 1 then [8] else if k = 3 then [9] else [])"
proof -
  let ?qs = "\<lambda>p :: nat. if p = 3 then [8, 9] else [] :: ptr list"
  have "(if k = 0 then ?qs 0 else tl (?qs k)) @ concat (map (\<lambda>j. take 1 (?qs j)) (filter (\<lambda>j. j div 2 = k) [1..<MLFQ_NQUEUES]))
      = (if k = 1 then [8] else if k = 3 then [9] else [])" for k :: nat
  proof -
    have "concat (map (\<lambda>j. take 1 (?qs j)) (filter (\<lambda>j. j div 2 = k) [1..<MLFQ_NQUEUES])) = (if k = 1 then [8] else [])"
    proof -
      have "(\<lambda>j. take 1 (?qs j)) = (\<lambda>j. if j = 3 then [8] else [])" by (simp add: fun_eq_iff)
      then show ?thesis unfolding \<open>(\<lambda>j. take 1 (?qs j)) = (\<lambda>j. if j = 3 then [8] else [])\<close> demo_concat1 by auto
    qed
    then show ?thesis by simp
  qed
  then show ?thesis using mlfq_boost_correct [OF demo_lists] by simp
qed

end
