(* ===== verification/Wait.thy ===== *)
theory Wait
  imports Thread "HOL-Library.Word"
begin

unbundle bit_operations_syntax

text \<open>
  Wait queues, \<^verbatim>\<open>kernel/wait.cpp\<close> and \<^verbatim>\<open>include/chariot/wait.h\<close>. A wait queue is the address of its
  \<^verbatim>\<open>task_list\<close>; an entry is named by the address of the \<^verbatim>\<open>list_head\<close> in it. The lock of a queue is
  held in each operation, so operations are atomic. Waiting is split where the thread yields.
\<close>

section \<open>Entries and waking\<close>

definition WAIT_RES_INTR :: "32 word" where "WAIT_RES_INTR = 1"
definition WAIT_RES_TIMEOUT :: "32 word" where "WAIT_RES_TIMEOUT = 2"
definition WQ_FLAG_EXCLUSIVE :: "32 word" where "WQ_FLAG_EXCLUSIVE = 1"
definition WQ_FLAG_RUDELY :: "32 word" where "WQ_FLAG_RUDELY = 2"

definition wait_interrupted :: "32 word \<Rightarrow> bool" where
  "wait_interrupted r \<longleftrightarrow> r AND WAIT_RES_INTR \<noteq> 0"

definition wait_timed_out :: "32 word \<Rightarrow> bool" where
  "wait_timed_out r \<longleftrightarrow> r AND WAIT_RES_TIMEOUT \<noteq> 0"

datatype wake_func = Autoremove | Multi_wait

record wait_entry =
  we_flags :: "32 word"
  we_thd :: ptr
  we_func :: wake_func
  we_wq :: "ptr option"
  we_result :: "32 word"
  we_awoken :: bool

record wait_store =
  wthds :: thread_store
  wlists :: list_head
  wents :: "ptr \<Rightarrow> wait_entry"
  woke_someone_up :: bool

definition upd_ent :: "ptr \<Rightarrow> (wait_entry \<Rightarrow> wait_entry) \<Rightarrow> wait_store \<Rightarrow> wait_store" where
  "upd_ent e f s = s\<lparr>wents := (wents s)(e := f (wents s e))\<rparr>"

definition wait_entry_new :: "ptr \<Rightarrow> ptr \<Rightarrow> wait_store \<Rightarrow> wait_store" where
  "wait_entry_new curthd e s =
     s\<lparr>wents := (wents s)(e := \<lparr>we_flags = 0, we_thd = curthd, we_func = Autoremove, we_wq = None, we_result = 0, we_awoken = False\<rparr>),
       wlists := lh_init (wlists s) e\<rparr>"

definition wait_queue_new :: "ptr \<Rightarrow> wait_store \<Rightarrow> wait_store" where
  "wait_queue_new q s = s\<lparr>wlists := lh_init (wlists s) q\<rparr>"

definition autoremove_wake_function :: "ptr \<Rightarrow> wait_store \<Rightarrow> bool \<times> wait_store" where
  "autoremove_wake_function e s =
     (let thd = we_thd (wents s e);
          s = s\<lparr>wthds := unblock (wthds s) thd False\<rparr>;
          s = upd_ent e (\<lambda>w. w\<lparr>we_result := 0\<rparr>) s;
          s = (if rudely_awoken (wthds s thd) then upd_ent e (\<lambda>w. w\<lparr>we_result := we_result w OR WAIT_RES_INTR\<rparr>) s else s);
          s = upd_ent e (\<lambda>w. w\<lparr>we_flags := we_flags w OR WQ_FLAG_RUDELY\<rparr>) s
      in (True, s\<lparr>wlists := lh_del_init (wlists s) e\<rparr>))"

definition multi_wait_wake_function :: "ptr \<Rightarrow> wait_store \<Rightarrow> bool \<times> wait_store" where
  "multi_wait_wake_function e s = autoremove_wake_function e (upd_ent e (\<lambda>w. w\<lparr>we_awoken := True\<rparr>) s)"

definition call_wake_func :: "ptr \<Rightarrow> wait_store \<Rightarrow> bool \<times> wait_store" where
  "call_wake_func e s =
     (case we_func (wents s e) of Autoremove \<Rightarrow> autoremove_wake_function e s | Multi_wait \<Rightarrow> multi_wait_wake_function e s)"

text \<open>The loop over the entries, safe against the removal of the current one.\<close>

partial_function (option) wake_loop :: "ptr \<Rightarrow> ptr \<Rightarrow> ptr \<Rightarrow> int \<Rightarrow> bool \<Rightarrow> wait_store \<Rightarrow> (bool \<times> wait_store) option" where
  "wake_loop q cur nxt nr_exclusive woke_someone s =
     (if cur = q then Some (woke_someone, s)
      else let flags = we_flags (wents s cur);
               (woke_up, s) = call_wake_func cur s;
               woke_someone = (woke_someone \<or> woke_up);
               excl = (woke_up \<and> flags AND WQ_FLAG_EXCLUSIVE \<noteq> 0);
               nr_exclusive = (if excl then nr_exclusive - 1 else nr_exclusive)
           in if excl \<and> nr_exclusive = 0 then Some (woke_someone, s)
              else wake_loop q nxt (lh_next (wlists s) nxt) nr_exclusive woke_someone s)"

definition wake_up_common :: "ptr \<Rightarrow> int \<Rightarrow> wait_store \<Rightarrow> wait_store option" where
  "wake_up_common q nr_exclusive s =
     (let cur = lh_next (wlists s) q
      in map_option (\<lambda>(woke_someone, s). if woke_someone then s\<lparr>woke_someone_up := True\<rparr> else s)
           (wake_loop q cur (lh_next (wlists s) cur) nr_exclusive False s))"

definition wake_up :: "ptr \<Rightarrow> wait_store \<Rightarrow> wait_store option" where
  "wake_up q s = wake_up_common q 1 s"

definition wake_up_all :: "ptr \<Rightarrow> wait_store \<Rightarrow> wait_store option" where
  "wake_up_all q s = wake_up_common q 0 s"

section \<open>Waiting\<close>

definition wq_set_state :: "ptr \<Rightarrow> int \<Rightarrow> wait_store \<Rightarrow> wait_store" where
  "wq_set_state t st s = s\<lparr>wthds := thread_set_state (wthds s) t st\<rparr>"

text \<open>\<^verbatim>\<open>prepare_to_wait\<close> and \<^verbatim>\<open>prepare_to_wait_exclusive\<close>; \<^verbatim>\<open>wait\<close> is these behind an assertion, up to the yield.\<close>

definition prepare_to_wait :: "ptr \<Rightarrow> ptr \<Rightarrow> ptr \<Rightarrow> int \<Rightarrow> wait_store \<Rightarrow> wait_store" where
  "prepare_to_wait curthd q e state s =
     (let s = upd_ent e (\<lambda>w. w\<lparr>we_wq := Some q, we_flags := we_flags w AND NOT WQ_FLAG_EXCLUSIVE\<rparr>) s;
          s = wq_set_state curthd state s
      in s\<lparr>wlists := lh_add (wlists s) q e\<rparr>)"

definition prepare_to_wait_exclusive :: "ptr \<Rightarrow> ptr \<Rightarrow> ptr \<Rightarrow> int \<Rightarrow> wait_store \<Rightarrow> wait_store" where
  "prepare_to_wait_exclusive curthd q e state s =
     (let s = upd_ent e (\<lambda>w. w\<lparr>we_wq := Some q, we_flags := we_flags w OR WQ_FLAG_EXCLUSIVE\<rparr>) s;
          s = wq_set_state curthd state s
      in s\<lparr>wlists := lh_add_tail (wlists s) q e\<rparr>)"

definition wq_wait :: "ptr \<Rightarrow> ptr \<Rightarrow> ptr \<Rightarrow> int \<Rightarrow> wait_store \<Rightarrow> wait_store option" where
  "wq_wait curthd q e state s =
     (if we_wq (wents s e) = None then Some (prepare_to_wait curthd q e state s) else None)"

definition wq_wait_exclusive :: "ptr \<Rightarrow> ptr \<Rightarrow> ptr \<Rightarrow> int \<Rightarrow> wait_store \<Rightarrow> wait_store option" where
  "wq_wait_exclusive curthd q e state s =
     (if we_wq (wents s e) = None then Some (prepare_to_wait_exclusive curthd q e state s) else None)"

text \<open>The rest of \<^verbatim>\<open>wait\<close> once the thread runs again: the result, and the entry's destructor.\<close>

definition wait_start_result :: "bool \<Rightarrow> ptr \<Rightarrow> wait_store \<Rightarrow> 32 word \<times> wait_store" where
  "wait_start_result was_interrupted e s =
     (let s = (if was_interrupted then upd_ent e (\<lambda>w. w\<lparr>we_result := we_result w OR WAIT_RES_INTR\<rparr>) s else s)
      in (we_result (wents s e), s))"

definition wq_finish :: "ptr \<Rightarrow> ptr \<Rightarrow> wait_store \<Rightarrow> wait_store option" where
  "wq_finish q e s =
     (case we_wq (wents s e) of
        None \<Rightarrow> Some s
      | Some q' \<Rightarrow>
          if q' = q
          then let s = wq_set_state (we_thd (wents s e)) PS_RUNNING s;
                   s = (if lh_is_empty_careful (wlists s) e then s else s\<lparr>wlists := lh_del_init (wlists s) e\<rparr>)
               in Some (upd_ent e (\<lambda>w. w\<lparr>we_wq := None\<rparr>) s)
          else None)"

definition wait_entry_destroy :: "ptr \<Rightarrow> wait_store \<Rightarrow> wait_store option" where
  "wait_entry_destroy e s = (case we_wq (wents s e) of None \<Rightarrow> Some s | Some q \<Rightarrow> wq_finish q e s)"

section \<open>Waiting on several queues\<close>

text \<open>The entries \<open>ents\<close> belong to the queues \<open>qs\<close>, one each.\<close>

definition multi_wait_bind :: "bool \<Rightarrow> (ptr \<times> ptr) list \<Rightarrow> wait_store \<Rightarrow> wait_store" where
  "multi_wait_bind exclusive qes s =
     fold (\<lambda>(q, e) s. upd_ent e (\<lambda>w. w\<lparr>we_wq := Some q, we_func := Multi_wait,
             we_flags := (if exclusive then WQ_FLAG_EXCLUSIVE else we_flags w)\<rparr>) s) qes s"

definition multi_wait_link :: "(ptr \<times> ptr) list \<Rightarrow> wait_store \<Rightarrow> wait_store" where
  "multi_wait_link qes s = fold (\<lambda>(q, e) s. s\<lparr>wlists := lh_add (wlists s) q e\<rparr>) qes s"

definition multi_wait_begin :: "ptr \<Rightarrow> bool \<Rightarrow> (ptr \<times> ptr) list \<Rightarrow> wait_store \<Rightarrow> wait_store" where
  "multi_wait_begin curthd exclusive qes s =
     multi_wait_link qes (wq_set_state curthd PS_INTERRUPTIBLE (multi_wait_bind exclusive qes s))"

fun multi_wait_which :: "nat \<Rightarrow> ptr list \<Rightarrow> wait_store \<Rightarrow> nat option" where
  "multi_wait_which i [] s = None"
| "multi_wait_which i (e # es) s =
     (if we_awoken (wents s e)
      then if wait_interrupted (we_result (wents s e)) then None else Some i
      else multi_wait_which (Suc i) es s)"

section \<open>What waking does\<close>

text \<open>The entries that \<^verbatim>\<open>wake_up_common\<close> wakes, and those that it leaves in the queue.\<close>

fun wake_split :: "(ptr \<Rightarrow> bool) \<Rightarrow> int \<Rightarrow> ptr list \<Rightarrow> ptr list \<times> ptr list" where
  "wake_split ex nr [] = ([], [])"
| "wake_split ex nr (e # es) =
     (if ex e \<and> nr - 1 = 0 then ([e], es)
      else case wake_split ex (if ex e then nr - 1 else nr) es of (w, r) \<Rightarrow> (e # w, r))"

definition exclusive_entry :: "wait_store \<Rightarrow> ptr \<Rightarrow> bool" where
  "exclusive_entry s e \<longleftrightarrow> we_flags (wents s e) AND WQ_FLAG_EXCLUSIVE \<noteq> 0"

definition wake_all :: "ptr list \<Rightarrow> wait_store \<Rightarrow> wait_store" where
  "wake_all w s = fold (\<lambda>e s. snd (call_wake_func e s)) w s"

lemma wake_all_simps [simp]: "wake_all [] s = s" "wake_all (e # w) s = wake_all w (snd (call_wake_func e s))"
  by (simp_all add: wake_all_def)

lemma wake_split_append: "wake_split ex nr es = (w, r) \<Longrightarrow> es = w @ r"
  by (induction es arbitrary: nr w r) (auto split: if_splits prod.splits)

lemma wake_split_cong:
  "(\<And>e. e \<in> set es \<Longrightarrow> ex e = ex' e) \<Longrightarrow> wake_split ex nr es = wake_split ex' nr es"
  by (induction es arbitrary: nr) (auto split: prod.splits)

lemma wake_split_all:
  assumes "nr \<le> 0"
  shows "wake_split ex nr es = (es, [])"
  using assms by (induction es arbitrary: nr) auto

lemma wake_split_one_shared: "(\<And>e. e \<in> set es \<Longrightarrow> \<not> ex e) \<Longrightarrow> wake_split ex nr es = (es, [])"
  by (induction es) auto

lemma wake_split_one:
  "(\<And>e. e \<in> set xs \<Longrightarrow> \<not> ex e) \<Longrightarrow> ex e \<Longrightarrow> wake_split ex 1 (xs @ e # ys) = (xs @ [e], ys)"
  by (induction xs) auto

lemma upd_ent_sel [simp]:
  "wents (upd_ent e f s) = (wents s)(e := f (wents s e))" "wlists (upd_ent e f s) = wlists s"
  "wthds (upd_ent e f s) = wthds s" "woke_someone_up (upd_ent e f s) = woke_someone_up s"
  by (simp_all add: upd_ent_def)

lemma call_wake_func_woke [simp]: "fst (call_wake_func e s)"
  by (simp add: call_wake_func_def autoremove_wake_function_def multi_wait_wake_function_def Let_def split: wake_func.splits)

lemma call_wake_func_sel [simp]:
  "wlists (snd (call_wake_func e s)) = lh_del_init (wlists s) e"
  "wthds (snd (call_wake_func e s)) = unblock (wthds s) (we_thd (wents s e)) False"
  "we_thd (wents (snd (call_wake_func e s)) f) = we_thd (wents s f)"
  "we_wq (wents (snd (call_wake_func e s)) f) = we_wq (wents s f)"
  "we_func (wents (snd (call_wake_func e s)) f) = we_func (wents s f)"
  "f \<noteq> e \<Longrightarrow> wents (snd (call_wake_func e s)) f = wents s f"
  "we_awoken (wents (snd (call_wake_func e s)) e) = (we_awoken (wents s e) \<or> we_func (wents s e) = Multi_wait)"
  "we_result (wents (snd (call_wake_func e s)) e) = 0"
  "woke_someone_up (snd (call_wake_func e s)) = woke_someone_up s"
  by (auto simp: call_wake_func_def autoremove_wake_function_def multi_wait_wake_function_def Let_def
      unblock_def thread_set_state_def split: wake_func.splits)

lemma wake_loop_ok:
  assumes "lh_list (wlists s) q es" "wake_split (exclusive_entry s) nr es = (w, r)"
    "es \<noteq> [] \<longrightarrow> n = hd (tl es @ [q])"
  shows "wake_loop q (hd (es @ [q])) n nr b s = Some (b \<or> w \<noteq> [], wake_all w s)"
  using assms
proof (induction es arbitrary: s nr w r n b)
  case Nil
  then show ?case by (simp add: wake_loop.simps)
next
  case (Cons e es)
  have ne: "e \<noteq> q" "e \<notin> set es" using lh_list_distinct [OF Cons.prems(1)] by auto
  define s1 where "s1 = snd (call_wake_func e s)"
  have c: "call_wake_func e s = (True, s1)" using call_wake_func_woke [of e s] by (simp add: s1_def prod_eq_iff)
  have l1: "lh_list (wlists s1) q es" using lh.repr_unlink [of "wlists s" q "[]" e es] Cons.prems(1) by (simp add: s1_def)
  have sp: "wake_split (exclusive_entry s1) k es = wake_split (exclusive_entry s) k es" for k
    by (rule wake_split_cong) (metis ne(2) call_wake_func_sel(6) exclusive_entry_def s1_def)
  have n: "n = hd (es @ [q])" using Cons.prems(3) by simp
  have n2: "es \<noteq> [] \<longrightarrow> lh_next (wlists s1) n = hd (tl es @ [q])"
    using l1 n lh_del_between_list(2) [of "wlists s1" q "[]" "hd es" "tl es"] by (cases es) auto
  show ?case
  proof (cases "exclusive_entry s e \<and> nr - 1 = 0")
    case True
    then show ?thesis
      using Cons.prems(2) ne by (subst wake_loop.simps) (auto simp: exclusive_entry_def c)
  next
    case False
    define k where "k = (if exclusive_entry s e then nr - 1 else nr)"
    obtain w' where w': "wake_split (exclusive_entry s1) k es = (w', r)" "w = e # w'"
      using Cons.prems(2) False sp by (auto simp: k_def split: prod.splits if_splits)
    have "wake_loop q e n nr b s = wake_loop q n (lh_next (wlists s1) n) k True s1"
      using False ne c by (subst wake_loop.simps) (auto simp: exclusive_entry_def k_def)
    then show ?thesis using Cons.IH [OF l1 w'(1) n2, of True] n w'(2) by (simp add: s1_def)
  qed
qed

lemma wake_up_common_ok:
  assumes "lh_list (wlists s) q es" "wake_split (exclusive_entry s) nr es = (w, r)"
  shows "wake_up_common q nr s = Some (if w = [] then s else (wake_all w s)\<lparr>woke_someone_up := True\<rparr>)"
proof -
  have h: "lh_next (wlists s) q = hd (es @ [q])" using assms(1) by (rule lh_list_next)
  have "es \<noteq> [] \<longrightarrow> lh_next (wlists s) (hd (es @ [q])) = hd (tl es @ [q])"
    using assms(1) lh_del_between_list(2) [of "wlists s" q "[]" "hd es" "tl es"] by (cases es) auto
  from wake_loop_ok [OF assms this, of False] show ?thesis
    by (simp add: wake_up_common_def h)
qed

lemma wake_all_list: "lh_list (wlists s) q (w @ r) \<Longrightarrow> lh_list (wlists (wake_all w s)) q r"
proof (induction w arbitrary: s)
  case (Cons e w)
  then have "lh_list (wlists (snd (call_wake_func e s))) q (w @ r)"
    using lh.repr_unlink [of "wlists s" q "[]" e "w @ r"] by simp
  then show ?case using Cons.IH by simp
qed simp

lemma wake_all_ents:
  "we_thd (wents (wake_all w s) f) = we_thd (wents s f)" "we_wq (wents (wake_all w s) f) = we_wq (wents s f)"
  "f \<notin> set w \<Longrightarrow> wents (wake_all w s) f = wents s f"
  by (induction w arbitrary: s) auto

lemma unblock_state: "thd_state (unblock h t b u) = (if u = t then PS_RUNNING else thd_state (h u))"
  by (simp add: unblock_def thread_set_state_def)

lemma wake_all_state:
  "thd_state (wthds (wake_all w s) t) = (if t \<in> (\<lambda>e. we_thd (wents s e)) ` set w then PS_RUNNING else thd_state (wthds s t))"
  by (induction w arbitrary: s) (auto simp: unblock_state)

lemma lh_del_init_other:
  assumes "lh_list h q (xs @ e # ys)" "lh_list h q' zs" "set (q # xs @ e # ys) \<inter> set (q' # zs) = {}"
  shows "lh_list (lh_del_init h e) q' zs"
proof -
  have p: "lh_prev h e = last (q # xs)" "lh_next h e = hd (ys @ [q])" using lh_del_between_list [OF assms(1)] by simp_all
  have "last (q # xs) \<in> set (q # xs)" by (rule last_in_set) simp
  then have m: "last (q # xs) \<in> set (q # xs @ e # ys)" by auto
  have m2: "hd (ys @ [q]) \<in> set (q # xs @ e # ys)" by (cases ys) auto
  show ?thesis
  proof (rule lh_list_frame [THEN iffD2, OF _ assms(2)], intro ballI)
    fix p assume "p \<in> insert q' (set zs)"
    then have "p \<noteq> last (q # xs)" "p \<noteq> hd (ys @ [q])" "p \<noteq> e" using assms(3) m m2 by auto
    then show "lh_next (lh_del_init h e) p = lh_next h p \<and> lh_prev (lh_del_init h e) p = lh_prev h p"
      using p by (simp add: lh_del_init_def lh_del_def lh_init_def lh_del_between_def)
  qed
qed

lemma wake_all_other:
  assumes "lh_list (wlists s) q (w @ r)" "lh_list (wlists s) q' zs" "set (q # w @ r) \<inter> set (q' # zs) = {}"
  shows "lh_list (wlists (wake_all w s)) q' zs"
  using assms
proof (induction w arbitrary: s)
  case (Cons e w)
  have "lh_list (wlists (snd (call_wake_func e s))) q (w @ r)"
    using lh.repr_unlink [of "wlists s" q "[]" e "w @ r"] Cons.prems(1) by simp
  moreover have "lh_list (wlists (snd (call_wake_func e s))) q' zs"
    using lh_del_init_other [of "wlists s" q "[]" e "w @ r" q' zs] Cons.prems by simp
  ultimately show ?case using Cons.IH Cons.prems(3) by auto
qed simp

end
