(* ===== verification/Wait_Safe.thy ===== *)
theory Wait_Safe
  imports Wait
begin

text \<open>
  No wakeup is lost. The invariant \<open>wait_ok\<close> relates all wait queues of a store to lists of entries
  and says where every entry in use is; each operation keeps it, so it holds in every reachable
  store (\<open>wait_reachable_ok\<close>).
\<close>

section \<open>No wakeup is lost\<close>

text \<open>
  \<open>wait_ok Q s es\<close>: each queue \<open>q\<close> of \<open>Q\<close> holds the entries \<open>es q\<close>, and an entry that is bound to
  a queue is in it unless its thread has been made runnable.
\<close>

definition wait_ok :: "ptr set \<Rightarrow> wait_store \<Rightarrow> (ptr \<Rightarrow> ptr list) \<Rightarrow> bool" where
  "wait_ok Q s es \<longleftrightarrow>
     (\<forall>q \<in> Q. lh_list (wlists s) q (es q))
     \<and> (\<forall>q \<in> Q. \<forall>q' \<in> Q. q \<noteq> q' \<longrightarrow> set (q # es q) \<inter> set (q' # es q') = {})
     \<and> (\<forall>q \<in> Q. \<forall>e \<in> set (es q). we_wq (wents s e) = Some q)
     \<and> (\<forall>e q. we_wq (wents s e) = Some q \<longrightarrow>
          q \<in> Q \<and> e \<notin> Q \<and> (e \<in> set (es q)
            \<or> thd_state (wthds s (we_thd (wents s e))) = PS_RUNNING \<and> lh_is_empty_careful (wlists s) e))"

definition bound_thread :: "wait_store \<Rightarrow> ptr \<Rightarrow> bool" where
  "bound_thread s t \<longleftrightarrow> (\<exists>e q. we_wq (wents s e) = Some q \<and> we_thd (wents s e) = t)"

lemma lh_add_between_frame:
  assumes "p \<noteq> n" "p \<noteq> a" "p \<noteq> b"
  shows "lh_next (lh_add_between h n a b) p = lh_next h p" "lh_prev (lh_add_between h n a b) p = lh_prev h p"
  using assms by (simp_all add: lh_add_between_def)

lemma lh_add_other:
  assumes "lh_list h q xs" "lh_list h q' zs" "set (q # xs) \<inter> set (q' # zs) = {}" "e \<notin> set (q' # zs)"
  shows "lh_list (lh_add h q e) q' zs" "lh_list (lh_add_tail h q e) q' zs"
proof -
  have a: "lh_next h q \<in> set (q # xs)" using lh_list_next [OF assms(1)] by (cases xs) auto
  have b: "lh_prev h q \<in> set (q # xs)" using lh_list_prev [OF assms(1)] last_in_set [of "q # xs"] by simp
  have "p \<noteq> e \<and> p \<noteq> q \<and> p \<noteq> lh_next h q \<and> p \<noteq> lh_prev h q" if "p \<in> insert q' (set zs)" for p
    using that assms(3, 4) a b by auto
  then show "lh_list (lh_add h q e) q' zs" "lh_list (lh_add_tail h q e) q' zs"
    by (auto intro!: lh_list_frame [THEN iffD2, OF _ assms(2)] simp: lh_add_def lh_add_tail_def lh_add_between_frame)
qed

lemma self_linked_other:
  assumes "lh_list h q xs" "f \<notin> set (q # xs)" "f \<noteq> e"
  shows "lh_is_empty_careful (lh_add h q e) f = lh_is_empty_careful h f"
    "lh_is_empty_careful (lh_add_tail h q e) f = lh_is_empty_careful h f"
proof -
  have a: "lh_next h q \<in> set (q # xs)" using lh_list_next [OF assms(1)] by (cases xs) auto
  have b: "lh_prev h q \<in> set (q # xs)" using lh_list_prev [OF assms(1)] last_in_set [of "q # xs"] by simp
  have "f \<noteq> q \<and> f \<noteq> lh_next h q \<and> f \<noteq> lh_prev h q" using assms(2) a b by auto
  then show "lh_is_empty_careful (lh_add h q e) f = lh_is_empty_careful h f"
    "lh_is_empty_careful (lh_add_tail h q e) f = lh_is_empty_careful h f"
    using assms(3) by (auto simp: lh_is_empty_careful_def lh_add_def lh_add_tail_def lh_add_between_frame)
qed

lemma self_linked_del:
  assumes "lh_list h q (xs @ e # ys)" "f \<notin> set (q # xs @ e # ys)"
  shows "lh_is_empty_careful (lh_del_init h e) f = lh_is_empty_careful h f"
proof -
  have p: "lh_prev h e = last (q # xs)" "lh_next h e = hd (ys @ [q])" using lh_del_between_list [OF assms(1)] by simp_all
  have "last (q # xs) \<in> set (q # xs)" by (rule last_in_set) simp
  moreover have "hd (ys @ [q]) \<in> set (q # ys)" by (cases ys) auto
  ultimately have "f \<noteq> last (q # xs)" "f \<noteq> hd (ys @ [q])" "f \<noteq> e" using assms(2) by auto
  then show ?thesis using p
    by (simp add: lh_is_empty_careful_def lh_del_init_def lh_del_def lh_init_def lh_del_between_def)
qed

lemma self_linked_del_self: "lh_is_empty_careful (lh_del_init h e) e"
  by (simp add: lh_is_empty_careful_def lh_del_init_def lh_init_def)

lemma wait_ok_disjoint:
  "wait_ok Q s es \<Longrightarrow> q \<in> Q \<Longrightarrow> q' \<in> Q \<Longrightarrow> q \<noteq> q' \<Longrightarrow> set (q # es q) \<inter> set (q' # es q') = {}"
  unfolding wait_ok_def by blast

lemma wait_ok_list: "wait_ok Q s es \<Longrightarrow> q \<in> Q \<Longrightarrow> lh_list (wlists s) q (es q)"
  unfolding wait_ok_def by blast

lemma wait_ok_bound: "wait_ok Q s es \<Longrightarrow> q \<in> Q \<Longrightarrow> e \<in> set (es q) \<Longrightarrow> we_wq (wents s e) = Some q"
  unfolding wait_ok_def by blast

lemma wait_ok_entry:
  assumes "wait_ok Q s es" "we_wq (wents s e) = Some q"
  shows "q \<in> Q" "e \<notin> Q"
    "e \<in> set (es q) \<or> thd_state (wthds s (we_thd (wents s e))) = PS_RUNNING \<and> lh_is_empty_careful (wlists s) e"
  using assms unfolding wait_ok_def by blast+

lemma wait_okI:
  assumes "\<And>q. q \<in> Q \<Longrightarrow> lh_list (wlists s) q (es q)"
    "\<And>q q'. q \<in> Q \<Longrightarrow> q' \<in> Q \<Longrightarrow> q \<noteq> q' \<Longrightarrow> set (q # es q) \<inter> set (q' # es q') = {}"
    "\<And>q e. q \<in> Q \<Longrightarrow> e \<in> set (es q) \<Longrightarrow> we_wq (wents s e) = Some q"
    "\<And>e q. we_wq (wents s e) = Some q \<Longrightarrow> q \<in> Q \<and> e \<notin> Q \<and> (e \<in> set (es q)
       \<or> thd_state (wthds s (we_thd (wents s e))) = PS_RUNNING \<and> lh_is_empty_careful (wlists s) e)"
  shows "wait_ok Q s es"
  unfolding wait_ok_def using assms by blast

lemma disjoint_subsets:
  assumes "set (q # xs) \<inter> set (q' # ys) = {}" "set xs' \<subseteq> set xs" "set ys' \<subseteq> set ys"
  shows "set (q # xs') \<inter> set (q' # ys') = {}"
proof -
  have "set (q # xs') \<subseteq> set (q # xs)" "set (q' # ys') \<subseteq> set (q' # ys)" using assms(2, 3) by auto
  then show ?thesis using assms(1) by blast
qed

text \<open>Waking one entry.\<close>

lemma call_wake_func_ok:
  assumes ok: "wait_ok Q s es" and q: "q \<in> Q" "es q = xs @ e # ys"
  shows "wait_ok Q (snd (call_wake_func e s)) (es(q := xs @ ys))"
proof -
  let ?s = "snd (call_wake_func e s)" and ?es = "es(q := xs @ ys)"
  have lq: "lh_list (wlists s) q (xs @ e # ys)" using wait_ok_list [OF ok q(1)] q(2) by simp
  have sub: "set (?es j) \<subseteq> set (es j)" for j using q(2) by auto
  show ?thesis
  proof (rule wait_okI)
    fix k assume k: "k \<in> Q"
    show "lh_list (wlists ?s) k (?es k)"
    proof (cases "k = q")
      case True
      then show ?thesis using lh_del_init_list [OF lq] by simp
    next
      case False
      then have "set (q # xs @ e # ys) \<inter> set (k # es k) = {}" using wait_ok_disjoint [OF ok q(1) k] q(2) by simp
      then show ?thesis using False lh_del_init_other [OF lq wait_ok_list [OF ok k]] by simp
    qed
  next
    fix k k' assume "k \<in> Q" "k' \<in> Q" "k \<noteq> k'"
    then show "set (k # ?es k) \<inter> set (k' # ?es k') = {}"
      by (rule disjoint_subsets [OF wait_ok_disjoint [OF ok] sub sub])
  next
    fix k f assume "k \<in> Q" "f \<in> set (?es k)"
    then show "we_wq (wents ?s f) = Some k" using wait_ok_bound [OF ok, of k f] sub [of k] by auto
  next
    fix f k assume "we_wq (wents ?s f) = Some k"
    then have b: "we_wq (wents s f) = Some k" by simp
    note w = wait_ok_entry [OF ok b]
    have st: "thd_state (wthds s t) = PS_RUNNING \<Longrightarrow> thd_state (wthds ?s t) = PS_RUNNING" for t
      by (simp add: unblock_state)
    consider "f = e" | "f \<noteq> e" "f \<in> set (es k)" | "f \<noteq> e" "f \<notin> set (es k)" by blast
    then show "k \<in> Q \<and> f \<notin> Q \<and> (f \<in> set (?es k)
       \<or> thd_state (wthds ?s (we_thd (wents ?s f))) = PS_RUNNING \<and> lh_is_empty_careful (wlists ?s) f)"
    proof cases
      case 1
      then show ?thesis using w(1, 2) self_linked_del_self by (simp add: unblock_state)
    next
      case 2
      then show ?thesis using w(1, 2) q by auto
    next
      case 3
      have "f \<notin> set (es q)"
      proof
        assume f: "f \<in> set (es q)"
        then have "k = q" using b wait_ok_bound [OF ok q(1) f] by simp
        then show False using f 3 by simp
      qed
      then have "f \<notin> set (q # xs @ e # ys)" using w(2) q by auto
      then show ?thesis using w 3 self_linked_del [OF lq, of f] st by simp
    qed
  qed
qed

lemma wake_all_ok:
  "wait_ok Q s es \<Longrightarrow> q \<in> Q \<Longrightarrow> es q = w @ r \<Longrightarrow> wait_ok Q (wake_all w s) (es(q := r))"
proof (induction w arbitrary: s es)
  case Nil
  then have "es(q := r) = es" by auto
  then show ?case using Nil by simp
next
  case (Cons e w)
  have "wait_ok Q (snd (call_wake_func e s)) (es(q := w @ r))"
    using call_wake_func_ok [of Q s es q "[]" e "w @ r"] Cons.prems by simp
  from Cons.IH [OF this Cons.prems(2)] show ?case by (simp only: wake_all_simps fun_upd_upd fun_upd_same)
qed

lemma wait_ok_woke: "wait_ok Q (s\<lparr>woke_someone_up := b\<rparr>) es = wait_ok Q s es"
  by (simp add: wait_ok_def)

lemma wake_up_common_wait_ok:
  assumes "wait_ok Q s es" "q \<in> Q" "wake_split (exclusive_entry s) nr (es q) = (w, r)"
  shows "\<exists>s'. wake_up_common q nr s = Some s' \<and> wait_ok Q s' (es(q := r)) \<and> wthds s' = wthds (wake_all w s)
           \<and> wents s' = wents (wake_all w s)"
proof -
  have l: "lh_list (wlists s) q (es q)" using assms(1, 2) by (rule wait_ok_list)
  have a: "es q = w @ r" using wake_split_append [OF assms(3)] .
  define s' where "s' = (if w = [] then s else (wake_all w s)\<lparr>woke_someone_up := True\<rparr>)"
  have "wait_ok Q (wake_all w s) (es(q := r))" using wake_all_ok [OF assms(1, 2) a] .
  then have "wait_ok Q s' (es(q := r))" by (cases "w = []") (simp_all add: s'_def wait_ok_woke)
  moreover have "wake_up_common q nr s = Some s'" using wake_up_common_ok [OF l assms(3)] by (simp only: s'_def)
  moreover have "wthds s' = wthds (wake_all w s)" "wents s' = wents (wake_all w s)" by (simp_all add: s'_def)
  ultimately show ?thesis by blast
qed

lemma thread_set_state_state: "thd_state (thread_set_state h t st u) = (if u = t then st else thd_state (h u))"
  by (simp add: thread_set_state_def)

text \<open>
  Linking an entry: \<open>link\<close> adds it at one of the two ends. Only entries of the waiting thread may
  be bound otherwise, and they are in their queues.
\<close>

lemma wait_link_ok:
  assumes ok: "wait_ok Q s es" and q: "q \<in> Q" and e: "e \<notin> Q" "we_wq (wents s e) = None"
    and link: "xs = e # es q \<and> h' = lh_add (wlists s) q e \<or> xs = es q @ [e] \<and> h' = lh_add_tail (wlists s) q e"
    and ents: "wents s' = (wents s)(e := w)" "we_wq w = Some q"
    and lists: "wlists s' = h'"
    and run: "\<And>f k. f \<noteq> e \<Longrightarrow> we_wq (wents s f) = Some k \<Longrightarrow> f \<notin> set (es k) \<Longrightarrow>
                thd_state (wthds s' (we_thd (wents s f))) = PS_RUNNING"
  shows "wait_ok Q s' (es(q := xs))"
proof -
  have ne: "e \<notin> set (k # es k)" if "k \<in> Q" for k using wait_ok_bound [OF ok that, of e] e that by auto
  have set: "set xs = insert e (set (es q))" using link by auto
  have lq: "lh_list (wlists s) q (es q)" using wait_ok_list [OF ok q] .
  show ?thesis
  proof (rule wait_okI)
    fix k assume k: "k \<in> Q"
    show "lh_list (wlists s') k ((es(q := xs)) k)"
    proof (cases "k = q")
      case True
      then show ?thesis using lh_add_list [OF lq ne [OF q]] lh_add_tail_list [OF lq ne [OF q]] link lists by auto
    next
      case False
      then have "set (q # es q) \<inter> set (k # es k) = {}" using wait_ok_disjoint [OF ok q k] by simp
      from lh_add_other [OF lq wait_ok_list [OF ok k] this ne [OF k]] show ?thesis using link lists False by auto
    qed
  next
    fix k k' assume k: "k \<in> Q" "k' \<in> Q" "k \<noteq> k'"
    have sub: "set (j # (es(q := xs)) j) \<subseteq> insert e (set (j # es j))" and keep: "j \<noteq> q \<Longrightarrow> (es(q := xs)) j = es j" for j
      using set by auto
    have "set (k # es k) \<inter> set (k' # es k') = {}" using wait_ok_disjoint [OF ok k] .
    then show "set (k # (es(q := xs)) k) \<inter> set (k' # (es(q := xs)) k') = {}"
      using sub [of k] sub [of k'] keep [of k] keep [of k'] ne [OF k(1)] ne [OF k(2)] k(3) by (cases "k = q") auto
  next
    fix k f assume "k \<in> Q" "f \<in> set ((es(q := xs)) k)"
    then show "we_wq (wents s' f) = Some k"
      using wait_ok_bound [OF ok, of k f] ents set ne by (auto split: if_splits)
  next
    fix f k assume b: "we_wq (wents s' f) = Some k"
    show "k \<in> Q \<and> f \<notin> Q \<and> (f \<in> set ((es(q := xs)) k)
       \<or> thd_state (wthds s' (we_thd (wents s' f))) = PS_RUNNING \<and> lh_is_empty_careful (wlists s') f)"
    proof (cases "f = e")
      case True
      then show ?thesis using b ents q e(1) set by auto
    next
      case False
      then have b': "we_wq (wents s f) = Some k" and w: "wents s' f = wents s f" using b ents by auto
      note en = wait_ok_entry [OF ok b']
      show ?thesis
      proof (cases "f \<in> set (es k)")
        case True
        then show ?thesis using en(1, 2) set by auto
      next
        case nf: False
        have "f \<notin> set (es q)" using nf b' wait_ok_bound [OF ok q, of f] by auto
        then have "f \<notin> set (q # es q)" using en(2) q by auto
        from self_linked_other [OF lq this False] have "lh_is_empty_careful (wlists s') f"
          using nf en(3) link lists by auto
        then show ?thesis using en(1, 2) run [OF False b' nf] w by simp
      qed
    qed
  qed
qed

lemma prepare_to_wait_ok:
  assumes ok: "wait_ok Q s es" and "q \<in> Q" "e \<notin> Q" "we_wq (wents s e) = None" "\<not> bound_thread s t"
  shows "wait_ok Q (prepare_to_wait t q e st s) (es(q := e # es q))"
    and "wait_ok Q (prepare_to_wait_exclusive t q e st s) (es(q := es q @ [e]))"
proof -
  have run: "thd_state (thread_set_state (wthds s) t st (we_thd (wents s f))) = PS_RUNNING"
    if "we_wq (wents s f) = Some k" "f \<notin> set (es k)" for f k
  proof -
    have "we_thd (wents s f) \<noteq> t" using that(1) assms(5) unfolding bound_thread_def by blast
    then show ?thesis using wait_ok_entry(3) [OF ok that(1)] that(2) by (simp add: thread_set_state_state)
  qed
  show "wait_ok Q (prepare_to_wait t q e st s) (es(q := e # es q))"
    by (rule wait_link_ok [OF ok assms(2-4)]) (auto simp: prepare_to_wait_def Let_def wq_set_state_def run)
  show "wait_ok Q (prepare_to_wait_exclusive t q e st s) (es(q := es q @ [e]))"
    by (rule wait_link_ok [OF ok assms(2-4)]) (auto simp: prepare_to_wait_exclusive_def Let_def wq_set_state_def run)
qed

text \<open>Finishing: the entry leaves its queue and its thread runs.\<close>

lemma wq_finish_ok:
  assumes ok: "wait_ok Q s es" and b: "we_wq (wents s e) = Some q"
  shows "\<exists>s'. wq_finish q e s = Some s' \<and> wait_ok Q s' (es(q := remove1 e (es q)))"
proof -
  note en = wait_ok_entry [OF ok b]
  have lq: "lh_list (wlists s) q (es q)" using wait_ok_list [OF ok en(1)] .
  have d: "distinct (es q)" using lh_list_distinct [OF lq] by simp
  have empty: "lh_is_empty_careful (wlists s) e \<longleftrightarrow> e \<notin> set (es q)"
  proof
    assume a: "lh_is_empty_careful (wlists s) e"
    show "e \<notin> set (es q)"
    proof
      assume "e \<in> set (es q)"
      then obtain xs ys where x: "es q = xs @ e # ys" by (meson split_list)
      have "lh_next (wlists s) e = hd (ys @ [q])" using lh_del_between_list(2) lq x by metis
      moreover have "hd (ys @ [q]) \<in> set (q # ys)" by (cases ys) auto
      moreover have "e \<noteq> q" "e \<notin> set ys" using lh_list_distinct [OF lq] x by auto
      ultimately show False using a by (auto simp: lh_is_empty_careful_def Let_def)
    qed
  next
    assume "e \<notin> set (es q)"
    then show "lh_is_empty_careful (wlists s) e" using en(3) by blast
  qed
  define s1 where "s1 = wq_set_state (we_thd (wents s e)) PS_RUNNING s"
  define s2 where "s2 = (if lh_is_empty_careful (wlists s1) e then s1 else s1\<lparr>wlists := lh_del_init (wlists s1) e\<rparr>)"
  define s' where "s' = upd_ent e (\<lambda>w. w\<lparr>we_wq := None\<rparr>) s2"
  have sel: "wents s' = (wents s)(e := (wents s e)\<lparr>we_wq := None\<rparr>)" "wthds s' = thread_set_state (wthds s) (we_thd (wents s e)) PS_RUNNING"
    "wlists s' = (if e \<in> set (es q) then lh_del_init (wlists s) e else wlists s)"
    using empty by (auto simp: s'_def s2_def s1_def wq_set_state_def)
  have fin: "wq_finish q e s = Some s'" using b by (simp add: wq_finish_def s'_def s2_def s1_def Let_def)
  have sub: "set ((es(q := remove1 e (es q))) j) \<subseteq> set (es j)" for j using set_remove1_subset [of e "es q"] by auto
  have "wait_ok Q s' (es(q := remove1 e (es q)))"
  proof (rule wait_okI)
    fix k assume k: "k \<in> Q"
    show "lh_list (wlists s') k ((es(q := remove1 e (es q))) k)"
    proof (cases "e \<in> set (es q)")
      case True
      then obtain xs ys where x: "es q = xs @ e # ys" by (meson split_list)
      then have l2: "lh_list (wlists s) q (xs @ e # ys)" using lq by simp
      show ?thesis
      proof (cases "k = q")
        case kq: True
        then show ?thesis using lh.repr_unlink_member [OF lq True] sel(3) True by simp
      next
        case False
        then have "set (q # xs @ e # ys) \<inter> set (k # es k) = {}" using wait_ok_disjoint [OF ok en(1) k] x by simp
        then show ?thesis using False True sel(3) lh_del_init_other [OF l2 wait_ok_list [OF ok k]] by simp
      qed
    next
      case False
      then show ?thesis using wait_ok_list [OF ok k] sel(3) by (simp add: remove1_idem)
    qed
  next
    fix k k' assume "k \<in> Q" "k' \<in> Q" "k \<noteq> k'"
    then show "set (k # (es(q := remove1 e (es q))) k) \<inter> set (k' # (es(q := remove1 e (es q))) k') = {}"
      by (rule disjoint_subsets [OF wait_ok_disjoint [OF ok] sub sub])
  next
    fix k f assume f: "k \<in> Q" "f \<in> set ((es(q := remove1 e (es q))) k)"
    have "f \<noteq> e"
    proof
      assume "f = e"
      then have "e \<in> set (es k)" using f sub by blast
      then have "k = q" using wait_ok_bound [OF ok f(1)] b by auto
      then show False using f \<open>f = e\<close> d by auto
    qed
    moreover have "we_wq (wents s f) = Some k" using wait_ok_bound [OF ok f(1)] f(2) sub by blast
    ultimately show "we_wq (wents s' f) = Some k" using sel(1) by simp
  next
    fix f k assume b': "we_wq (wents s' f) = Some k"
    then have ne: "f \<noteq> e" and bs: "we_wq (wents s f) = Some k" using sel(1) by (auto split: if_splits)
    note ef = wait_ok_entry [OF ok bs]
    show "k \<in> Q \<and> f \<notin> Q \<and> (f \<in> set ((es(q := remove1 e (es q))) k)
       \<or> thd_state (wthds s' (we_thd (wents s' f))) = PS_RUNNING \<and> lh_is_empty_careful (wlists s') f)"
    proof (cases "f \<in> set (es k)")
      case True
      then show ?thesis using ef(1, 2) ne by (cases "k = q") (auto simp: in_set_remove1)
    next
      case False
      have "f \<notin> set (es q)" using False bs wait_ok_bound [OF ok en(1), of f] by auto
      moreover have "lh_is_empty_careful (wlists s) f" using ef(3) False by blast
      ultimately have "lh_is_empty_careful (wlists s') f"
      proof (cases "e \<in> set (es q)")
        case True
        then obtain xs ys where x: "es q = xs @ e # ys" by (meson split_list)
        then have l2: "lh_list (wlists s) q (xs @ e # ys)" using lq by simp
        have "f \<notin> set (q # xs @ e # ys)" using \<open>f \<notin> set (es q)\<close> x ef(2) en(1) by auto
        from self_linked_del [OF l2 this] show ?thesis using True sel(3) \<open>lh_is_empty_careful (wlists s) f\<close> by simp
      qed (use sel(3) in simp)
      then show ?thesis using ef(1, 2) ef(3) False sel(1, 2) ne by (auto simp: thread_set_state_state)
    qed
  qed
  then show ?thesis using fin by blast
qed

text \<open>A thread becomes runnable.\<close>

lemma unblock_ok:
  assumes ok: "wait_ok Q s es"
  shows "wait_ok Q (s\<lparr>wthds := unblock (wthds s) t b\<rparr>) es"
proof (rule wait_okI)
  fix e q assume "we_wq (wents (s\<lparr>wthds := unblock (wthds s) t b\<rparr>) e) = Some q"
  then have "we_wq (wents s e) = Some q" by simp
  from wait_ok_entry [OF ok this] show "q \<in> Q \<and> e \<notin> Q \<and> (e \<in> set (es q)
      \<or> thd_state (wthds (s\<lparr>wthds := unblock (wthds s) t b\<rparr>) (we_thd (wents (s\<lparr>wthds := unblock (wthds s) t b\<rparr>) e))) = PS_RUNNING
        \<and> lh_is_empty_careful (wlists (s\<lparr>wthds := unblock (wthds s) t b\<rparr>)) e)"
    by (auto simp: unblock_state)
qed (use wait_ok_list [OF ok] wait_ok_disjoint [OF ok] wait_ok_bound [OF ok] in simp_all)

text \<open>A new entry.\<close>

lemma wait_entry_new_ok:
  assumes ok: "wait_ok Q s es" and e: "e \<notin> Q" "we_wq (wents s e) = None"
  shows "wait_ok Q (wait_entry_new t e s) es"
proof -
  let ?s = "wait_entry_new t e s"
  have ne: "e \<notin> set (k # es k)" if "k \<in> Q" for k using wait_ok_bound [OF ok that, of e] e that by auto
  have h: "p \<noteq> e \<Longrightarrow> lh_next (wlists ?s) p = lh_next (wlists s) p \<and> lh_prev (wlists ?s) p = lh_prev (wlists s) p" for p
    by (simp add: wait_entry_new_def lh_init_def)
  show ?thesis
  proof (rule wait_okI)
    fix k assume k: "k \<in> Q"
    show "lh_list (wlists ?s) k (es k)"
    proof (rule lh_list_frame [THEN iffD2, OF _ wait_ok_list [OF ok k]], intro ballI)
      fix p assume "p \<in> insert k (set (es k))"
      then have "p \<noteq> e" using ne [OF k] by auto
      then show "lh_next (wlists ?s) p = lh_next (wlists s) p \<and> lh_prev (wlists ?s) p = lh_prev (wlists s) p" by (rule h)
    qed
  next
    fix k f assume k: "k \<in> Q" "f \<in> set (es k)"
    then have "f \<noteq> e" using ne by auto
    then show "we_wq (wents ?s f) = Some k" using wait_ok_bound [OF ok k] by (simp add: wait_entry_new_def)
  next
    fix f k assume b: "we_wq (wents ?s f) = Some k"
    then have fe: "f \<noteq> e" and bs: "we_wq (wents s f) = Some k" by (auto simp: wait_entry_new_def split: if_splits)
    have "lh_is_empty_careful (wlists ?s) f = lh_is_empty_careful (wlists s) f"
      using h [OF fe] by (simp add: lh_is_empty_careful_def)
    then show "k \<in> Q \<and> f \<notin> Q \<and> (f \<in> set (es k)
       \<or> thd_state (wthds ?s (we_thd (wents ?s f))) = PS_RUNNING \<and> lh_is_empty_careful (wlists ?s) f)"
      using wait_ok_entry [OF ok bs] fe by (simp add: wait_entry_new_def)
  qed (rule wait_ok_disjoint [OF ok])
qed

text \<open>Waiting on several queues is: change the state, then bind and link one entry after the other.\<close>

definition multi_bind_one :: "bool \<Rightarrow> ptr \<times> ptr \<Rightarrow> wait_store \<Rightarrow> wait_store" where
  "multi_bind_one x qe s = upd_ent (snd qe) (\<lambda>w. w\<lparr>we_wq := Some (fst qe), we_func := Multi_wait,
     we_flags := (if x then WQ_FLAG_EXCLUSIVE else we_flags w)\<rparr>) s"

definition multi_link_one :: "ptr \<times> ptr \<Rightarrow> wait_store \<Rightarrow> wait_store" where
  "multi_link_one qe s = s\<lparr>wlists := lh_add (wlists s) (fst qe) (snd qe)\<rparr>"

lemma multi_link_bind: "multi_link_one a (multi_bind_one x b s) = multi_bind_one x b (multi_link_one a s)"
  by (simp add: multi_link_one_def multi_bind_one_def upd_ent_def)

lemma multi_link_binds: "multi_link_one a (fold (multi_bind_one x) qes s) = fold (multi_bind_one x) qes (multi_link_one a s)"
  by (induction qes arbitrary: s) (simp_all add: multi_link_bind)

lemma multi_state_bind: "wq_set_state t st (multi_bind_one x b s) = multi_bind_one x b (wq_set_state t st s)"
  by (cases s) (simp add: multi_bind_one_def upd_ent_def wq_set_state_def)

lemma multi_state_binds:
  "wq_set_state t st (fold (multi_bind_one x) qes s) = fold (multi_bind_one x) qes (wq_set_state t st s)"
  by (induction qes arbitrary: s) (simp_all add: multi_state_bind)

lemma multi_links_binds:
  "fold multi_link_one qes (fold (multi_bind_one x) qes s) = fold (\<lambda>qe s. multi_link_one qe (multi_bind_one x qe s)) qes s"
  by (induction qes arbitrary: s) (simp_all add: multi_link_binds)

lemma multi_wait_begin_eq:
  "multi_wait_begin t x qes s =
     fold (\<lambda>qe s. multi_link_one qe (multi_bind_one x qe s)) qes (wq_set_state t PS_INTERRUPTIBLE s)"
proof -
  have "(\<lambda>(q, e). upd_ent e (\<lambda>w. w\<lparr>we_wq := Some q, we_func := Multi_wait,
          we_flags := (if x then WQ_FLAG_EXCLUSIVE else we_flags w)\<rparr>)) = multi_bind_one x"
    by (auto simp: fun_eq_iff multi_bind_one_def)
  then have "multi_wait_bind x qes s = fold (multi_bind_one x) qes s" by (simp add: multi_wait_bind_def)
  moreover have "multi_wait_link qes s = fold multi_link_one qes s" for s
  proof -
    have "(\<lambda>(q, e) s. s\<lparr>wlists := lh_add (wlists s) q e\<rparr>) = multi_link_one" by (auto simp: fun_eq_iff multi_link_one_def)
    then show ?thesis by (simp add: multi_wait_link_def)
  qed
  ultimately show ?thesis by (simp add: multi_wait_begin_def multi_state_binds multi_links_binds)
qed

lemma multi_links_ok:
  assumes "wait_ok Q s es" "\<forall>(q, e) \<in> set qes. q \<in> Q \<and> e \<notin> Q \<and> we_wq (wents s e) = None" "distinct (map snd qes)"
  shows "\<exists>es'. wait_ok Q (fold (\<lambda>qe s. multi_link_one qe (multi_bind_one x qe s)) qes s) es'"
  using assms
proof (induction qes arbitrary: s es)
  case (Cons qe qes)
  obtain q e where qe: "qe = (q, e)" by fastforce
  let ?s = "multi_link_one qe (multi_bind_one x qe s)"
  have e: "q \<in> Q" "e \<notin> Q" "we_wq (wents s e) = None" using Cons.prems(2) qe by auto
  have ok: "wait_ok Q ?s (es(q := e # es q))"
  proof (rule wait_link_ok [OF Cons.prems(1) e])
    fix f k assume "we_wq (wents s f) = Some k" "f \<notin> set (es k)"
    then show "thd_state (wthds ?s (we_thd (wents s f))) = PS_RUNNING"
      using wait_ok_entry(3) [OF Cons.prems(1), of f k] by (simp add: multi_link_one_def multi_bind_one_def)
  qed (auto simp: qe multi_link_one_def multi_bind_one_def)
  moreover have "\<forall>(q, e) \<in> set qes. q \<in> Q \<and> e \<notin> Q \<and> we_wq (wents ?s e) = None"
    using Cons.prems(2, 3) qe by (force simp: multi_link_one_def multi_bind_one_def)
  ultimately show ?case using Cons.IH [of ?s] Cons.prems(3) by simp
qed auto

lemma set_state_ok:
  assumes ok: "wait_ok Q s es" and t: "\<not> bound_thread s t"
  shows "wait_ok Q (wq_set_state t st s) es"
proof (rule wait_okI)
  fix e q assume "we_wq (wents (wq_set_state t st s) e) = Some q"
  then have b: "we_wq (wents s e) = Some q" by (simp add: wq_set_state_def)
  then have "we_thd (wents s e) \<noteq> t" using t unfolding bound_thread_def by blast
  then show "q \<in> Q \<and> e \<notin> Q \<and> (e \<in> set (es q)
      \<or> thd_state (wthds (wq_set_state t st s) (we_thd (wents (wq_set_state t st s) e))) = PS_RUNNING
        \<and> lh_is_empty_careful (wlists (wq_set_state t st s)) e)"
    using wait_ok_entry [OF ok b] by (simp add: wq_set_state_def thread_set_state_state)
qed (use wait_ok_list [OF ok] wait_ok_disjoint [OF ok] wait_ok_bound [OF ok] in \<open>simp_all add: wq_set_state_def\<close>)

lemma multi_wait_begin_ok:
  assumes "wait_ok Q s es" "\<not> bound_thread s t" "distinct (map snd qes)"
    "\<forall>(q, e) \<in> set qes. q \<in> Q \<and> e \<notin> Q \<and> we_wq (wents s e) = None"
  shows "\<exists>es'. wait_ok Q (multi_wait_begin t x qes s) es'"
proof -
  have "\<forall>(q, e) \<in> set qes. q \<in> Q \<and> e \<notin> Q \<and> we_wq (wents (wq_set_state t PS_INTERRUPTIBLE s) e) = None"
    using assms(4) by (simp add: wq_set_state_def)
  from multi_links_ok [OF set_state_ok [OF assms(1, 2)] this assms(3)] show ?thesis
    by (simp only: multi_wait_begin_eq)
qed

section \<open>Steps\<close>

text \<open>
  What the kernel does with the wait queues \<open>Q\<close>: a thread makes an entry on its stack, waits when
  it has no other entry in use, on one queue or on several, and finishes when it runs again; anyone may wake a queue or
  interrupt a thread.
\<close>

inductive wait_step :: "ptr set \<Rightarrow> wait_store \<Rightarrow> wait_store \<Rightarrow> bool" for Q where
  ws_new: "e \<notin> Q \<Longrightarrow> we_wq (wents s e) = None \<Longrightarrow> wait_step Q s (wait_entry_new t e s)"
| ws_wait: "q \<in> Q \<Longrightarrow> e \<notin> Q \<Longrightarrow> \<not> bound_thread s t \<Longrightarrow> wq_wait t q e st s = Some s' \<Longrightarrow> wait_step Q s s'"
| ws_wait_exclusive: "q \<in> Q \<Longrightarrow> e \<notin> Q \<Longrightarrow> \<not> bound_thread s t \<Longrightarrow> wq_wait_exclusive t q e st s = Some s' \<Longrightarrow> wait_step Q s s'"
| ws_multi: "\<not> bound_thread s t \<Longrightarrow> distinct (map snd qes) \<Longrightarrow>
    \<forall>(q, e) \<in> set qes. q \<in> Q \<and> e \<notin> Q \<and> we_wq (wents s e) = None \<Longrightarrow> wait_step Q s (multi_wait_begin t x qes s)"
| ws_wake: "q \<in> Q \<Longrightarrow> wake_up_common q nr s = Some s' \<Longrightarrow> wait_step Q s s'"
| ws_finish: "wait_entry_destroy e s = Some s' \<Longrightarrow> wait_step Q s s'"
| ws_interrupt: "wait_step Q s (s\<lparr>wthds := thread_interrupt (wthds s) t\<rparr>)"

definition wait_init :: "ptr set \<Rightarrow> wait_store \<Rightarrow> bool" where
  "wait_init Q s \<longleftrightarrow> (\<forall>q \<in> Q. lh_list (wlists s) q []) \<and> (\<forall>e. we_wq (wents s e) = None)"

inductive wait_reachable :: "ptr set \<Rightarrow> wait_store \<Rightarrow> bool" for Q where
  wr_init: "wait_init Q s \<Longrightarrow> wait_reachable Q s"
| wr_step: "wait_reachable Q s \<Longrightarrow> wait_step Q s s' \<Longrightarrow> wait_reachable Q s'"

lemma wait_init_ok: "wait_init Q s \<Longrightarrow> wait_ok Q s (\<lambda>_. [])"
  by (rule wait_okI) (auto simp: wait_init_def)

lemma wait_step_ok:
  assumes "wait_step Q s s'" "wait_ok Q s es"
  shows "\<exists>es'. wait_ok Q s' es'"
  using assms
proof (induction rule: wait_step.induct)
  case (ws_new e s t)
  then show ?case using wait_entry_new_ok by blast
next
  case (ws_wait q e s t st s')
  then show ?case using prepare_to_wait_ok(1) [of Q s es q e t st] by (auto simp: wq_wait_def split: if_splits)
next
  case (ws_wait_exclusive q e s t st s')
  then show ?case using prepare_to_wait_ok(2) [of Q s es q e t st] by (auto simp: wq_wait_exclusive_def split: if_splits)
next
  case (ws_multi s t qes x)
  then show ?case using multi_wait_begin_ok by blast
next
  case (ws_wake q nr s s')
  then show ?case
    using wake_up_common_wait_ok [OF ws_wake(3, 1), of nr "fst (wake_split (exclusive_entry s) nr (es q))"
        "snd (wake_split (exclusive_entry s) nr (es q))"] by auto
next
  case (ws_finish e s s')
  then show ?case
  proof (cases "we_wq (wents s e)")
    case None
    then show ?thesis using ws_finish by (auto simp: wait_entry_destroy_def)
  next
    case (Some q)
    then show ?thesis using ws_finish wq_finish_ok [OF ws_finish(2) Some] by (auto simp: wait_entry_destroy_def)
  qed
next
  case (ws_interrupt s t)
  then show ?case using unblock_ok unfolding thread_interrupt_def by blast
qed

lemma wait_reachable_ok: "wait_reachable Q s \<Longrightarrow> \<exists>es. wait_ok Q s es"
  by (induction rule: wait_reachable.induct) (blast intro: wait_init_ok wait_step_ok)+

section \<open>Order of the waiters\<close>

text \<open>\<^verbatim>\<open>wait\<close> adds at the front and \<^verbatim>\<open>wait_exclusive\<close> at the back, so shared waiters come first.\<close>

definition shared_first :: "wait_store \<Rightarrow> ptr list \<Rightarrow> bool" where
  "shared_first s es \<longleftrightarrow> (\<exists>xs ys. es = xs @ ys \<and> (\<forall>e \<in> set xs. \<not> exclusive_entry s e) \<and> (\<forall>e \<in> set ys. exclusive_entry s e))"

lemma flag_excl: "(w AND - 2) AND (1 :: 32 word) = 0" "(w OR 1) AND (1 :: 32 word) = 1"
  by (simp_all add: and.assoc bit_eq_iff bit_simps)

lemma prepare_to_wait_order:
  assumes "shared_first s es" "e \<notin> set es"
  shows "shared_first (prepare_to_wait t q e st s) (e # es)"
    and "shared_first (prepare_to_wait_exclusive t q e st s) (es @ [e])"
proof -
  obtain xs ys where x: "es = xs @ ys" "\<forall>e \<in> set xs. \<not> exclusive_entry s e" "\<forall>e \<in> set ys. exclusive_entry s e"
    using assms(1) by (auto simp: shared_first_def)
  have keep: "exclusive_entry (prepare_to_wait t q e st s) f = exclusive_entry s f"
      "exclusive_entry (prepare_to_wait_exclusive t q e st s) f = exclusive_entry s f" if "f \<in> set es" for f
    using that assms(2) by (auto simp: exclusive_entry_def prepare_to_wait_def prepare_to_wait_exclusive_def Let_def wq_set_state_def)
  have "\<not> exclusive_entry (prepare_to_wait t q e st s) e" "exclusive_entry (prepare_to_wait_exclusive t q e st s) e"
    by (simp_all add: exclusive_entry_def prepare_to_wait_def prepare_to_wait_exclusive_def Let_def wq_set_state_def
        WQ_FLAG_EXCLUSIVE_def flag_excl)
  note new = this
  show "shared_first (prepare_to_wait t q e st s) (e # es)" unfolding shared_first_def
    by (rule exI [of _ "e # xs"], rule exI [of _ ys]) (use new(1) x keep(1) in auto)
  show "shared_first (prepare_to_wait_exclusive t q e st s) (es @ [e])" unfolding shared_first_def
    by (rule exI [of _ xs], rule exI [of _ "ys @ [e]"]) (use new(2) x keep(2) in auto)
qed

lemma wake_split_shared_first:
  assumes "shared_first s es"
  shows "\<exists>xs ys. es = xs @ ys \<and> (\<forall>e \<in> set xs. \<not> exclusive_entry s e) \<and> (\<forall>e \<in> set ys. exclusive_entry s e)
    \<and> wake_split (exclusive_entry s) 1 es = (xs @ take 1 ys, drop 1 ys)"
proof -
  obtain xs ys where x: "es = xs @ ys" "\<forall>e \<in> set xs. \<not> exclusive_entry s e" "\<forall>e \<in> set ys. exclusive_entry s e"
    using assms by (auto simp: shared_first_def)
  have "wake_split (exclusive_entry s) 1 es = (xs @ take 1 ys, drop 1 ys)"
    using x wake_split_one_shared [of xs "exclusive_entry s"] wake_split_one [of xs "exclusive_entry s" "hd ys" "tl ys"]
    by (cases ys) auto
  then show ?thesis using x by blast
qed

text \<open>An entry that is prepared twice is its own successor, and waking does not end.\<close>

lemma call_wake_func_flags: "exclusive_entry (snd (call_wake_func e s)) e = exclusive_entry s e"
proof -
  have "(w OR 2) AND (1 :: 32 word) = w AND 1" for w by (simp add: bit_eq_iff bit_simps) (auto simp: bit_numeral_iff)
  then show ?thesis
    by (simp add: exclusive_entry_def call_wake_func_def autoremove_wake_function_def multi_wait_wake_function_def Let_def
        WQ_FLAG_EXCLUSIVE_def WQ_FLAG_RUDELY_def split: wake_func.splits)
qed

lemma wake_loop_self:
  assumes "wake_loop q c n nr b s = Some y"
  shows "c = e \<and> n = e \<and> e \<noteq> q \<longrightarrow> exclusive_entry s e"
proof (rule wake_loop.raw_induct [where P = "\<lambda>q c n nr b s y. c = e \<and> n = e \<and> e \<noteq> q \<longrightarrow> exclusive_entry s e", OF _ assms], intro impI)
  fix wl q c n nr b s and y :: "bool \<times> wait_store"
  assume IH: "\<And>q c n nr b s y. wl q c n nr b s = Some y \<Longrightarrow> c = e \<and> n = e \<and> e \<noteq> q \<longrightarrow> exclusive_entry s e"
    and step: "(if c = q then Some (b, s)
      else let flags = we_flags (wents s c); (woke_up, s) = call_wake_func c s; b = (b \<or> woke_up);
               excl = (woke_up \<and> flags AND WQ_FLAG_EXCLUSIVE \<noteq> 0); nr = (if excl then nr - 1 else nr)
           in if excl \<and> nr = 0 then Some (b, s) else wl q n (lh_next (wlists s) n) nr b s) = Some y"
    and a: "c = e \<and> n = e \<and> e \<noteq> q"
  define s1 where "s1 = snd (call_wake_func e s)"
  have c: "call_wake_func e s = (True, s1)" using call_wake_func_woke [of e s] by (simp add: s1_def prod_eq_iff)
  have n: "lh_next (wlists s1) e = e" by (simp add: s1_def lh_del_init_def lh_init_def)
  show "exclusive_entry s e"
  proof (rule ccontr)
    assume ne: "\<not> exclusive_entry s e"
    then have "wl q e e nr True s1 = Some y" using step a c n by (simp add: exclusive_entry_def)
    from IH [OF this] show False using a ne call_wake_func_flags [of e s] by (simp add: s1_def)
  qed
qed

section \<open>Properties\<close>

text \<open>A queue at 1 and, in \<open>one_waiter\<close>, the thread 64 that waits on it with the entry 5, for the witnesses.\<close>

definition quiet_store :: wait_store where
  "quiet_store = \<lparr>wthds = (\<lambda>_. \<lparr>thd_state = 0, preemptable = True, kernel_ring = False, held_lock = None, run_locked = False,
       sched_info = \<lparr>has_run = 0, timeslice = 1, priority = 0, good_streak = 0, sched_next = None, sched_prev = None\<rparr>,
       stats = \<lparr>run_count = 0, current_cpu = -1, last_cpu = -1\<rparr>, rudely_awoken = False, joiners = 0, should_die = False\<rparr>),
     wlists = \<lparr>lh_prev = id, lh_next = id\<rparr>,
     wents = (\<lambda>_. \<lparr>we_flags = 0, we_thd = 0, we_func = Autoremove, we_wq = None, we_result = 0, we_awoken = False\<rparr>),
     woke_someone_up = False\<rparr>"

definition one_waiter :: wait_store where
  "one_waiter = prepare_to_wait 64 1 5 PS_INTERRUPTIBLE (wait_entry_new 64 5 quiet_store)"

lemma quiet_store_init: "wait_init {1} quiet_store"
  by (simp add: wait_init_def quiet_store_def lh_list_def)

lemma one_waiter_reachable: "wait_reachable {1} one_waiter"
proof -
  have "wait_reachable {1} (wait_entry_new 64 5 quiet_store)"
    by (rule wr_step [OF wr_init [OF quiet_store_init]], rule ws_new) (simp_all add: quiet_store_def)
  then show ?thesis unfolding one_waiter_def
    by (rule wr_step, intro ws_wait [where q = 1 and e = 5 and t = 64 and st = PS_INTERRUPTIBLE])
       (simp_all add: wq_wait_def bound_thread_def wait_entry_new_def quiet_store_def)
qed

lemma one_waiter_bound: "we_wq (wents one_waiter 5) = Some 1" "we_thd (wents one_waiter 5) = 64"
  "thd_state (wthds one_waiter 64) = PS_INTERRUPTIBLE"
  by (simp_all add: one_waiter_def prepare_to_wait_def wait_entry_new_def wq_set_state_def thread_set_state_def)

lemma one_waiter_list: "lh_list (wlists one_waiter) 1 [5]"
  by (simp add: one_waiter_def prepare_to_wait_def wait_entry_new_def wq_set_state_def quiet_store_def lh_list_def lh_add_def lh_add_between_def lh_init_def)

text \<open>
  C11: no wakeup is lost: in every reachable store an entry that is bound to a queue, and whose
  thread does not run, is found by walking the queue.
\<close>

theorem no_lost_wakeup:
  assumes "wait_reachable Q s" and "we_wq (wents s e) = Some q"
    and "thd_state (wthds s (we_thd (wents s e))) \<noteq> PS_RUNNING"
  shows "\<exists>es. lh_for_each (wlists s) q = Some es \<and> e \<in> set es"
proof -
  obtain es where ok: "wait_ok Q s es" using wait_reachable_ok [OF assms(1)] by blast
  have "e \<in> set (es q)" "q \<in> Q" using wait_ok_entry [OF ok assms(2)] assms(3) by auto
  then show ?thesis using lh_for_each_list [OF wait_ok_list [OF ok]] by blast
qed

theorem no_lost_wakeup_witness: "\<exists>es. lh_for_each (wlists one_waiter) 1 = Some es \<and> 5 \<in> set es"
  by (rule no_lost_wakeup [OF one_waiter_reachable]) (simp_all add: one_waiter_bound PS_defs)

text \<open>
  C15: \<^verbatim>\<open>wake_up_all\<close> returns, and afterwards every thread that waits on the queue is runnable.
\<close>

theorem wake_up_all_wakes:
  assumes "wait_reachable Q s" and "q \<in> Q"
  shows "\<exists>s'. wake_up_all q s = Some s' \<and>
    (\<forall>e. we_wq (wents s' e) = Some q \<longrightarrow> thd_state (wthds s' (we_thd (wents s' e))) = PS_RUNNING)"
proof -
  obtain es where ok: "wait_ok Q s es" using wait_reachable_ok [OF assms(1)] by blast
  obtain s' where s': "wake_up_common q 0 s = Some s'" "wait_ok Q s' (es(q := []))"
    using wake_up_common_wait_ok [OF ok assms(2) wake_split_all] by auto
  have "thd_state (wthds s' (we_thd (wents s' e))) = PS_RUNNING" if "we_wq (wents s' e) = Some q" for e
    using wait_ok_entry(3) [OF s'(2) that] by simp
  then show ?thesis using s'(1) by (auto simp: wake_up_all_def)
qed

theorem wake_up_all_wakes_witness:
  "\<exists>s'. wake_up_all 1 one_waiter = Some s'
     \<and> (\<forall>e. we_wq (wents s' e) = Some 1 \<longrightarrow> thd_state (wthds s' (we_thd (wents s' e))) = PS_RUNNING)"
  using wake_up_all_wakes [OF one_waiter_reachable, of 1] by simp



text \<open>
  A poll of several queues with exclusive entries stands in front of the waiters of a queue,
  so that \<^verbatim>\<open>wake_up\<close> wakes only the poll and none of them.
\<close>

theorem exclusive_poll_hides:
  assumes "lh_list (wlists s) q es" and "e \<notin> set (q # es)"
  shows "\<exists>s'. wake_up q (multi_wait_begin t True [(q, e)] s) = Some s' \<and> lh_list (wlists s') q es
    \<and> (\<forall>u. u \<noteq> we_thd (wents s e) \<longrightarrow> u \<noteq> t \<longrightarrow> thd_state (wthds s' u) = thd_state (wthds s u))"
proof -
  let ?s = "multi_wait_begin t True [(q, e)] s"
  have l: "lh_list (wlists ?s) q (e # es)"
    using lh_add_list [OF assms] by (simp add: multi_wait_begin_eq multi_link_one_def multi_bind_one_def wq_set_state_def)
  have "exclusive_entry ?s e"
    by (simp add: multi_wait_begin_eq multi_link_one_def multi_bind_one_def wq_set_state_def exclusive_entry_def WQ_FLAG_EXCLUSIVE_def)
  then have sp: "wake_split (exclusive_entry ?s) 1 (e # es) = ([e], es)" by simp
  have "wake_up q ?s = Some ((wake_all [e] ?s)\<lparr>woke_someone_up := True\<rparr>)"
    using wake_up_common_ok [OF l sp] by (simp add: wake_up_def)
  moreover have "lh_list (wlists (wake_all [e] ?s)) q es" using wake_all_list [of ?s q "[e]" es] l by simp
  moreover have "thd_state (wthds (wake_all [e] ?s) u) = thd_state (wthds s u)" if "u \<noteq> we_thd (wents s e)" "u \<noteq> t" for u
    using that by (simp add: wake_all_state multi_wait_begin_eq multi_link_one_def multi_bind_one_def wq_set_state_def thread_set_state_state del: wake_all_simps)
  ultimately show ?thesis by (intro exI [of _ "(wake_all [e] ?s)\<lparr>woke_someone_up := True\<rparr>"]) simp
qed

theorem exclusive_poll_hides_witness:
  "\<exists>s'. wake_up 1 (multi_wait_begin 80 True [(1, 6)] one_waiter) = Some s' \<and> lh_list (wlists s') 1 [5] \<and> thd_state (wthds s' 64) = PS_INTERRUPTIBLE"
proof -
  have "we_thd (wents one_waiter 6) = 0"
    by (simp add: one_waiter_def prepare_to_wait_def wait_entry_new_def wq_set_state_def quiet_store_def)
  then show ?thesis using exclusive_poll_hides [OF one_waiter_list, of 6 80] one_waiter_bound(3) by auto
qed

text \<open>
  An entry that is prepared twice, as in the loop that the comment in the header shows, makes
  \<^verbatim>\<open>wake_up\<close> run forever.
\<close>

theorem prepare_twice_hangs:
  assumes "lh_list (wlists s) q es" and "e \<notin> set (q # es)"
  shows "wake_up q (prepare_to_wait t q e st (prepare_to_wait t q e st s)) = None"
proof -
  define s1 where "s1 = prepare_to_wait t q e st s"
  define s2 where "s2 = prepare_to_wait t q e st s1"
  have "lh_list (wlists s1) q (e # es)"
    using lh_add_list [OF assms] by (simp add: s1_def prepare_to_wait_def wq_set_state_def)
  then have "lh_next (wlists s1) q = e" using lh_list_next by fastforce
  moreover have "wlists s2 = lh_add (wlists s1) q e" by (simp add: s2_def prepare_to_wait_def wq_set_state_def)
  ultimately have n: "lh_next (wlists s2) q = e" "lh_next (wlists s2) e = e"
    using assms(2) by (simp_all add: lh_add_def lh_add_between_def)
  have "\<not> exclusive_entry s2 e"
    by (simp add: s2_def exclusive_entry_def prepare_to_wait_def Let_def wq_set_state_def WQ_FLAG_EXCLUSIVE_def flag_excl)
  then have "wake_loop q e e 1 False s2 = None" using wake_loop_self [of q e e 1 False s2 _ e] assms(2) by (cases "wake_loop q e e 1 False s2") auto
  then show ?thesis using n by (simp add: wake_up_def wake_up_common_def s1_def [symmetric] s2_def [symmetric])
qed

theorem prepare_twice_hangs_witness:
  "wake_up 1 (prepare_to_wait 64 1 6 1 (prepare_to_wait 64 1 6 1 one_waiter)) = None"
  by (rule prepare_twice_hangs [OF one_waiter_list]) simp

end
