(* ===== verification/Sched.thy ===== *)
theory Sched
  imports Mlfq Wait_Safe
begin

text \<open>
  The scheduler of \<^verbatim>\<open>kernel/sched/core.cpp\<close> on several processors. A processor alternates between
  the scheduler's loop and a thread; \<^verbatim>\<open>switch_into\<close> and \<^verbatim>\<open>yield\<close> are split at the context switch. The
  current processor is an argument, and so is whether \<^verbatim>\<open>steal\<close> gets the lock of its victim.
\<close>

section \<open>State\<close>

record cpu_state =
  current_thread :: "ptr option"
  next_thread :: "ptr option"
  uticks :: nat
  kticks :: nat
  iticks :: nat

record sched =
  wst :: wait_store
  mlfqs :: "nat \<Rightarrow> mlfq"
  cpus :: "nat \<Rightarrow> cpu_state"
  nproc :: nat
  spin_locked :: "ptr \<Rightarrow> bool"

abbreviation sthds :: "sched \<Rightarrow> thread_store" where "sthds s \<equiv> wthds (wst s)"

definition set_thds :: "thread_store \<Rightarrow> sched \<Rightarrow> sched" where
  "set_thds h s = s\<lparr>wst := (wst s)\<lparr>wthds := h\<rparr>\<rparr>"

definition upd_thd :: "ptr \<Rightarrow> (thread \<Rightarrow> thread) \<Rightarrow> sched \<Rightarrow> sched" where
  "upd_thd t f s = set_thds ((sthds s)(t := f (sthds s t))) s"

definition upd_cpu :: "nat \<Rightarrow> (cpu_state \<Rightarrow> cpu_state) \<Rightarrow> sched \<Rightarrow> sched" where
  "upd_cpu c f s = s\<lparr>cpus := (cpus s)(c := f (cpus s c))\<rparr>"

definition put_mlfq :: "nat \<Rightarrow> mlfq_store \<Rightarrow> sched \<Rightarrow> sched" where
  "put_mlfq c hm s = (set_thds (fst hm) s)\<lparr>mlfqs := (mlfqs s)(c := snd hm)\<rparr>"

section \<open>Choosing a thread\<close>

definition sched_init :: "nat \<Rightarrow> sched \<Rightarrow> sched" where
  "sched_init c s = s\<lparr>mlfqs := (mlfqs s)(c := (mlfqs s c)\<lparr>core := int c, active := True\<rparr>)\<rparr>"

text \<open>The processor to steal from: the next in turn that is not this one.\<close>

partial_function (option) steal_target :: "int \<Rightarrow> int \<Rightarrow> int \<Rightarrow> (int \<times> int) option" where
  "steal_target np cr nw =
     (let target = nw mod np; nw = nw + 1 in if target = cr then steal_target np cr nw else Some (target, nw))"

definition worksteal :: "bool \<Rightarrow> nat \<Rightarrow> sched \<Rightarrow> (ptr option \<times> sched) option" where
  "worksteal locked c s =
     (if nproc s \<le> 1 then Some (None, s)
      else Option.bind (steal_target (int (nproc s)) (core (mlfqs s c)) (next_worksteal (mlfqs s c))) (\<lambda>(target, nw).
        let nw = (if nw \<ge> int (nproc s) then 0 else nw);
            s = s\<lparr>mlfqs := (mlfqs s)(c := (mlfqs s c)\<lparr>next_worksteal := nw\<rparr>)\<rparr>;
            v = nat target
        in if \<not> active (mlfqs s v) then Some (None, s)
           else map_option (\<lambda>(t, hm). (t, put_mlfq v hm s)) (mlfq_steal locked (sthds s, mlfqs s v))))"

definition get_next_thread :: "bool \<Rightarrow> nat \<Rightarrow> sched \<Rightarrow> (ptr option \<times> sched) option" where
  "get_next_thread locked c s =
     Option.bind (mlfq_get_next (sthds s, mlfqs s c)) (\<lambda>(t, hm).
       let s = put_mlfq c hm s
       in (case t of None \<Rightarrow> worksteal locked c s | Some _ \<Rightarrow> Some (t, s)))"

definition pick_next_thread :: "bool \<Rightarrow> nat \<Rightarrow> sched \<Rightarrow> (ptr option \<times> sched) option" where
  "pick_next_thread locked c s =
     (case next_thread (cpus s c) of
        None \<Rightarrow> map_option (\<lambda>(t, s). (t, upd_cpu c (\<lambda>p. p\<lparr>next_thread := t\<rparr>) s)) (get_next_thread locked c s)
      | Some t \<Rightarrow> Some (Some t, s))"

definition sched_add_task :: "nat \<Rightarrow> ptr \<Rightarrow> sched \<Rightarrow> sched" where
  "sched_add_task c t s =
     (let i = sched_info (sthds s t);
          b = (if has_run i \<ge> timeslice i then Bad else Good)
      in put_mlfq c (mlfq_add (sthds s, mlfqs s c) t b) s)"

definition sched_remove_task :: "ptr \<Rightarrow> sched \<Rightarrow> sched option" where
  "sched_remove_task t s =
     (let c = current_cpu (stats (sthds s t))
      in if c \<ge> 0 then map_option (\<lambda>hm. put_mlfq (nat c) hm s) (mlfq_remove (sthds s, mlfqs s (nat c)) t) else Some s)"

section \<open>Switching\<close>

text \<open>
  \<^verbatim>\<open>switch_into\<close> up to the context switch: whether the thread runs. It returns early when the lock
  that the thread gave up to sleep is taken, and spins on the run lock of a running thread.
\<close>

definition switch_in :: "nat \<Rightarrow> ptr \<Rightarrow> sched \<Rightarrow> (bool \<times> sched) option" where
  "switch_in c t s =
     (let l = held_lock (sthds s t)
      in if (case l of Some k \<Rightarrow> spin_locked s k | None \<Rightarrow> False) then Some (False, s)
         else let s = (case l of Some k \<Rightarrow> s\<lparr>spin_locked := (spin_locked s)(k := True)\<rparr> | None \<Rightarrow> s)
              in if run_locked (sthds s t) then None
                 else Some (True,
                   upd_thd t (\<lambda>d. d\<lparr>run_locked := True, thd_state := PS_RUNNING,
                       stats := (stats d)\<lparr>run_count := run_count (stats d) + 1, current_cpu := int c\<rparr>,
                       sched_info := (sched_info d)\<lparr>has_run := 0\<rparr>\<rparr>)
                     (upd_cpu c (\<lambda>p. p\<lparr>current_thread := Some t\<rparr>) s)))"

definition switch_out :: "nat \<Rightarrow> ptr \<Rightarrow> sched \<Rightarrow> sched" where
  "switch_out c t s =
     (let s = upd_cpu c (\<lambda>p. p\<lparr>current_thread := None\<rparr>) s;
          s = upd_thd t (\<lambda>d. d\<lparr>run_locked := False\<rparr>) s
      in (case held_lock (sthds s t) of Some k \<Rightarrow> s\<lparr>spin_locked := (spin_locked s)(k := False)\<rparr> | None \<Rightarrow> s))"

text \<open>\<^verbatim>\<open>yield\<close> up to the context switch, and its result afterwards.\<close>

definition yield_out :: "ptr \<Rightarrow> ptr option \<Rightarrow> sched \<Rightarrow> sched option" where
  "yield_out t lock s =
     (let s = upd_thd t (\<lambda>d. d\<lparr>held_lock := lock\<rparr>) s
      in map_option (\<lambda>w. upd_thd t (\<lambda>d. d\<lparr>stats := (stats d)\<lparr>last_cpu := current_cpu (stats d), current_cpu := -1\<rparr>\<rparr>) (s\<lparr>wst := w\<rparr>))
           (if thd_state (sthds s t) = PS_ZOMBIE then wake_up (joiners (sthds s t)) (wst s) else Some (wst s)))"

definition yield_result :: "ptr \<Rightarrow> sched \<Rightarrow> bool" where
  "yield_result t s \<longleftrightarrow> rudely_awoken (sthds s t)"

definition sched_set_state :: "nat \<Rightarrow> int \<Rightarrow> sched \<Rightarrow> sched option" where
  "sched_set_state c st s =
     (case current_thread (cpus s c) of
        None \<Rightarrow> None | Some t \<Rightarrow> Some (set_thds (thread_set_state (sthds s) t st) s))"

definition kickoff :: "nat \<Rightarrow> ptr \<Rightarrow> int \<Rightarrow> sched \<Rightarrow> sched" where
  "kickoff c t initial_state s = sched_add_task c t (upd_thd t (\<lambda>d. d\<lparr>thd_state := initial_state\<rparr>) s)"

text \<open>The tick of the clock; waking the sleepers is an argument.\<close>

definition handle_tick :: "(sched \<Rightarrow> sched) \<Rightarrow> nat \<Rightarrow> sched \<Rightarrow> sched" where
  "handle_tick check_wakeups c s =
     (case current_thread (cpus s c) of
        None \<Rightarrow> s
      | Some t \<Rightarrow>
          let s = check_wakeups s;
              s = upd_thd t (\<lambda>d. d\<lparr>sched_info := (sched_info d)\<lparr>has_run := has_run (sched_info d) + 1\<rparr>\<rparr>) s
          in if kernel_ring (sthds s t) then upd_cpu c (\<lambda>p. p\<lparr>kticks := kticks p + 1\<rparr>) s
             else upd_cpu c (\<lambda>p. p\<lparr>uticks := uticks p + 1\<rparr>) s)"

datatype iret_action = Iret | Exit_thread | Yield_thread

definition before_iret :: "nat \<Rightarrow> sched \<Rightarrow> iret_action" where
  "before_iret c s =
     (case current_thread (cpus s c) of
        None \<Rightarrow> Iret
      | Some t \<Rightarrow>
          if should_die (sthds s t) then Exit_thread
          else if has_run (sched_info (sthds s t)) \<ge> timeslice (sched_info (sthds s t)) \<or> next_thread (cpus s c) \<noteq> None
               then Yield_thread else Iret)"

text \<open>
  One round of the loop in \<^verbatim>\<open>run\<close> up to \<^verbatim>\<open>switch_into\<close>: the thread to run, or none for the idle thread,
  which is in no queue. \<open>n\<close> is the counter of rounds.
\<close>

definition run_round :: "bool \<Rightarrow> nat \<Rightarrow> nat \<Rightarrow> sched \<Rightarrow> (ptr option \<times> nat \<times> sched) option" where
  "run_round locked c n s =
     Option.bind
       (if n \<ge> 100 then map_option (\<lambda>hm. (0, put_mlfq c hm s)) (mlfq_boost (sthds s, mlfqs s c)) else Some (n + 1, s))
       (\<lambda>(n, s). map_option (\<lambda>(t, s).
          let s = upd_cpu c (\<lambda>p. p\<lparr>next_thread := None\<rparr>) s;
              s = (if t = None then upd_cpu c (\<lambda>p. p\<lparr>iticks := iticks p + 1\<rparr>) s else s)
          in (t, n, s)) (pick_next_thread locked c s))"

section \<open>The queues of all processors\<close>

text \<open>The queues of processor \<open>c\<close> hold the threads \<open>qt c\<close>, each once, and a thread is queued at one processor only.\<close>

definition queues_ok :: "sched \<Rightarrow> (nat \<Rightarrow> ptr set) \<Rightarrow> bool" where
  "queues_ok s qt \<longleftrightarrow> (\<forall>c < nproc s.
     (\<exists>qs. mlfq_lists (sthds s, mlfqs s c) qs \<and> mlfq_tids qs = qt c)
     \<and> core (mlfqs s c) = int c \<and> 0 \<le> next_worksteal (mlfqs s c) \<and> next_worksteal (mlfqs s c) < int (nproc s)
     \<and> (\<forall>c' < nproc s. c' \<noteq> c \<longrightarrow> qt c \<inter> qt c' = {})
     \<and> (\<forall>t \<in> qt c. current_cpu (stats (sthds s t)) = int c))"

lemma queues_okD:
  assumes "queues_ok s qt" "c < nproc s"
  shows "\<exists>qs. mlfq_lists (sthds s, mlfqs s c) qs \<and> mlfq_tids qs = qt c"
    "core (mlfqs s c) = int c" "0 \<le> next_worksteal (mlfqs s c)" "next_worksteal (mlfqs s c) < int (nproc s)"
    "c' < nproc s \<Longrightarrow> c' \<noteq> c \<Longrightarrow> qt c \<inter> qt c' = {}" "t \<in> qt c \<Longrightarrow> current_cpu (stats (sthds s t)) = int c"
  using assms unfolding queues_ok_def by blast+

lemma put_mlfq_sel [simp]:
  "nproc (put_mlfq v hm s) = nproc s" "cpus (put_mlfq v hm s) = cpus s" "sthds (put_mlfq v hm s) = fst hm"
  "mlfqs (put_mlfq v hm s) = (mlfqs s)(v := snd hm)" "spin_locked (put_mlfq v hm s) = spin_locked s"
  by (simp_all add: put_mlfq_def set_thds_def)

lemma set_thds_sel [simp]:
  "nproc (set_thds h s) = nproc s" "cpus (set_thds h s) = cpus s" "sthds (set_thds h s) = h"
  "mlfqs (set_thds h s) = mlfqs s" "spin_locked (set_thds h s) = spin_locked s"
  by (simp_all add: set_thds_def)

lemma upd_thd_sel [simp]:
  "nproc (upd_thd t f s) = nproc s" "cpus (upd_thd t f s) = cpus s" "sthds (upd_thd t f s) = (sthds s)(t := f (sthds s t))"
  "mlfqs (upd_thd t f s) = mlfqs s" "spin_locked (upd_thd t f s) = spin_locked s"
  by (simp_all add: upd_thd_def)

lemma upd_cpu_sel [simp]:
  "nproc (upd_cpu c f s) = nproc s" "cpus (upd_cpu c f s) = (cpus s)(c := f (cpus s c))" "wst (upd_cpu c f s) = wst s"
  "mlfqs (upd_cpu c f s) = mlfqs s" "spin_locked (upd_cpu c f s) = spin_locked s"
  by (simp_all add: upd_cpu_def)

lemma queues_ok_put:
  assumes ok: "queues_ok s qt" and v: "v < nproc s"
    and l: "mlfq_lists hm qs" "mlfq_tids qs = Y"
    and m: "core (snd hm) = int v" "0 \<le> next_worksteal (snd hm)" "next_worksteal (snd hm) < int (nproc s)"
    and frame: "\<And>u c. c < nproc s \<Longrightarrow> c \<noteq> v \<Longrightarrow> u \<in> qt c \<Longrightarrow> fst hm u = sthds s u"
    and dj: "\<And>c. c < nproc s \<Longrightarrow> c \<noteq> v \<Longrightarrow> Y \<inter> qt c = {}"
    and cpu: "\<And>u. u \<in> Y \<Longrightarrow> current_cpu (stats (fst hm u)) = int v"
  shows "queues_ok (put_mlfq v hm s) (qt(v := Y))"
  unfolding queues_ok_def
proof (intro allI impI)
  fix c assume c: "c < nproc (put_mlfq v hm s)"
  let ?s = "put_mlfq v hm s" and ?q = "qt(v := Y)"
  have d: "\<forall>c' < nproc ?s. c' \<noteq> c \<longrightarrow> ?q c \<inter> ?q c' = {}"
    using dj queues_okD(5) [OF ok, of c] c by (auto simp: Int_commute split: if_splits)
  show "(\<exists>qs. mlfq_lists (sthds ?s, mlfqs ?s c) qs \<and> mlfq_tids qs = ?q c) \<and> core (mlfqs ?s c) = int c
     \<and> 0 \<le> next_worksteal (mlfqs ?s c) \<and> next_worksteal (mlfqs ?s c) < int (nproc ?s)
     \<and> (\<forall>c' < nproc ?s. c' \<noteq> c \<longrightarrow> ?q c \<inter> ?q c' = {}) \<and> (\<forall>t \<in> ?q c. current_cpu (stats (sthds ?s t)) = int c)"
  proof (cases "c = v")
    case True
    have "mlfq_lists (fst hm, snd hm) qs" using l(1) by simp
    then show ?thesis using True l(2) m d cpu by auto
  next
    case False
    obtain qs' where q: "mlfq_lists (sthds s, mlfqs s c) qs'" "mlfq_tids qs' = qt c" using queues_okD(1) [OF ok] c by auto
    have "mlfq_lists (fst hm, mlfqs s c) qs'"
      by (rule mlfq_lists_cong [OF q(1) refl]) (use frame [OF _ False] c q(2) in simp)
    then show ?thesis using False q(2) queues_okD [OF ok, of c] c d frame [OF _ False] by auto
  qed
qed

lemma queues_ok_thds:
  assumes ok: "queues_ok s qt" and s: "nproc s' = nproc s" "mlfqs s' = mlfqs s"
    and same: "\<And>c u. c < nproc s \<Longrightarrow> u \<in> qt c \<Longrightarrow> nextp (sthds s') u = nextp (sthds s) u \<and> prevp (sthds s') u = prevp (sthds s) u
      \<and> priority (sched_info (sthds s' u)) = priority (sched_info (sthds s u)) \<and> current_cpu (stats (sthds s' u)) = current_cpu (stats (sthds s u))"
  shows "queues_ok s' qt"
  unfolding queues_ok_def s
proof (intro allI impI)
  fix c assume c: "c < nproc s"
  obtain qs where q: "mlfq_lists (sthds s, mlfqs s c) qs" "mlfq_tids qs = qt c" using queues_okD(1) [OF ok] c by auto
  have "mlfq_lists (sthds s', mlfqs s c) qs" by (rule mlfq_lists_cong [OF q(1) refl]) (use same [OF c] q(2) in simp)
  then show "(\<exists>qs. mlfq_lists (sthds s', mlfqs s c) qs \<and> mlfq_tids qs = qt c) \<and> core (mlfqs s c) = int c
     \<and> 0 \<le> next_worksteal (mlfqs s c) \<and> next_worksteal (mlfqs s c) < int (nproc s)
     \<and> (\<forall>c' < nproc s. c' \<noteq> c \<longrightarrow> qt c \<inter> qt c' = {}) \<and> (\<forall>t \<in> qt c. current_cpu (stats (sthds s' t)) = int c)"
    using queues_okD [OF ok c] q(2) same [OF c] by auto
qed

section \<open>Choosing and adding threads\<close>

text \<open>\<open>picked s qt r s' qt'\<close>: the thread \<open>r\<close>, if any, has left its queue, and no other thread has changed but for its links.\<close>

definition picked :: "sched \<Rightarrow> (nat \<Rightarrow> ptr set) \<Rightarrow> ptr option \<Rightarrow> sched \<Rightarrow> (nat \<Rightarrow> ptr set) \<Rightarrow> bool" where
  "picked s qt r s' qt' \<longleftrightarrow> queues_ok s' qt' \<and> nproc s' = nproc s \<and> cpus s' = cpus s \<and> spin_locked s' = spin_locked s
     \<and> (\<forall>u. no_sched (sthds s' u) = no_sched (sthds s u))
     \<and> (case r of None \<Rightarrow> qt' = qt | Some t \<Rightarrow> thd_state (sthds s t) = PS_RUNNING
         \<and> (\<exists>v < nproc s. t \<in> qt v \<and> qt' = qt(v := qt v - {t})))"

lemma runnable_in_state: "runnable_in h qs = Some t \<Longrightarrow> thd_state (h t) = PS_RUNNING"
  by (auto simp: runnable_in_def find_Some_iff)

lemma runnable_in_none: "runnable_in h qs = None \<Longrightarrow> t \<in> mlfq_tids qs \<Longrightarrow> thd_state (h t) \<noteq> PS_RUNNING"
  by (auto simp: runnable_in_def find_None_iff mlfq_tids_def atLeast0LessThan)

definition none_runnable :: "sched \<Rightarrow> ptr set \<Rightarrow> bool" where
  "none_runnable s Y \<longleftrightarrow> (\<forall>t \<in> Y. thd_state (sthds s t) \<noteq> PS_RUNNING)"

lemma pick_at_ok:
  assumes ok: "queues_ok s qt" and v: "v < nproc s"
  shows "\<exists>r hm qt'. pick_loop 0 (sthds s, mlfqs s v) = Some (r, hm) \<and> picked s qt r (put_mlfq v hm s) qt'
    \<and> (r = None \<longrightarrow> none_runnable s (qt v))"
proof -
  obtain qs where q: "mlfq_lists (sthds s, mlfqs s v) qs" "mlfq_tids qs = qt v" using queues_okD(1) [OF ok v] by auto
  show ?thesis
  proof (cases "runnable_in (sthds s) qs")
    case None
    have s: "put_mlfq v (sthds s, mlfqs s v) s = s" by (simp add: put_mlfq_def set_thds_def)
    have "none_runnable s (qt v)" using runnable_in_none [OF None] q(2) by (auto simp: none_runnable_def)
    then show ?thesis using pick_none [OF q(1) None] ok s by (auto simp: picked_def)
  next
    case (Some t)
    from pick_some [OF q(1) Some] obtain hm qs' where p: "pick_loop 0 (sthds s, mlfqs s v) = Some (Some t, hm)"
        "mlfq_lists hm qs'" "mlfq_tids qs' = mlfq_tids qs - {t}" "t \<in> mlfq_tids qs" "touches (mlfq_tids qs) (sthds s) (fst hm)"
        "core (snd hm) = core (mlfqs s v)" "next_worksteal (snd hm) = next_worksteal (mlfqs s v)" by metis
    have "queues_ok (put_mlfq v hm s) (qt(v := qt v - {t}))"
    proof (rule queues_ok_put [OF ok v p(2)])
      fix u c assume "c < nproc s" "c \<noteq> v" "u \<in> qt c"
      then have "u \<notin> mlfq_tids qs" using queues_okD(5) [OF ok v] q(2) by auto
      then show "fst hm u = sthds s u" using touchesD(4) [OF p(5)] by simp
    next
      fix c assume "c < nproc s" "c \<noteq> v"
      then show "(qt v - {t}) \<inter> qt c = {}" using queues_okD(5) [OF ok v] by blast
    next
      fix u assume "u \<in> qt v - {t}"
      then show "current_cpu (stats (fst hm u)) = int v" using queues_okD(6) [OF ok v] touchesD(2) [OF p(5)] by simp
    qed (use p q(2) queues_okD [OF ok v] in auto)
    then show ?thesis using p q(2) v runnable_in_state [OF Some]
      by (intro exI [of _ "Some t"] exI [of _ hm] exI [of _ "qt(v := qt v - {t})"]) (auto simp: picked_def touches_def)
  qed
qed

lemma picked_state:
  assumes "picked s qt r s1 qt'"
  shows "thd_state (sthds s1 t) = thd_state (sthds s t)"
proof -
  have "no_sched (sthds s1 t) = no_sched (sthds s t)" using assms unfolding picked_def by blast
  from arg_cong [OF this, of thd_state] show ?thesis by (simp add: no_sched_def)
qed

lemma picked_trans:
  assumes "picked s qt None s1 qt" "picked s1 qt r s' qt'"
  shows "picked s qt r s' qt'"
  using assms picked_state [OF assms(1)] by (auto simp: picked_def split: option.splits)

lemma steal_target_ok:
  assumes "1 < np" "0 \<le> cr" "cr < np" "0 \<le> nw" "nw < np"
  shows "\<exists>target nw'. steal_target np cr nw = Some (target, nw') \<and> 0 \<le> target \<and> target < np \<and> target \<noteq> cr \<and> 0 \<le> nw'"
proof (cases "nw = cr")
  case False
  then show ?thesis using assms by (subst steal_target.simps) auto
next
  case True
  have "(nw + 1) mod np \<noteq> cr"
  proof (cases "nw + 1 = np")
    case False
    then show ?thesis using assms True by simp
  qed (use assms True in auto)
  then have "steal_target np cr (nw + 1) = Some ((nw + 1) mod np, nw + 2)" by (subst steal_target.simps) simp
  then have "steal_target np cr nw = Some ((nw + 1) mod np, nw + 2)"
    using assms True by (subst steal_target.simps) simp
  then show ?thesis using assms \<open>(nw + 1) mod np \<noteq> cr\<close> by simp
qed

lemma worksteal_ok:
  assumes ok: "queues_ok s qt" and c: "c < nproc s"
  shows "\<exists>r s' qt'. worksteal locked c s = Some (r, s') \<and> picked s qt r s' qt'"
proof (cases "nproc s \<le> 1")
  case True
  then show ?thesis using ok by (auto simp: worksteal_def picked_def)
next
  case False
  note d = queues_okD [OF ok c]
  obtain target nw where t: "steal_target (int (nproc s)) (core (mlfqs s c)) (next_worksteal (mlfqs s c)) = Some (target, nw)"
      "0 \<le> target" "target < int (nproc s)" "0 \<le> nw"
    using steal_target_ok [of "int (nproc s)" "core (mlfqs s c)" "next_worksteal (mlfqs s c)"] False d(2-4) c by auto
  define k where "k = (if nw \<ge> int (nproc s) then 0 else nw)"
  have k: "0 \<le> k" "k < int (nproc s)" using t c by (auto simp: k_def)
  define hm where "hm = (sthds s, (mlfqs s c)\<lparr>next_worksteal := k\<rparr>)"
  define s1 where "s1 = s\<lparr>mlfqs := (mlfqs s)(c := (mlfqs s c)\<lparr>next_worksteal := k\<rparr>)\<rparr>"
  have s1: "s1 = put_mlfq c hm s" by (simp add: s1_def put_mlfq_def set_thds_def hm_def)
  obtain qs where q: "mlfq_lists (sthds s, mlfqs s c) qs" "mlfq_tids qs = qt c" using d(1) by auto
  have "mlfq_lists hm qs" unfolding hm_def by (rule mlfq_lists_cong [OF q(1)]) simp_all
  from queues_ok_put [OF ok c this q(2)] have "queues_ok s1 (qt(c := qt c))"
    using d k unfolding s1 hm_def by auto
  then have p1: "picked s qt None s1 qt" by (simp add: picked_def s1_def)
  have v: "nat target < nproc s1" using t by (simp add: s1_def)
  have ok1: "queues_ok s1 qt" using p1 by (simp add: picked_def)
  have run: "worksteal locked c s = (if \<not> active (mlfqs s1 (nat target)) then Some (None, s1)
      else map_option (\<lambda>(t, hm). (t, put_mlfq (nat target) hm s1)) (mlfq_steal locked (sthds s1, mlfqs s1 (nat target))))"
    using False t(1) by (simp add: worksteal_def Let_def k_def [symmetric] s1_def)
  obtain r hm' qt' where h: "pick_loop 0 (sthds s1, mlfqs s1 (nat target)) = Some (r, hm')" "picked s1 qt r (put_mlfq (nat target) hm' s1) qt'"
    using pick_at_ok [OF ok1 v] by blast
  have same: "put_mlfq (nat target) (sthds s1, mlfqs s1 (nat target)) s1 = s1" by (simp add: put_mlfq_def set_thds_def)
  show ?thesis
  proof (cases "active (mlfqs s1 (nat target)) \<and> locked")
    case True
    then show ?thesis using run h picked_trans [OF p1] by (auto simp: mlfq_steal_def)
  next
    case False
    then have "worksteal locked c s = Some (None, s1)" using run same by (auto simp: mlfq_steal_def)
    then show ?thesis using p1 by blast
  qed
qed

lemma get_next_thread_ok:
  assumes ok: "queues_ok s qt" and c: "c < nproc s"
  shows "\<exists>r s' qt'. get_next_thread locked c s = Some (r, s') \<and> picked s qt r s' qt' \<and> (r = None \<longrightarrow> none_runnable s (qt c))"
proof -
  obtain r hm qt' where h: "pick_loop 0 (sthds s, mlfqs s c) = Some (r, hm)" "picked s qt r (put_mlfq c hm s) qt'"
      "r = None \<longrightarrow> none_runnable s (qt c)"
    using pick_at_ok [OF ok c] by blast
  show ?thesis
  proof (cases r)
    case None
    then have p: "picked s qt None (put_mlfq c hm s) qt" using h(2) by (auto simp: picked_def)
    then have "queues_ok (put_mlfq c hm s) qt" "c < nproc (put_mlfq c hm s)" using c by (auto simp: picked_def)
    from worksteal_ok [OF this, of locked] show ?thesis
      using h(1, 3) None picked_trans [OF p] by (fastforce simp: get_next_thread_def mlfq_get_next_def Let_def)
  next
    case (Some t)
    then show ?thesis using h by (auto simp: get_next_thread_def mlfq_get_next_def Let_def)
  qed
qed

lemma boost_ok:
  assumes ok: "queues_ok s qt" and c: "c < nproc s"
  shows "\<exists>hm. mlfq_boost (sthds s, mlfqs s c) = Some hm \<and> picked s qt None (put_mlfq c hm s) qt"
proof -
  note d = queues_okD [OF ok c]
  obtain qs where q: "mlfq_lists (sthds s, mlfqs s c) qs" "mlfq_tids qs = qt c" using d(1) by auto
  obtain hm where hm: "mlfq_boost (sthds s, mlfqs s c) = Some hm" "same_but_queues (mlfqs s c) (snd hm)"
      "touches (mlfq_tids qs) (sthds s) (fst hm)" "mlfq_lists hm (boosted MLFQ_NQUEUES qs)"
    using mlfq_boost_lists [OF q(1)] by auto
  have tid: "mlfq_tids (boosted MLFQ_NQUEUES qs) = qt c" using boosted_tids [of MLFQ_NQUEUES qs] q(2) by (simp add: MLFQ_NQUEUES_def)
  have "queues_ok (put_mlfq c hm s) (qt(c := qt c))"
  proof -
    have f: "fst hm u = sthds s u" if "k < nproc s" "k \<noteq> c" "u \<in> qt k" for u k
      using touchesD(4) [OF hm(3)] q(2) d(5) [of k] that by auto
    have cp: "current_cpu (stats (fst hm u)) = int c" if "u \<in> qt c" for u using touchesD(2) [OF hm(3)] d(6) that by simp
    show ?thesis
      by (rule queues_ok_put [OF ok c hm(4) tid])
         (use d hm(2) f cp in \<open>auto simp: same_but_queues_def\<close>)
  qed
  then show ?thesis using hm by (auto simp: picked_def touches_def)
qed

text \<open>A round of the scheduler's loop: it returns, and picks a runnable thread or none.\<close>

lemma run_round_ok:
  assumes ok: "queues_ok s qt" and c: "c < nproc s" and nt: "next_thread (cpus s c) = None"
  shows "\<exists>r k s1 s' qt'. run_round locked c n s = Some (r, k, s') \<and> picked s qt r s1 qt'
    \<and> wst s' = wst s1 \<and> mlfqs s' = mlfqs s1 \<and> nproc s' = nproc s \<and> spin_locked s' = spin_locked s
    \<and> (\<forall>v. current_thread (cpus s' v) = current_thread (cpus s v)) \<and> (\<forall>v. v \<noteq> c \<longrightarrow> cpus s' v = cpus s v)
    \<and> next_thread (cpus s' c) = None \<and> (r = None \<longrightarrow> none_runnable s (qt c))"
proof -
  have "\<exists>k s0. (if n \<ge> 100 then map_option (\<lambda>hm. (0, put_mlfq c hm s)) (mlfq_boost (sthds s, mlfqs s c)) else Some (n + 1, s)) = Some (k, s0)
      \<and> picked s qt None s0 qt"
    using boost_ok [OF ok c] ok by (auto simp: picked_def)
  then obtain k s0 where s0: "(if n \<ge> 100 then map_option (\<lambda>hm. (0, put_mlfq c hm s)) (mlfq_boost (sthds s, mlfqs s c)) else Some (n + 1, s)) = Some (k, s0)"
      "picked s qt None s0 qt" by blast
  then have "queues_ok s0 qt" "c < nproc s0" "cpus s0 = cpus s" using c by (auto simp: picked_def)
  from get_next_thread_ok [OF this(1, 2), of locked] obtain r s1 qt' where
      g: "get_next_thread locked c s0 = Some (r, s1)" "picked s0 qt r s1 qt'" "r = None \<longrightarrow> none_runnable s0 (qt c)" by blast
  have "none_runnable s0 (qt c) \<Longrightarrow> none_runnable s (qt c)" using picked_state [OF s0(2)] by (simp add: none_runnable_def)
  have p: "pick_next_thread locked c s0 = Some (r, upd_cpu c (\<lambda>p. p\<lparr>next_thread := r\<rparr>) s1)"
    using nt g(1) \<open>cpus s0 = cpus s\<close> by (simp add: pick_next_thread_def)
  have pk: "picked s qt r s1 qt'" using picked_trans [OF s0(2) g(2)] .
  define s2 where "s2 = upd_cpu c (\<lambda>p. p\<lparr>next_thread := None\<rparr>) (upd_cpu c (\<lambda>p. p\<lparr>next_thread := r\<rparr>) s1)"
  define s' where "s' = (if r = None then upd_cpu c (\<lambda>p. p\<lparr>iticks := iticks p + 1\<rparr>) s2 else s2)"
  have "run_round locked c n s = Some (r, k, s')"
    unfolding run_round_def s0(1) by (simp add: p Let_def s2_def s'_def)
  then show ?thesis using pk g(3) \<open>none_runnable s0 (qt c) \<Longrightarrow> none_runnable s (qt c)\<close>
    by (intro exI [of _ r] exI [of _ k] exI [of _ s1] exI [of _ s'] exI [of _ qt']) (auto simp: s'_def s2_def picked_def)
qed

lemma sched_add_task_ok:
  assumes ok: "queues_ok s qt" and c: "c < nproc s" and t: "\<And>v. v < nproc s \<Longrightarrow> t \<notin> qt v"
  shows "queues_ok (sched_add_task c t s) (qt(c := insert t (qt c)))"
proof -
  note d = queues_okD [OF ok c]
  obtain qs where q: "mlfq_lists (sthds s, mlfqs s c) qs" "mlfq_tids qs = qt c" using d(1) by auto
  define b where "b = (if has_run (sched_info (sthds s t)) \<ge> timeslice (sched_info (sthds s t)) then Bad else Good)"
  define hm where "hm = mlfq_add (sthds s, mlfqs s c) t b"
  define p where "p = nat (priority (mlfq_grade b (sched_info (sthds s t))))"
  define h1 where "h1 = upd_sched (upd_stats (sthds s) t (\<lambda>i. i\<lparr>current_cpu := core (mlfqs s c)\<rparr>)) t (mlfq_grade b)"
  have add: "mlfq_lists hm (qs(p := qs p @ [t]))" "p < MLFQ_NQUEUES"
    using mlfq_add_lists [OF q(1), of t p b] t [OF c] q(2) by (simp_all add: hm_def p_def)
  have hm_eq: "hm = on_queue p (\<lambda>s. queue_add_task s t) (h1, mlfqs s c)"
    by (simp add: hm_def mlfq_add_def Let_def p_def h1_def)
  have l1: "mlfq_lists (h1, mlfqs s c) qs"
  proof (rule mlfq_lists_cong [OF q(1) refl])
    fix u assume "u \<in> mlfq_tids qs"
    then have "u \<noteq> t" using t [OF c] q(2) by auto
    then show "nextp h1 u = nextp (sthds s) u \<and> prevp h1 u = prevp (sthds s) u \<and> priority (sched_info (h1 u)) = priority (sched_info (sthds s u))"
      by (simp add: h1_def)
  qed
  have tch: "touches (insert t (mlfq_tids qs)) h1 (fst hm)" using add_touches [OF l1 add(2)] by (simp add: hm_eq)
  have tid: "mlfq_tids (qs(p := qs p @ [t])) = insert t (qt c)" using mlfq_tids_add [OF add(2)] q(2) by simp
  have "queues_ok (put_mlfq c hm s) (qt(c := insert t (qt c)))"
  proof (rule queues_ok_put [OF ok c add(1) tid])
    fix u k assume k: "k < nproc s" "k \<noteq> c" "u \<in> qt k"
    then have "u \<notin> insert t (mlfq_tids qs)" using t [OF k(1)] d(5) [OF k(1, 2)] q(2) by auto
    then show "fst hm u = sthds s u" using touchesD(4) [OF tch, of u] by (simp add: h1_def)
  next
    fix k assume "k < nproc s" "k \<noteq> c"
    then show "insert t (qt c) \<inter> qt k = {}" using t d(5) by auto
  next
    fix u assume u: "u \<in> insert t (qt c)"
    show "current_cpu (stats (fst hm u)) = int c"
      using touchesD(2) [OF tch, of u] d(2) d(6) [of u] u by (cases "u = t") (auto simp: h1_def)
  qed (use d in \<open>auto simp: hm_eq\<close>)
  then show ?thesis by (simp add: sched_add_task_def Let_def hm_def b_def)
qed

end
