(* ===== verification/Sched_Safe.thy ===== *)
theory Sched_Safe
  imports Sched
begin

text \<open>
  Threads on several processors: a transition system whose steps are the operations of the
  scheduler, its invariant (\<open>sched_ok\<close>), and that each step keeps it. The steps of the wait queues
  are among its steps (\<open>wait_step_world\<close>).
\<close>

section \<open>Processors and threads as a transition system\<close>

text \<open>
  Where a processor is: in the scheduler's loop, in a thread, or back from a thread that it has
  not yet put into a queue again. The number is the loop's counter.
\<close>

datatype phase = In_sched nat | Running ptr nat | Leaving ptr nat

fun held :: "phase \<Rightarrow> ptr set" where
  "held (In_sched n) = {}"
| "held (Running t n) = {t}"
| "held (Leaving t n) = {t}"

text \<open>
  The steps of processor \<open>c\<close>. \<open>T\<close> is the set of threads that have been started and not torn down,
  which happens to threads that no processor holds. In \<open>ss_world\<close> any
  thread is blocked, woken, interrupted or marked by the rest of the kernel, which leaves the fields
  of the scheduler alone.
\<close>

inductive sched_step :: "ptr set \<times> sched \<times> (nat \<Rightarrow> phase) \<Rightarrow> ptr set \<times> sched \<times> (nat \<Rightarrow> phase) \<Rightarrow> bool" where
  ss_dispatch: "c < nproc s \<Longrightarrow> ph c = In_sched n \<Longrightarrow> run_round locked c n s = Some (Some t, k, s1) \<Longrightarrow>
    switch_in c t s1 = Some (True, s2) \<Longrightarrow> sched_step (T, s, ph) (T, s2, ph(c := Running t k))"
| ss_refused: "c < nproc s \<Longrightarrow> ph c = In_sched n \<Longrightarrow> run_round locked c n s = Some (Some t, k, s1) \<Longrightarrow>
    switch_in c t s1 = Some (False, s2) \<Longrightarrow> sched_step (T, s, ph) (T, s2, ph(c := Leaving t k))"
| ss_idle: "c < nproc s \<Longrightarrow> ph c = In_sched n \<Longrightarrow> run_round locked c n s = Some (None, k, s1) \<Longrightarrow>
    sched_step (T, s, ph) (T, s1, ph(c := In_sched k))"
| ss_yield: "c < nproc s \<Longrightarrow> ph c = Running t n \<Longrightarrow> yield_out t lock s = Some s1 \<Longrightarrow>
    sched_step (T, s, ph) (T, switch_out c t s1, ph(c := Leaving t n))"
| ss_requeue: "c < nproc s \<Longrightarrow> ph c = Leaving t n \<Longrightarrow>
    sched_step (T, s, ph) (T, sched_add_task c t s, ph(c := In_sched n))"
| ss_tick: "c < nproc s \<Longrightarrow> sched_step (T, s, ph) (T, handle_tick id c s, ph)"
| ss_start: "c < nproc s \<Longrightarrow> t \<notin> T \<Longrightarrow> \<not> run_locked (sthds s t) \<Longrightarrow>
    sched_step (T, s, ph) (insert t T, kickoff c t st s, ph)"
| ss_teardown: "t \<in> T \<Longrightarrow> (\<And>c. c < nproc s \<Longrightarrow> t \<notin> held (ph c)) \<Longrightarrow> sched_remove_task t s = Some s1 \<Longrightarrow>
    sched_step (T, s, ph) (T - {t}, s1, ph)"
| ss_world: "(\<And>u. sched_info (wthds w u) = sched_info (sthds s u) \<and> stats (wthds w u) = stats (sthds s u)
      \<and> run_locked (wthds w u) = run_locked (sthds s u)) \<Longrightarrow>
    sched_step (T, s, ph) (T, s\<lparr>wst := w\<rparr>, ph)"

definition sched_start :: "sched \<Rightarrow> (nat \<Rightarrow> phase) \<Rightarrow> bool" where
  "sched_start s ph \<longleftrightarrow> (\<forall>c < nproc s. ph c = In_sched 0 \<and> (\<forall>p. queues (mlfqs s c) p = \<lparr>qfront = None, qback = None\<rparr>)
     \<and> core (mlfqs s c) = int c \<and> next_worksteal (mlfqs s c) = 0 \<and> next_thread (cpus s c) = None \<and> current_thread (cpus s c) = None)"

inductive sched_reachable :: "ptr set \<times> sched \<times> (nat \<Rightarrow> phase) \<Rightarrow> bool" where
  sr_start: "sched_start s ph \<Longrightarrow> sched_reachable ({}, s, ph)"
| sr_step: "sched_reachable x \<Longrightarrow> sched_step x y \<Longrightarrow> sched_reachable y"

section \<open>The invariant\<close>

definition sched_ok :: "ptr set \<Rightarrow> sched \<Rightarrow> (nat \<Rightarrow> phase) \<Rightarrow> (nat \<Rightarrow> ptr set) \<Rightarrow> bool" where
  "sched_ok T s ph qt \<longleftrightarrow> queues_ok s qt
     \<and> T = (\<Union>c < nproc s. qt c \<union> held (ph c))
     \<and> (\<forall>c < nproc s. \<forall>c' < nproc s. qt c \<inter> held (ph c') = {})
     \<and> (\<forall>c < nproc s. \<forall>c' < nproc s. c \<noteq> c' \<longrightarrow> held (ph c) \<inter> held (ph c') = {})
     \<and> (\<forall>c < nproc s. \<forall>t. (t \<in> qt c \<or> (\<exists>n. ph c = Leaving t n)) \<longrightarrow> \<not> run_locked (sthds s t))
     \<and> (\<forall>c < nproc s. next_thread (cpus s c) = None
          \<and> current_thread (cpus s c) = (case ph c of Running t n \<Rightarrow> Some t | _ \<Rightarrow> None))"

lemma sched_okD:
  assumes "sched_ok T s ph qt"
  shows "queues_ok s qt" "T = (\<Union>c < nproc s. qt c \<union> held (ph c))"
    "c < nproc s \<Longrightarrow> c' < nproc s \<Longrightarrow> qt c \<inter> held (ph c') = {}"
    "c < nproc s \<Longrightarrow> c' < nproc s \<Longrightarrow> c \<noteq> c' \<Longrightarrow> held (ph c) \<inter> held (ph c') = {}"
    "c < nproc s \<Longrightarrow> t \<in> qt c \<or> (\<exists>n. ph c = Leaving t n) \<Longrightarrow> \<not> run_locked (sthds s t)"
    "c < nproc s \<Longrightarrow> next_thread (cpus s c) = None"
    "c < nproc s \<Longrightarrow> current_thread (cpus s c) = (case ph c of Running t n \<Rightarrow> Some t | _ \<Rightarrow> None)"
  using assms unfolding sched_ok_def by blast+

lemma sched_start_ok:
  assumes "sched_start s ph"
  shows "sched_ok {} s ph (\<lambda>_. {})"
proof -
  have "mlfq_lists (sthds s, mlfqs s c) (\<lambda>_. [])" if "c < nproc s" for c
    using assms that by (simp add: sched_start_def mlfq_lists_def queue_list_empty)
  moreover have "mlfq_tids (\<lambda>_. []) = {}" by (simp add: mlfq_tids_def)
  ultimately show ?thesis using assms by (auto simp: sched_start_def sched_ok_def queues_ok_def)
qed

text \<open>The threads that a processor holds or queues, after it takes one from a queue.\<close>

lemma sched_ok_take:
  assumes ok: "sched_ok T s ph qt" and c: "c < nproc s" "ph c = In_sched n"
    and r: "run_round locked c n s = Some (Some t, k, s1)"
  shows "\<exists>qt'. queues_ok s1 qt' \<and> (\<forall>v < nproc s. t \<notin> qt' v) \<and> nproc s1 = nproc s \<and> \<not> run_locked (sthds s1 t)
    \<and> thd_state (sthds s1 t) = PS_RUNNING
    \<and> (\<forall>u. run_locked (sthds s1 u) = run_locked (sthds s u)) \<and> (\<exists>v < nproc s. t \<in> qt v \<and> qt' = qt(v := qt v - {t}))
    \<and> (\<forall>v < nproc s. next_thread (cpus s1 v) = None \<and> current_thread (cpus s1 v) = current_thread (cpus s v))"
proof -
  note d = sched_okD [OF ok]
  obtain s0 qt' where p: "picked s qt (Some t) s0 qt'" "wst s1 = wst s0" "mlfqs s1 = mlfqs s0" "nproc s1 = nproc s"
      "\<forall>v. current_thread (cpus s1 v) = current_thread (cpus s v)" "\<forall>v. v \<noteq> c \<longrightarrow> cpus s1 v = cpus s v"
      "next_thread (cpus s1 c) = None"
    using run_round_ok [OF d(1) c(1) d(6) [OF c(1)], of locked n] r by auto
  have q: "queues_ok s1 qt'"
    by (rule queues_ok_thds [of s0]) (use p in \<open>auto simp: picked_def\<close>)
  have ns: "no_sched (sthds s1 u) = no_sched (sthds s u)" for u using p(1, 2) by (simp add: picked_def)
  have rl: "run_locked (sthds s1 u) = run_locked (sthds s u)" for u
    using arg_cong [OF ns [of u], of run_locked] by (simp add: no_sched_def)
  have st: "thd_state (sthds s1 t) = PS_RUNNING"
    using arg_cong [OF ns [of t], of thd_state] p(1) by (simp add: no_sched_def picked_def)
  obtain v where v: "v < nproc s" "t \<in> qt v" "qt' = qt(v := qt v - {t})" using p(1) by (auto simp: picked_def)
  have out: "t \<notin> qt' w" if "w < nproc s" for w
    using v queues_okD(5) [OF d(1) v(1) that] that by auto
  have nl: "\<not> run_locked (sthds s1 t)" using rl d(5) [OF v(1)] v(2) by auto
  have cp: "next_thread (cpus s1 w) = None \<and> current_thread (cpus s1 w) = current_thread (cpus s w)" if "w < nproc s" for w
    using p(5-7) d(6) [OF that] by (cases "w = c") auto
  show ?thesis using q out p(4) nl st rl v cp by (intro exI [of _ qt']) blast
qed

text \<open>Waking and waiting leave the scheduler's fields of all threads alone.\<close>

definition sched_same :: "thread_store \<Rightarrow> thread_store \<Rightarrow> bool" where
  "sched_same h h' \<longleftrightarrow> (\<forall>u. sched_info (h' u) = sched_info (h u) \<and> stats (h' u) = stats (h u) \<and> run_locked (h' u) = run_locked (h u))"

lemma sched_same_refl [simp]: "sched_same h h" by (simp add: sched_same_def)

lemma sched_same_trans: "sched_same h h' \<Longrightarrow> sched_same h' h'' \<Longrightarrow> sched_same h h''" by (simp add: sched_same_def)

lemma sched_same_state [simp]: "sched_same h (thread_set_state h t st)" "sched_same h (unblock h t b)"
  by (auto simp: sched_same_def unblock_def thread_set_state_def)

lemma wake_loop_same:
  assumes "wake_loop q c n nr b s = Some y"
  shows "sched_same (wthds s) (wthds (snd y))"
proof (rule wake_loop.raw_induct [where P = "\<lambda>q c n nr b s y. sched_same (wthds s) (wthds (snd y))", OF _ assms])
  fix wl q c n nr b s and y :: "bool \<times> wait_store"
  assume IH: "\<And>q c n nr b s y. wl q c n nr b s = Some y \<Longrightarrow> sched_same (wthds s) (wthds (snd y))"
    and step: "(if c = q then Some (b, s)
      else let flags = we_flags (wents s c); (woke_up, s) = call_wake_func c s; b = (b \<or> woke_up);
               excl = (woke_up \<and> flags AND WQ_FLAG_EXCLUSIVE \<noteq> 0); nr = (if excl then nr - 1 else nr)
           in if excl \<and> nr = 0 then Some (b, s) else wl q n (lh_next (wlists s) n) nr b s) = Some y"
  define s1 where "s1 = snd (call_wake_func c s)"
  have c: "call_wake_func c s = (True, s1)" using call_wake_func_woke [of c s] by (simp add: s1_def prod_eq_iff)
  have s1: "sched_same (wthds s) (wthds s1)" by (simp add: s1_def)
  show "sched_same (wthds s) (wthds (snd y))"
    using step s1 sched_same_trans [OF s1 IH] by (auto simp: c Let_def split: if_splits)
qed

lemma wake_up_common_same:
  assumes "wake_up_common q nr s = Some s'"
  shows "sched_same (wthds s) (wthds s')"
  using assms by (auto simp: wake_up_common_def Let_def dest!: wake_loop_same)

lemma fold_link_same: "wthds (fold (\<lambda>qe s. multi_link_one qe (multi_bind_one x qe s)) qes s) = wthds s"
  by (induction qes arbitrary: s) (simp_all add: multi_link_one_def multi_bind_one_def)

lemma wait_step_same:
  assumes "wait_step Q s s'"
  shows "sched_same (wthds s) (wthds s')"
  using assms
proof (induction rule: wait_step.induct)
  case (ws_wake q nr s s')
  then show ?case using wake_up_common_same by simp
next
  case (ws_multi s t qes x)
  then show ?case by (simp add: multi_wait_begin_eq fold_link_same wq_set_state_def)
qed (auto simp: wait_entry_new_def wq_wait_def wq_wait_exclusive_def prepare_to_wait_def prepare_to_wait_exclusive_def Let_def
    wq_set_state_def wait_entry_destroy_def wq_finish_def thread_interrupt_def split: if_splits option.splits)

text \<open>Every step of the wait queues is one of the scheduler's transition system.\<close>

lemma wait_step_world: "wait_step Q (wst s) w \<Longrightarrow> sched_step (T, s, ph) (T, s\<lparr>wst := w\<rparr>, ph)"
  using wait_step_same by (intro ss_world) (auto simp: sched_same_def)

lemma queues_ok_same:
  assumes "queues_ok s qt" "nproc s' = nproc s" "mlfqs s' = mlfqs s" "sched_same (sthds s) (sthds s')"
  shows "queues_ok s' qt"
  by (rule queues_ok_thds [OF assms(1-3)]) (use assms(4) in \<open>simp add: sched_same_def\<close>)

section \<open>Each step keeps the invariant\<close>

lemma sched_okI:
  assumes "queues_ok s qt" "T = (\<Union>c < nproc s. qt c \<union> held (ph c))"
    "\<And>c c'. c < nproc s \<Longrightarrow> c' < nproc s \<Longrightarrow> qt c \<inter> held (ph c') = {}"
    "\<And>c c'. c < nproc s \<Longrightarrow> c' < nproc s \<Longrightarrow> c \<noteq> c' \<Longrightarrow> held (ph c) \<inter> held (ph c') = {}"
    "\<And>c t. c < nproc s \<Longrightarrow> t \<in> qt c \<or> (\<exists>n. ph c = Leaving t n) \<Longrightarrow> \<not> run_locked (sthds s t)"
    "\<And>c. c < nproc s \<Longrightarrow> next_thread (cpus s c) = None"
    "\<And>c. c < nproc s \<Longrightarrow> current_thread (cpus s c) = (case ph c of Running t n \<Rightarrow> Some t | _ \<Rightarrow> None)"
  shows "sched_ok T s ph qt"
  using assms unfolding sched_ok_def by blast

text \<open>Taking a thread from a queue and holding it.\<close>

lemma sched_ok_hold:
  assumes ok: "sched_ok T s ph qt" and c: "c < nproc s" "ph c = In_sched n" "held p = {t}"
    and v: "v < nproc s" "t \<in> qt v" "qt' = qt(v := qt v - {t})"
    and q: "queues_ok s2 qt'" "nproc s2 = nproc s"
    and rl: "\<And>u. u \<noteq> t \<Longrightarrow> run_locked (sthds s2 u) = run_locked (sthds s u)" "\<And>u k. p = Leaving u k \<Longrightarrow> \<not> run_locked (sthds s2 u)"
    and cpu: "\<And>w. w < nproc s \<Longrightarrow> next_thread (cpus s2 w) = None"
      "\<And>w. w < nproc s \<Longrightarrow> w \<noteq> c \<Longrightarrow> current_thread (cpus s2 w) = current_thread (cpus s w)"
      "current_thread (cpus s2 c) = (case p of Running t n \<Rightarrow> Some t | _ \<Rightarrow> None)"
  shows "sched_ok T s2 (ph(c := p)) qt'"
proof -
  note d = sched_okD [OF ok]
  have tq: "t \<notin> qt' w" if "w < nproc s" for w using v queues_okD(5) [OF d(1) v(1) that] that by auto
  have th: "t \<notin> held (ph w)" if "w < nproc s" for w using d(3) [OF v(1) that] v(2) by auto
  have sub: "qt' w \<subseteq> qt w" for w using v(3) by auto
  show ?thesis
  proof (rule sched_okI [OF q(1)], unfold q(2))
    have a: "held ((ph(c := p)) w) \<subseteq> insert t (held (ph w))" "qt w \<subseteq> insert t (qt' w)" "held (ph w) \<subseteq> held ((ph(c := p)) w)" for w
      using v(3) c by auto
    have b: "t \<in> held ((ph(c := p)) c)" using c(3) by simp
    have "(\<Union>w < nproc s. qt' w \<union> held ((ph(c := p)) w)) \<subseteq> (\<Union>w < nproc s. qt w \<union> held (ph w))"
      using a(1) sub v(1, 2) by blast
    moreover have "(\<Union>w < nproc s. qt w \<union> held (ph w)) \<subseteq> (\<Union>w < nproc s. qt' w \<union> held ((ph(c := p)) w))"
      using a(2, 3) b c(1) by blast
    ultimately have "(\<Union>w < nproc s. qt' w \<union> held ((ph(c := p)) w)) = (\<Union>w < nproc s. qt w \<union> held (ph w))" by (rule subset_antisym)
    then show "T = (\<Union>w < nproc s. qt' w \<union> held ((ph(c := p)) w))" using d(2) by simp
  next
    fix a b assume "a < nproc s" "b < nproc s"
    then show "qt' a \<inter> held ((ph(c := p)) b) = {}" using d(3) [of a b] sub [of a] tq [of a] c(3) by auto
  next
    fix a b assume "a < nproc s" "b < nproc s" "a \<noteq> b"
    then show "held ((ph(c := p)) a) \<inter> held ((ph(c := p)) b) = {}" using d(4) [of a b] th c(3) by auto
  next
    fix a u assume a: "a < nproc s" "u \<in> qt' a \<or> (\<exists>n. (ph(c := p)) a = Leaving u n)"
    show "\<not> run_locked (sthds s2 u)"
    proof (cases "a = c \<and> (\<exists>n. p = Leaving u n)")
      case True
      then show ?thesis using rl(2) by blast
    next
      case False
      then have "u \<in> qt a \<or> (\<exists>n. ph a = Leaving u n)" using a sub by (auto split: if_splits)
      moreover have "u \<noteq> t" using a False tq [OF a(1)] th [OF a(1)] by (auto split: if_splits)
      ultimately show ?thesis using d(5) [OF a(1)] rl(1) by simp
    qed
  next
    fix a assume "a < nproc s"
    then show "next_thread (cpus s2 a) = None" by (rule cpu(1))
    show "current_thread (cpus s2 a) = (case (ph(c := p)) a of Running t n \<Rightarrow> Some t | _ \<Rightarrow> None)"
      using cpu(2) [OF \<open>a < nproc s\<close>] cpu(3) d(7) [OF \<open>a < nproc s\<close>] by (cases "a = c") auto
  qed
qed

lemma sched_ok_thd:
  assumes ok: "sched_ok T s ph qt" and s: "nproc s' = nproc s" "mlfqs s' = mlfqs s" "cpus s' = cpus s"
    and same: "sched_same (sthds s) (sthds s')"
  shows "sched_ok T s' ph qt"
  using ok queues_ok_same [OF sched_okD(1) [OF ok] s(1, 2) same] same
  unfolding sched_ok_def s sched_same_def by simp

lemma switch_in_sel:
  assumes "switch_in c t s = Some (b, s')"
  shows "nproc s' = nproc s" "mlfqs s' = mlfqs s" "b \<Longrightarrow> current_thread (cpus s' c) = Some t"
    "\<not> b \<Longrightarrow> s' = s" "u \<noteq> t \<Longrightarrow> sthds s' u = sthds s u" "w \<noteq> c \<Longrightarrow> cpus s' w = cpus s w"
    "next_thread (cpus s' w) = next_thread (cpus s w)"
  using assms by (auto simp: switch_in_def Let_def split: if_splits option.splits)

lemma switch_in_queues:
  assumes ok: "queues_ok s qt" and t: "\<And>v. v < nproc s \<Longrightarrow> t \<notin> qt v" and r: "switch_in c t s = Some (b, s')"
  shows "queues_ok s' qt"
  by (rule queues_ok_thds [OF ok switch_in_sel(1, 2) [OF r]]) (use t switch_in_sel(5) [OF r] in \<open>metis\<close>)

lemma step_dispatch_ok:
  assumes ok: "sched_ok T s ph qt" and c: "c < nproc s" "ph c = In_sched n"
    and r: "run_round locked c n s = Some (Some t, k, s1)" and i: "switch_in c t s1 = Some (b, s2)"
  shows "\<exists>qt'. sched_ok T s2 (ph(c := (if b then Running t k else Leaving t k))) qt'"
proof -
  obtain qt' v where q: "queues_ok s1 qt'" "\<And>v. v < nproc s \<Longrightarrow> t \<notin> qt' v" "nproc s1 = nproc s" "\<not> run_locked (sthds s1 t)"
      "\<And>u. run_locked (sthds s1 u) = run_locked (sthds s u)" "v < nproc s" "t \<in> qt v" "qt' = qt(v := qt v - {t})"
      "\<And>v. v < nproc s \<Longrightarrow> next_thread (cpus s1 v) = None \<and> current_thread (cpus s1 v) = current_thread (cpus s v)"
    using sched_ok_take [OF ok c r] by blast
  note w = switch_in_sel [OF i]
  have ct: "current_thread (cpus s c) = None" using sched_okD(7) [OF ok c(1)] c(2) by simp
  have q2: "queues_ok s2 qt'" by (rule switch_in_queues [OF q(1) _ i]) (use q(2, 3) in simp)
  have "sched_ok T s2 (ph(c := (if b then Running t k else Leaving t k))) qt'"
  proof (rule sched_ok_hold [OF ok c _ q(6-8) q2])
    show "current_thread (cpus s2 c) = (case if b then Running t k else Leaving t k of Running t n \<Rightarrow> Some t | _ \<Rightarrow> None)"
      using w(3, 4) q(9) [OF c(1)] ct by (cases b) auto
    fix u j assume "(if b then Running t k else Leaving t k) = Leaving u j"
    then show "\<not> run_locked (sthds s2 u)" using w(4) q(4) by (auto split: if_splits)
  qed (use w q c in auto)
  then show ?thesis by blast
qed

lemma step_idle_ok:
  assumes ok: "sched_ok T s ph qt" and c: "c < nproc s" "ph c = In_sched n"
    and r: "run_round locked c n s = Some (None, k, s1)"
  shows "sched_ok T s1 (ph(c := In_sched k)) qt"
proof -
  note d = sched_okD [OF ok]
  obtain s0 qt' where p: "picked s qt None s0 qt'" "wst s1 = wst s0" "mlfqs s1 = mlfqs s0" "nproc s1 = nproc s"
      "\<forall>v. current_thread (cpus s1 v) = current_thread (cpus s v)" "\<forall>v. v \<noteq> c \<longrightarrow> cpus s1 v = cpus s v"
      "next_thread (cpus s1 c) = None"
    using run_round_ok [OF d(1) c(1) d(6) [OF c(1)], of locked n] r by auto
  have qt: "qt' = qt" using p(1) by (simp add: picked_def)
  have q: "queues_ok s1 qt" by (rule queues_ok_thds [of s0]) (use p qt in \<open>auto simp: picked_def\<close>)
  have rl: "run_locked (sthds s1 u) = run_locked (sthds s u)" for u
  proof -
    have "no_sched (sthds s1 u) = no_sched (sthds s u)" using p(1, 2) by (simp add: picked_def)
    from arg_cong [OF this, of run_locked] show ?thesis by (simp add: no_sched_def)
  qed
  have h: "held ((ph(c := In_sched k)) w) = held (ph w)" for w using c(2) by simp
  show ?thesis
  proof (rule sched_okI [OF q], unfold p(4) h)
    fix a t assume a: "a < nproc s" "t \<in> qt a \<or> (\<exists>n. (ph(c := In_sched k)) a = Leaving t n)"
    then have "t \<in> qt a \<or> (\<exists>n. ph a = Leaving t n)" by (auto split: if_splits)
    then show "\<not> run_locked (sthds s1 t)" using d(5) [OF a(1)] rl by simp
  next
    fix a assume a: "a < nproc s"
    show "next_thread (cpus s1 a) = None" using p(6, 7) d(6) [OF a] by (cases "a = c") auto
    show "current_thread (cpus s1 a) = (case (ph(c := In_sched k)) a of Running t n \<Rightarrow> Some t | _ \<Rightarrow> None)"
      using p(5) d(7) [OF a] c(2) by (cases "a = c") auto
  qed (use d in auto)
qed

text \<open>A thread gives up the processor.\<close>

lemma yield_sel:
  assumes "yield_out t lock s = Some s1"
  shows "nproc s1 = nproc s" "mlfqs s1 = mlfqs s" "cpus s1 = cpus s"
    "sched_info (sthds s1 u) = sched_info (sthds s u)" "run_locked (sthds s1 u) = run_locked (sthds s u)"
    "u \<noteq> t \<Longrightarrow> stats (sthds s1 u) = stats (sthds s u)" "current_cpu (stats (sthds s1 t)) = -1"
proof -
  define s0 where "s0 = upd_thd t (\<lambda>d. d\<lparr>held_lock := lock\<rparr>) s"
  obtain w where w: "(if thd_state (sthds s0 t) = PS_ZOMBIE then wake_up (joiners (sthds s0 t)) (wst s0) else Some (wst s0)) = Some w"
      and s1: "s1 = upd_thd t (\<lambda>d. d\<lparr>stats := (stats d)\<lparr>last_cpu := current_cpu (stats d), current_cpu := -1\<rparr>\<rparr>) (s0\<lparr>wst := w\<rparr>)"
    using assms by (auto simp: yield_out_def Let_def s0_def [symmetric])
  have same: "sched_same (sthds s0) (wthds w)"
    using w by (auto simp: wake_up_def dest: wake_up_common_same split: if_splits)
  have s0: "sched_same (sthds s) (sthds s0)" by (simp add: s0_def sched_same_def)
  show "nproc s1 = nproc s" "mlfqs s1 = mlfqs s" "cpus s1 = cpus s"
    "sched_info (sthds s1 u) = sched_info (sthds s u)" "run_locked (sthds s1 u) = run_locked (sthds s u)"
    "u \<noteq> t \<Longrightarrow> stats (sthds s1 u) = stats (sthds s u)" "current_cpu (stats (sthds s1 t)) = -1"
    using same s0 unfolding s1 sched_same_def by (simp_all add: s0_def)
qed

lemma switch_out_sel:
  "nproc (switch_out c t s) = nproc s" "mlfqs (switch_out c t s) = mlfqs s"
  "cpus (switch_out c t s) = (cpus s)(c := (cpus s c)\<lparr>current_thread := None\<rparr>)"
  "sched_info (sthds (switch_out c t s) u) = sched_info (sthds s u)" "stats (sthds (switch_out c t s) u) = stats (sthds s u)"
  "run_locked (sthds (switch_out c t s) u) = (u \<noteq> t \<and> run_locked (sthds s u))"
  by (auto simp: switch_out_def Let_def split: option.splits)

lemma step_yield_ok:
  assumes ok: "sched_ok T s ph qt" and c: "c < nproc s" "ph c = Running t n" and y: "yield_out t lock s = Some s1"
  shows "sched_ok T (switch_out c t s1) (ph(c := Leaving t n)) qt"
proof -
  note d = sched_okD [OF ok] and w = yield_sel [OF y]
  have tq: "t \<notin> qt v" if "v < nproc s" for v using d(3) [OF that c(1)] c(2) by auto
  have q: "queues_ok (switch_out c t s1) qt"
  proof (rule queues_ok_thds [OF d(1)])
    fix v u assume v: "v < nproc s" "u \<in> qt v"
    then have "u \<noteq> t" using tq by auto
    then show "nextp (sthds (switch_out c t s1)) u = nextp (sthds s) u \<and> prevp (sthds (switch_out c t s1)) u = prevp (sthds s) u
      \<and> priority (sched_info (sthds (switch_out c t s1) u)) = priority (sched_info (sthds s u))
      \<and> current_cpu (stats (sthds (switch_out c t s1) u)) = current_cpu (stats (sthds s u))"
      by (simp add: switch_out_sel w)
  qed (simp_all add: switch_out_sel w)
  have np: "nproc (switch_out c t s1) = nproc s" by (simp add: switch_out_sel w)
  have h: "held ((ph(c := Leaving t n)) v) = held (ph v)" for v using c(2) by simp
  show ?thesis
  proof (rule sched_okI [OF q], unfold np h)
    fix a u assume a: "a < nproc s" "u \<in> qt a \<or> (\<exists>k. (ph(c := Leaving t n)) a = Leaving u k)"
    show "\<not> run_locked (sthds (switch_out c t s1) u)"
    proof (cases "u = t")
      case False
      then have "u \<in> qt a \<or> (\<exists>k. ph a = Leaving u k)" using a(2) by (auto split: if_splits)
      then show ?thesis using d(5) [OF a(1)] by (simp add: switch_out_sel w)
    qed (simp add: switch_out_sel)
  next
    fix a assume a: "a < nproc s"
    show "next_thread (cpus (switch_out c t s1) a) = None" using d(6) [OF a] by (auto simp: switch_out_sel w)
    show "current_thread (cpus (switch_out c t s1) a) = (case (ph(c := Leaving t n)) a of Running t n \<Rightarrow> Some t | _ \<Rightarrow> None)"
      using d(7) [OF a] by (simp add: switch_out_sel w)
  qed (use d in auto)
qed

lemma sched_add_task_sel:
  "nproc (sched_add_task c t s) = nproc s" "cpus (sched_add_task c t s) = cpus s"
  "run_locked (sthds (sched_add_task c t s) u) = run_locked (sthds s u)"
proof -
  have "run_locked (fst (mlfq_add (h, m) t b) u) = run_locked (h u)" for h m b
  proof -
    define h1 where "h1 = upd_sched (upd_stats h t (\<lambda>i. i\<lparr>current_cpu := core m\<rparr>)) t (mlfq_grade b)"
    have "run_locked (h1 u) = run_locked (h u)" by (simp add: h1_def upd_sched_def upd_stats_def)
    then show ?thesis
      using no_links_eqD(7) [OF queue_add_task_no_links [of "(h1, queues m (nat (priority (sched_info (h1 t)))))" t u]]
      by (simp only: mlfq_add_def Let_def on_queue_fst h1_def [symmetric] prod.case fst_conv)
  qed
  then show "run_locked (sthds (sched_add_task c t s) u) = run_locked (sthds s u)" by (simp add: sched_add_task_def Let_def)
qed (simp_all add: sched_add_task_def Let_def)

text \<open>A thread that no queue has is added; the processor \<open>c\<close> may have held it.\<close>

lemma sched_ok_add:
  assumes ok: "sched_ok T s ph qt" and c: "c < nproc s" and t: "\<And>v. v < nproc s \<Longrightarrow> t \<notin> qt v" "\<not> run_locked (sthds s t)"
    and ph: "\<And>v. v < nproc s \<Longrightarrow> held (ph' v) = held (ph v) - {t}"
      "\<And>v u n. v < nproc s \<Longrightarrow> ph' v = Leaving u n \<Longrightarrow> ph v = Leaving u n"
      "\<And>v. v < nproc s \<Longrightarrow> (case ph' v of Running t n \<Rightarrow> Some t | _ \<Rightarrow> None) = (case ph v of Running t n \<Rightarrow> Some t | _ \<Rightarrow> None)"
  shows "sched_ok (insert t T) (sched_add_task c t s) ph' (qt(c := insert t (qt c)))"
proof -
  note d = sched_okD [OF ok] and w = sched_add_task_sel [of c t s]
  show ?thesis
  proof (rule sched_okI [OF sched_add_task_ok [OF d(1) c t(1)]], unfold w)
    have "(\<Union>v < nproc s. (qt(c := insert t (qt c))) v \<union> held (ph' v)) = insert t (\<Union>v < nproc s. qt v \<union> held (ph v))"
    proof -
      have a: "(qt(c := insert t (qt c))) v \<union> held (ph' v) \<subseteq> insert t (qt v \<union> held (ph v))"
          "qt v \<union> held (ph v) \<subseteq> insert t ((qt(c := insert t (qt c))) v \<union> held (ph' v))" if "v < nproc s" for v
        using ph(1) [OF that] by auto
      have b: "t \<in> (qt(c := insert t (qt c))) c" by simp
      have "(\<Union>v < nproc s. (qt(c := insert t (qt c))) v \<union> held (ph' v)) \<subseteq> insert t (\<Union>v < nproc s. qt v \<union> held (ph v))"
        using a(1) by blast
      moreover have "insert t (\<Union>v < nproc s. qt v \<union> held (ph v)) \<subseteq> (\<Union>v < nproc s. (qt(c := insert t (qt c))) v \<union> held (ph' v))"
        using a(2) b c by blast
      ultimately show ?thesis by (rule subset_antisym)
    qed
    then show "insert t T = (\<Union>v < nproc s. (qt(c := insert t (qt c))) v \<union> held (ph' v))" using d(2) by simp
  next
    fix a b assume "a < nproc s" "b < nproc s"
    then show "(qt(c := insert t (qt c))) a \<inter> held (ph' b) = {}" using d(3) [of a b] ph(1) [of b] by auto
  next
    fix a b assume "a < nproc s" "b < nproc s" "a \<noteq> b"
    then show "held (ph' a) \<inter> held (ph' b) = {}" using d(4) [of a b] ph(1) by auto
  next
    fix a u assume a: "a < nproc s" "u \<in> (qt(c := insert t (qt c))) a \<or> (\<exists>n. ph' a = Leaving u n)"
    then have "u = t \<or> u \<in> qt a \<or> (\<exists>n. ph a = Leaving u n)" using ph(2) by (auto split: if_splits)
    then show "\<not> run_locked (sthds s u)" using d(5) [OF a(1)] t(2) by blast
  next
    fix a assume a: "a < nproc s"
    show "next_thread (cpus s a) = None" using d(6) [OF a] .
    show "current_thread (cpus s a) = (case ph' a of Running t n \<Rightarrow> Some t | _ \<Rightarrow> None)" using d(7) [OF a] ph(3) [OF a] by simp
  qed
qed

lemma step_requeue_ok:
  assumes ok: "sched_ok T s ph qt" and c: "c < nproc s" "ph c = Leaving t n"
  shows "sched_ok T (sched_add_task c t s) (ph(c := In_sched n)) (qt(c := insert t (qt c)))"
proof -
  note d = sched_okD [OF ok]
  have "t \<in> held (ph c)" using c(2) by simp
  then have tT: "insert t T = T" using d(2) c(1) by blast
  have tq: "t \<notin> qt v" if "v < nproc s" for v using d(3) [OF that c(1)] c(2) by auto
  have th: "t \<notin> held (ph v)" if "v < nproc s" "v \<noteq> c" for v using d(4) [OF that(1) c(1) that(2)] c(2) by auto
  have "sched_ok (insert t T) (sched_add_task c t s) (ph(c := In_sched n)) (qt(c := insert t (qt c)))"
  proof (rule sched_ok_add [OF ok c(1) tq])
    show "\<not> run_locked (sthds s t)" using d(5) [OF c(1)] c(2) by blast
    show "held ((ph(c := In_sched n)) v) = held (ph v) - {t}" if "v < nproc s" for v using c th [OF that] by auto
  qed (use c in \<open>auto split: if_splits\<close>)
  then show ?thesis unfolding tT .
qed

lemma step_start_ok:
  assumes ok: "sched_ok T s ph qt" and c: "c < nproc s" and t: "t \<notin> T" "\<not> run_locked (sthds s t)"
  shows "sched_ok (insert t T) (kickoff c t st s) ph (qt(c := insert t (qt c)))"
proof -
  define s1 where "s1 = upd_thd t (\<lambda>d. d\<lparr>thd_state := st\<rparr>) s"
  have ok1: "sched_ok T s1 ph qt" by (rule sched_ok_thd [OF ok]) (simp_all add: s1_def sched_same_def)
  note d = sched_okD [OF ok]
  have tq: "t \<notin> qt v" "t \<notin> held (ph v)" if "v < nproc s" for v using t(1) d(2) that by auto
  show ?thesis unfolding kickoff_def s1_def [symmetric]
    by (rule sched_ok_add [OF ok1]) (use c t tq in \<open>auto simp: s1_def\<close>)
qed

text \<open>A tick only counts.\<close>

lemma step_tick_ok:
  assumes ok: "sched_ok T s ph qt"
  shows "sched_ok T (handle_tick id c s) ph qt"
proof (cases "current_thread (cpus s c)")
  case None
  then show ?thesis using ok by (simp add: handle_tick_def)
next
  case (Some t)
  let ?s = "handle_tick id c s"
  note d = sched_okD [OF ok]
  have sel: "nproc ?s = nproc s" "mlfqs ?s = mlfqs s" "run_locked (sthds ?s u) = run_locked (sthds s u)"
      "next_thread (cpus ?s v) = next_thread (cpus s v)" "current_thread (cpus ?s v) = current_thread (cpus s v)" for u v
    using Some by (auto simp: handle_tick_def Let_def)
  have q: "queues_ok ?s qt"
    by (rule queues_ok_thds [OF d(1) sel(1, 2)]) (use Some in \<open>auto simp: handle_tick_def Let_def\<close>)
  show ?thesis by (rule sched_okI [OF q]) (unfold sel, use d in auto)
qed

text \<open>A queued thread is torn down.\<close>

lemma sched_remove_task_ok:
  assumes ok: "queues_ok s qt" and v: "v < nproc s" "t \<in> qt v"
  shows "\<exists>s'. sched_remove_task t s = Some s' \<and> queues_ok s' (qt(v := qt v - {t})) \<and> nproc s' = nproc s \<and> cpus s' = cpus s
    \<and> (\<forall>u. run_locked (sthds s' u) = run_locked (sthds s u))"
proof -
  note d = queues_okD [OF ok v(1)]
  obtain qs where q: "mlfq_lists (sthds s, mlfqs s v) qs" "mlfq_tids qs = qt v" using d(1) by auto
  obtain p where p: "p < MLFQ_NQUEUES" "t \<in> set (qs p)" using v(2) q(2) by (auto simp: mlfq_tids_def)
  define h where "h = upd_stats (sthds s) t (\<lambda>i. i\<lparr>current_cpu := -1\<rparr>)"
  have l: "mlfq_lists (h, mlfqs s v) qs" unfolding h_def by (rule mlfq_lists_cong [OF q(1) refl]) simp
  define hm where "hm = on_queue p (\<lambda>s. queue_unlink s t) (h, mlfqs s v)"
  have cpu: "current_cpu (stats (sthds s t)) = int v" using d(6) [OF v(2)] .
  obtain xs ys where x: "qs p = xs @ t # ys" using p(2) by (meson split_list)
  have "priority (sched_info (h t)) = int p" using l p by (simp add: mlfq_lists_def)
  moreover have "queue_remove_task (h, queues (mlfqs s v) p) t = Some (queue_unlink (h, queues (mlfqs s v) p) t)"
    using queue_remove_task_list mlfq_lists_queue [OF l p(1)] x by metis
  ultimately have "mlfq_remove (sthds s, mlfqs s v) t = Some hm"
    using cpu d(2) by (simp add: mlfq_remove_def Let_def h_def [symmetric] hm_def on_queue_def split: prod.splits)
  then have r: "sched_remove_task t s = Some (put_mlfq v hm s)" using cpu by (simp add: sched_remove_task_def)
  have tch: "touches (mlfq_tids qs) h (fst hm)" unfolding hm_def by (rule unlink_touches [OF l p])
  have "queues_ok (put_mlfq v hm s) (qt(v := qt v - {t}))"
  proof (rule queues_ok_put [OF ok v(1)])
    show "mlfq_lists hm (qs(p := remove1 t (qs p)))" unfolding hm_def by (rule on_queue_unlink_lists [OF l p])
    show "mlfq_tids (qs(p := remove1 t (qs p))) = qt v - {t}" using mlfq_tids_remove1 [OF l p] q(2) by simp
    fix c assume c: "c < nproc s" "c \<noteq> v"
    then show "(qt v - {t}) \<inter> qt c = {}" using d(5) by blast
    fix u assume "u \<in> qt c"
    then have "u \<notin> mlfq_tids qs" "u \<noteq> t" using d(5) [OF c] v(2) q(2) by auto
    then show "fst hm u = sthds s u" using touchesD(4) [OF tch] by (simp add: h_def)
  next
    fix u assume "u \<in> qt v - {t}"
    then show "current_cpu (stats (fst hm u)) = int v" using touchesD(2) [OF tch, of u] d(6) [of u] by (simp add: h_def)
  qed (use d in \<open>simp_all add: hm_def\<close>)
  moreover have "run_locked (fst hm u) = run_locked (sthds s u)" for u
    using touchesD(3) [OF tch, of u] by (simp add: h_def upd_stats_def)
  ultimately show ?thesis using r by simp
qed

lemma step_teardown_ok:
  assumes ok: "sched_ok T s ph qt" and t: "t \<in> T" "\<And>c. c < nproc s \<Longrightarrow> t \<notin> held (ph c)" and r: "sched_remove_task t s = Some s1"
  shows "\<exists>qt'. sched_ok (T - {t}) s1 ph qt'"
proof -
  note d = sched_okD [OF ok]
  obtain v where v: "v < nproc s" "t \<in> qt v" using t d(2) by auto
  have q: "queues_ok s1 (qt(v := qt v - {t}))" "nproc s1 = nproc s" "cpus s1 = cpus s" "\<And>u. run_locked (sthds s1 u) = run_locked (sthds s u)"
    using sched_remove_task_ok [OF d(1) v] r by auto
  have sub: "(qt(v := qt v - {t})) w \<subseteq> qt w" for w by auto
  have out: "t \<notin> (qt(v := qt v - {t})) w" if "w < nproc s" for w using v queues_okD(5) [OF d(1) v(1) that] that by auto
  have "sched_ok (T - {t}) s1 ph (qt(v := qt v - {t}))"
  proof (rule sched_okI [OF q(1)], unfold q(2-4))
    show "T - {t} = (\<Union>w < nproc s. (qt(v := qt v - {t})) w \<union> held (ph w))"
    proof (rule subset_antisym)
      have "qt w \<subseteq> insert t ((qt(v := qt v - {t})) w)" for w by auto
      then show "T - {t} \<subseteq> (\<Union>w < nproc s. (qt(v := qt v - {t})) w \<union> held (ph w))" unfolding d(2) by blast
      show "(\<Union>w < nproc s. (qt(v := qt v - {t})) w \<union> held (ph w)) \<subseteq> T - {t}" unfolding d(2) using sub out t(2) by blast
    qed
  next
    fix a b assume "a < nproc s" "b < nproc s"
    then show "(qt(v := qt v - {t})) a \<inter> held (ph b) = {}" using d(3) [of a b] sub [of a] by blast
  next
    fix a u assume a: "a < nproc s" "u \<in> (qt(v := qt v - {t})) a \<or> (\<exists>n. ph a = Leaving u n)"
    then show "\<not> run_locked (sthds s u)" using d(5) [OF a(1)] sub [of a] by blast
  qed (use d in auto)
  then show ?thesis by blast
qed

lemma sched_step_ok:
  assumes "sched_step (T, s, ph) (T', s', ph')" "sched_ok T s ph qt"
  shows "\<exists>qt'. sched_ok T' s' ph' qt'"
  using assms(1)
proof (cases rule: sched_step.cases)
  case (ss_dispatch c n locked t k s1)
  then show ?thesis using step_dispatch_ok [OF assms(2), of c n locked t k s1 True s'] by auto
next
  case (ss_refused c n locked t k s1)
  then show ?thesis using step_dispatch_ok [OF assms(2), of c n locked t k s1 False s'] by auto
next
  case (ss_idle c n locked k)
  then show ?thesis using step_idle_ok [OF assms(2)] by blast
next
  case (ss_yield c t n lock s1)
  then show ?thesis using step_yield_ok [OF assms(2)] by blast
next
  case (ss_requeue c t n)
  then show ?thesis using step_requeue_ok [OF assms(2)] by blast
next
  case (ss_tick c)
  then show ?thesis using step_tick_ok [OF assms(2)] by blast
next
  case (ss_start c t st)
  then show ?thesis using step_start_ok [OF assms(2)] by blast
next
  case (ss_teardown t)
  then show ?thesis using step_teardown_ok [OF assms(2)] by blast
next
  case (ss_world w)
  have "sched_ok T (s\<lparr>wst := w\<rparr>) ph qt" by (rule sched_ok_thd [OF assms(2)]) (use ss_world in \<open>auto simp: sched_same_def\<close>)
  then show ?thesis using ss_world by blast
qed

lemma sched_reachable_ok: "sched_reachable x \<Longrightarrow> \<exists>qt. sched_ok (fst x) (fst (snd x)) (snd (snd x)) qt"
proof (induction rule: sched_reachable.induct)
  case (sr_start s ph)
  then show ?case using sched_start_ok by fastforce
next
  case (sr_step x y)
  then show ?case using sched_step_ok [of "fst x" "fst (snd x)" "snd (snd x)" "fst y" "fst (snd y)" "snd (snd y)"] by auto
qed

section \<open>Places\<close>

text \<open>The threads of a queue, along its links, and all the places where a thread is.\<close>

partial_function (option) queue_walk :: "thread_store \<Rightarrow> ptr option \<Rightarrow> ptr list option" where
  "queue_walk h thd =
     (case thd of None \<Rightarrow> Some [] | Some t \<Rightarrow> Option.bind (queue_walk h (nextp h t)) (\<lambda>xs. Some (t # xs)))"

definition queue_threads :: "sched \<Rightarrow> nat \<Rightarrow> nat \<Rightarrow> ptr list option" where
  "queue_threads s c p = queue_walk (sthds s) (qfront (queues (mlfqs s c) p))"

datatype place = Held nat | Queued nat nat

definition places :: "sched \<Rightarrow> (nat \<Rightarrow> phase) \<Rightarrow> ptr \<Rightarrow> place set" where
  "places s ph t = {Held c | c. c < nproc s \<and> t \<in> held (ph c)}
     \<union> {Queued c p | c p. c < nproc s \<and> p < MLFQ_NQUEUES \<and> (\<exists>xs. queue_threads s c p = Some xs \<and> t \<in> set xs)}"

lemma queue_walk_tseg: "tseg h p xs None \<Longrightarrow> queue_walk h (hd_or xs None) = Some xs"
proof (induction xs arbitrary: p)
  case Nil
  show ?case by (simp add: queue_walk.simps)
next
  case (Cons x xs)
  then show ?case by (auto simp: queue_walk.simps [of h "Some x"])
qed

lemma queue_walk_list: "queue_list (h, q) xs \<Longrightarrow> queue_walk h (qfront q) = Some xs"
  using queue_walk_tseg [of h None xs] by (simp add: queue_list_def)

lemma queue_threads_lists:
  "mlfq_lists (sthds s, mlfqs s c) qs \<Longrightarrow> p < MLFQ_NQUEUES \<Longrightarrow> queue_threads s c p = Some (qs p)"
  unfolding queue_threads_def by (rule queue_walk_list) (rule mlfq_lists_queue)

lemma places_one:
  assumes ok: "sched_ok T s ph qt"
  shows "t \<in> T \<Longrightarrow> \<exists>pl. places s ph t = {pl}" and "t \<notin> T \<Longrightarrow> places s ph t = {}"
proof -
  note d = sched_okD [OF ok]
  obtain qs where qs: "mlfq_lists (sthds s, mlfqs s c) (qs c)" "mlfq_tids (qs c) = qt c" if "c < nproc s" for c
    using queues_okD(1) [OF d(1)] by metis
  have pl: "places s ph t = {Held c | c. c < nproc s \<and> t \<in> held (ph c)}
      \<union> {Queued c p | c p. c < nproc s \<and> p < MLFQ_NQUEUES \<and> t \<in> set (qs c p)}"
    unfolding places_def using queue_threads_lists [OF qs(1)] by fastforce
  have inq: "t \<in> qt c" if "c < nproc s" "p < MLFQ_NQUEUES" "t \<in> set (qs c p)" for c p
    using qs(2) [OF that(1)] mlfq_tidsI [OF that(2), where qs = "qs c" and t = t] that(3) by simp
  show "places s ph t = {}" if "t \<notin> T"
    using that inq unfolding pl d(2) by blast
  show "\<exists>pl. places s ph t = {pl}" if tT: "t \<in> T"
  proof -
    consider c where "c < nproc s" "t \<in> held (ph c)" | c where "c < nproc s" "t \<in> qt c" using tT unfolding d(2) by blast
    then show ?thesis
    proof cases
      case (1 c)
      have "a = c" if "a < nproc s" "t \<in> held (ph a)" for a using d(4) [OF that(1) 1(1)] that(2) 1(2) by blast
      moreover have "\<not> (a < nproc s \<and> p < MLFQ_NQUEUES \<and> t \<in> set (qs a p))" for a p
        using inq d(3) [of a c] 1 by blast
      ultimately have "places s ph t = {Held c}" unfolding pl using 1 by blast
      then show ?thesis by blast
    next
      case (2 c)
      then obtain p where p: "p < MLFQ_NQUEUES" "t \<in> set (qs c p)" using qs(2) [OF 2(1)] by (auto simp: mlfq_tids_def)
      have "t \<notin> held (ph a)" if "a < nproc s" for a using d(3) [OF 2(1) that] 2(2) by blast
      moreover have "a = c \<and> b = p" if "a < nproc s" "b < MLFQ_NQUEUES" "t \<in> set (qs a b)" for a b
      proof -
        have a: "a = c" using queues_okD(5) [OF d(1) 2(1) that(1)] 2(2) inq [OF that] by blast
        then have "b = p" using qs(1) [OF 2(1)] p that by (auto simp: mlfq_lists_def)
        then show ?thesis using a by simp
      qed
      ultimately have "places s ph t = {Queued c p}" unfolding pl using 2 p by blast
      then show ?thesis by blast
    qed
  qed
qed

section \<open>Properties\<close>

text \<open>Two idle processors, for the witnesses.\<close>

definition idle_sched :: sched where
  "idle_sched = \<lparr>wst = quiet_store,
     mlfqs = (\<lambda>c. \<lparr>core = int c, next_worksteal = 0, active = True, queues = (\<lambda>_. \<lparr>qfront = None, qback = None\<rparr>)\<rparr>),
     cpus = (\<lambda>_. \<lparr>current_thread = None, next_thread = None, uticks = 0, kticks = 0, iticks = 0\<rparr>),
     nproc = 2, spin_locked = (\<lambda>_. False)\<rparr>"

lemma idle_sched_start: "sched_start idle_sched (\<lambda>_. In_sched 0)"
  by (simp add: sched_start_def idle_sched_def quiet_store_def)

lemma idle_sched_kickoff: "sched_reachable ({64}, kickoff 1 64 0 idle_sched, \<lambda>_. In_sched 0)"
  by (rule sr_step [OF sr_start [OF idle_sched_start]], rule ss_start) (simp_all add: idle_sched_def quiet_store_def)

lemma kickoff_round:
  "\<exists>s1 s2. run_round True 1 0 (kickoff 1 64 0 idle_sched) = Some (Some 64, 1, s1) \<and> switch_in 1 64 s1 = Some (True, s2)
     \<and> nproc s2 = 2 \<and> thd_state (sthds s2 64) = PS_RUNNING"
  by (simp add: kickoff_def sched_add_task_def mlfq_add_def mlfq_grade_def upd_sched_def upd_stats_def on_queue_def queue_add_task_def idle_sched_def quiet_store_def
      run_round_def pick_next_thread_def get_next_thread_def mlfq_get_next_def pick_loop.simps [of 0] queue_pick_next_def queue_scan.simps [of _ "Some _"]
      queue_remove_task_def queue_unlink_def Let_def upd_thd_def upd_cpu_def put_mlfq_def set_thds_def set_nextp_def set_prevp_def MLFQ_NQUEUES_def MLFQ_MIN_RT_def PS_defs switch_in_def)

lemma dispatched_reachable:
  "\<exists>s. sched_reachable ({64}, s, (\<lambda>_. In_sched 0)(1 := Running 64 1)) \<and> nproc s = 2 \<and> thd_state (sthds s 64) = PS_RUNNING"
proof -
  obtain s1 s2 where s: "run_round True 1 0 (kickoff 1 64 0 idle_sched) = Some (Some 64, 1, s1)" "switch_in 1 64 s1 = Some (True, s2)"
      "nproc s2 = 2" "thd_state (sthds s2 64) = PS_RUNNING" using kickoff_round by blast
  have "sched_reachable ({64}, s2, (\<lambda>_. In_sched 0)(1 := Running 64 1))"
    by (rule sr_step [OF idle_sched_kickoff], rule ss_dispatch [OF _ _ s(1, 2)]) (simp_all add: kickoff_def sched_add_task_sel idle_sched_def quiet_store_def)
  then show ?thesis using s(3, 4) by blast
qed





text \<open>
  Between the end of \<^verbatim>\<open>switch_into\<close> and \<^verbatim>\<open>add_task\<close> the run lock of a thread is free and \<^verbatim>\<open>remove_task\<close>
  does nothing, so a thread that is torn down then is put into a queue afterwards.
\<close>

theorem teardown_in_window:
  assumes "sched_reachable (T, s, ph)" and "c < nproc s" and "ph c = Running t n" and "yield_out t lock s = Some s1"
  shows "\<not> run_locked (sthds (switch_out c t s1) t)
    \<and> sched_remove_task t (switch_out c t s1) = Some (switch_out c t s1)
    \<and> (\<exists>p. places (sched_add_task c t (switch_out c t s1)) (ph(c := In_sched n)) t = {Queued c p})"
proof -
  obtain qt where ok: "sched_ok T s ph qt" using sched_reachable_ok [OF assms(1)] by auto
  let ?s1 = "switch_out c t s1" and ?ph = "ph(c := Leaving t n)"
  let ?s2 = "sched_add_task c t ?s1"
  have ok1: "sched_ok T ?s1 ?ph qt" using step_yield_ok [OF ok assms(2-4)] .
  have np: "c < nproc ?s1" using assms(2) by (simp add: switch_out_sel yield_sel [OF assms(4)])
  have ok2: "sched_ok T ?s2 (?ph(c := In_sched n)) (qt(c := insert t (qt c)))" using step_requeue_ok [OF ok1 np, of t n] by simp
  have np2: "c < nproc ?s2" using np by (simp add: sched_add_task_sel)
  obtain qs where qs: "mlfq_lists (sthds ?s2, mlfqs ?s2 c) qs" "mlfq_tids qs = (qt(c := insert t (qt c))) c"
    using queues_okD(1) [OF sched_okD(1) [OF ok2] np2] by blast
  obtain p where p: "p < MLFQ_NQUEUES" "t \<in> set (qs p)" using qs(2) by (auto simp: mlfq_tids_def)
  have "t \<in> T" using sched_okD(2) [OF ok] assms(2, 3) by force
  then obtain pl where pl: "places ?s2 (?ph(c := In_sched n)) t = {pl}" using places_one(1) [OF ok2] by blast
  have "Queued c p \<in> places ?s2 (?ph(c := In_sched n)) t"
    using np2 p queue_threads_lists [OF qs(1) p(1)] unfolding places_def by blast
  then have "places ?s2 (ph(c := In_sched n)) t = {Queued c p}" using pl by simp
  moreover have "sched_remove_task t ?s1 = Some ?s1"
    by (simp add: sched_remove_task_def Let_def switch_out_sel yield_sel(7) [OF assms(4)])
  ultimately show ?thesis by (auto simp: switch_out_sel)
qed

theorem teardown_in_window_witness:
  "\<exists>s ph p. sched_remove_task 64 s = Some s \<and> \<not> run_locked (sthds s 64) \<and> places (sched_add_task 1 64 s) ph 64 = {Queued 1 p}"
proof -
  obtain s where s: "sched_reachable ({64}, s, (\<lambda>_. In_sched 0)(1 := Running 64 1))" "nproc s = 2" "thd_state (sthds s 64) = PS_RUNNING"
    using dispatched_reachable by blast
  obtain s1 where y: "yield_out 64 None s = Some s1" using s(3) by (auto simp: yield_out_def Let_def PS_defs)
  have "1 < nproc s" "((\<lambda>_. In_sched 0)(1 := Running 64 1)) 1 = Running 64 1" using s(2) by simp_all
  from teardown_in_window [OF s(1) this y] show ?thesis by blast
qed

end
