(* ===== verification/Spec2Isabelle.thy ===== *)
theory Spec2Isabelle
  imports List_Head Fifo_Buf Phys Rbtree_Walk Mm_Fork C_Sort C_Stdio C_Time Sched_Safe
begin

text \<open>
  Verification of the core of the ChariotOS kernel.
\<close>

end
